(* ===== verification/Ens_Prelude.thy ===== *)
theory Ens_Prelude
  imports Complex_Main "HOL-Library.Word" "HOL-Library.Multiset" "HOL-Library.Sublist"
    "HOL-Library.Char_ord"
begin

text \<open>
  The prelude of the EdgeNetSwitch development: names for the machine integers of the C++ code,
  the exceptions its standard library can raise, models of the two standard associative
  containers the code uses (\<^verbatim>\<open>std::map\<close> as a key-sorted association list, \<^verbatim>\<open>std::unordered_map\<close> as
  a duplicate-free one), the interface both satisfy as a locale, a bounded FIFO interface, and a
  locale for invariants of transition systems.
\<close>

section \<open>Collections of simplification facts\<close>

named_theorems container_simps \<open>lookups in a container after an operation\<close>
named_theorems frame_simps \<open>fields an operation leaves alone\<close>
named_theorems inv_intros \<open>operations preserve their component's invariant\<close>

section \<open>Machine types and exceptions\<close>

type_synonym u8 = "8 word"
type_synonym u16 = "16 word"
type_synonym u32 = "32 word"
type_synonym u64 = "64 word"

text \<open>The exceptions of the C++ standard library (and the runtime errors of the code itself).\<close>

datatype exn =
    BadVariantAccess
  | OutOfRange
  | InvalidArgument string
  | RuntimeError string
  | SystemError int string

lemma word_minus_self_le:
  fixes a b m :: "'a::len word"
  assumes "b \<le> a"
  shows "(a - b > m) = (unat a - unat b > unat m)"
  using assms by (simp add: word_less_nat_alt unat_sub)

lemma unat_bound: "unat (w :: 'a::len word) < 2 ^ LENGTH('a)"
  by (rule unsigned_less)

lemma u64_bound: "unat (w :: u64) < 2 ^ 64"
  using unat_bound [of w] by simp

lemma unat_of_nat_id:
  "n < 2 ^ LENGTH('a) \<Longrightarrow> unat (of_nat n :: 'a::len word) = n"
  by (simp add: unat_of_nat take_bit_nat_eq_self)

lemma unat_Suc_word:
  fixes w :: "'a::len word"
  assumes "w + 1 \<noteq> 0"
  shows "unat (w + 1) = Suc (unat w)"
  using unatSuc [of w] assms by (simp add: add.commute)

section \<open>The keyed container interface\<close>

text \<open>
  What the code relies on of \<^verbatim>\<open>std::map\<close> and \<^verbatim>\<open>std::unordered_map\<close>: \<open>find\<close> after
  \<open>m[k] = v\<close> (\<open>assign\<close>), after \<open>m.emplace(k, v)\<close> (which keeps an existing binding) and after
  \<open>m.erase(k)\<close>, and that \<open>m.size()\<close> counts the bound keys.
\<close>

locale keyed_store =
  fixes wf :: "'m \<Rightarrow> bool"
    and empty :: "'m"
    and find :: "'m \<Rightarrow> 'k \<Rightarrow> 'v option"
    and assign :: "'k \<Rightarrow> 'v \<Rightarrow> 'm \<Rightarrow> 'm"
    and emplace :: "'k \<Rightarrow> 'v \<Rightarrow> 'm \<Rightarrow> 'm"
    and erase :: "'k \<Rightarrow> 'm \<Rightarrow> 'm"
    and size_of :: "'m \<Rightarrow> nat"
  assumes wf_empty: "wf empty"
    and wf_assign: "wf m \<Longrightarrow> wf (assign k v m)"
    and wf_emplace: "wf m \<Longrightarrow> wf (emplace k v m)"
    and wf_erase: "wf m \<Longrightarrow> wf (erase k m)"
    and find_empty: "find empty k = None"
    and find_assign: "wf m \<Longrightarrow> find (assign k v m) = (find m)(k \<mapsto> v)"
    and find_emplace: "wf m \<Longrightarrow> find (emplace k v m) =
          (case find m k of None \<Rightarrow> (find m)(k \<mapsto> v) | Some _ \<Rightarrow> find m)"
    and find_erase: "wf m \<Longrightarrow> find (erase k m) = (find m)(k := None)"
    and finite_keys: "finite (dom (find m))"
    and size_card: "wf m \<Longrightarrow> size_of m = card (dom (find m))"
begin

lemma size_assign:
  assumes "wf m"
  shows "size_of (assign k v m) = (if find m k = None then Suc (size_of m) else size_of m)"
  using assms finite_keys [of m]
  by (auto simp: size_card wf_assign find_assign card_insert_if dom_def [symmetric] domIff
      insert_absorb)

lemma size_erase:
  assumes "wf m" and "find m k \<noteq> None"
  shows "Suc (size_of (erase k m)) = size_of m"
proof -
  have "k \<in> dom (find m)" using assms(2) by (simp add: domIff)
  then show ?thesis
    using assms finite_keys [of m]
    by (simp add: size_card wf_erase find_erase card_Suc_Diff1 del: card_Diff_insert)
qed

lemma size_erase_le: "wf m \<Longrightarrow> size_of (erase k m) \<le> size_of m"
  using finite_keys [of m] by (simp add: size_card wf_erase find_erase card_Diff1_le)

text \<open>Evicting a bound key makes room for one new key.\<close>

lemma evict_then_emplace:
  assumes "wf m" and "find m j \<noteq> None" and "find m k = None"
  shows "size_of (emplace k v (erase j m)) = size_of m"
    and "find (emplace k v (erase j m)) = (find m)(j := None, k \<mapsto> v)"
proof -
  have j: "j \<noteq> k" using assms(2,3) by auto
  show f: "find (emplace k v (erase j m)) = (find m)(j := None, k \<mapsto> v)"
    using assms j by (simp add: find_emplace find_erase wf_erase)
  have "j \<in> dom (find m)" "k \<notin> dom (find m)" "finite (dom (find m))"
    using assms(2,3) finite_keys by (auto simp: domIff)
  moreover have "dom ((find m)(j := None, k \<mapsto> v)) = insert k (dom (find m) - {j})"
    using j by auto
  ultimately show "size_of (emplace k v (erase j m)) = size_of m"
    using assms(1) f
    by (simp add: size_card wf_erase wf_emplace card_Suc_Diff1 del: dom_fun_upd card_Diff_insert)
qed

end

subsection \<open>\<^verbatim>\<open>std::map\<close>: association lists in ascending key order\<close>

type_synonym ('k, 'v) omap = "('k \<times> 'v) list"

definition omap_wf :: "('k::linorder, 'v) omap \<Rightarrow> bool" where
  "omap_wf m = sorted_wrt (<) (map fst m)"

fun omap_assign :: "'k::linorder \<Rightarrow> 'v \<Rightarrow> ('k, 'v) omap \<Rightarrow> ('k, 'v) omap" where
  "omap_assign k v [] = [(k, v)]"
| "omap_assign k v (e # m) =
     (if fst e < k then e # omap_assign k v m
      else if fst e = k then (k, v) # m
      else (k, v) # e # m)"

definition omap_emplace :: "'k::linorder \<Rightarrow> 'v \<Rightarrow> ('k, 'v) omap \<Rightarrow> ('k, 'v) omap" where
  "omap_emplace k v m = (case map_of m k of None \<Rightarrow> omap_assign k v m | Some _ \<Rightarrow> m)"

definition omap_erase :: "'k::linorder \<Rightarrow> ('k, 'v) omap \<Rightarrow> ('k, 'v) omap" where
  "omap_erase k m = filter (\<lambda>e. fst e \<noteq> k) m"

lemma omap_wf_Nil [simp]: "omap_wf []"
  by (simp add: omap_wf_def)

lemma omap_wf_Cons [simp]:
  "omap_wf (e # m) = ((\<forall>e' \<in> set m. fst e < fst e') \<and> omap_wf m)"
  by (simp add: omap_wf_def)

lemma omap_wf_distinct: "omap_wf m \<Longrightarrow> distinct (map fst m)"
  by (induction m) auto

lemma set_omap_assign: "set (omap_assign k v m) \<subseteq> insert (k, v) (set m)"
  by (induction m) auto

lemma omap_wf_assign: "omap_wf m \<Longrightarrow> omap_wf (omap_assign k v m)"
proof (induction m)
  case (Cons e m)
  then show ?case
    using set_omap_assign [of k v m] by (fastforce simp: neq_iff)
qed simp

lemma map_of_omap_assign [container_simps]:
  "omap_wf m \<Longrightarrow> map_of (omap_assign k v m) = (map_of m)(k \<mapsto> v)"
  by (induction m) (auto simp: fun_eq_iff)

lemma omap_wf_filter: "omap_wf m \<Longrightarrow> omap_wf (filter P m)"
  by (induction m) auto

lemma map_of_filter_key: "map_of (filter (\<lambda>e. fst e \<noteq> k) m) = (map_of m)(k := None)"
  by (induction m) (auto simp: fun_eq_iff)

lemma length_card_dom: "distinct (map fst m) \<Longrightarrow> length m = card (dom (map_of m))"
  by (metis distinct_card dom_map_of_conv_image_fst length_map list.set_map)

interpretation om: keyed_store omap_wf "[]" map_of omap_assign omap_emplace omap_erase length
proof unfold_locales
  show "omap_wf m \<Longrightarrow> omap_wf (omap_emplace k v m)" for m :: "('a, 'b) omap" and k v
    by (simp add: omap_emplace_def omap_wf_assign split: option.split)
  show "omap_wf m \<Longrightarrow> length m = card (dom (map_of m))" for m :: "('a, 'b) omap"
    by (simp add: length_card_dom omap_wf_distinct)
qed (auto simp: omap_wf_assign omap_emplace_def omap_erase_def omap_wf_filter container_simps
    map_of_filter_key finite_dom_map_of split: option.split)

subsection \<open>\<^verbatim>\<open>std::unordered_map\<close>: duplicate-free association lists\<close>

text \<open>
  The position of an entry carries no meaning. Where the code iterates over such a container,
  the iteration order is a parameter \<open>order\<close> of the model, of which only \<open>hash_order\<close> is assumed.
\<close>

type_synonym ('k, 'v) hmap = "('k \<times> 'v) list"

definition hmap_wf :: "('k, 'v) hmap \<Rightarrow> bool" where
  "hmap_wf m = distinct (map fst m)"

fun hmap_assign :: "'k \<Rightarrow> 'v \<Rightarrow> ('k, 'v) hmap \<Rightarrow> ('k, 'v) hmap" where
  "hmap_assign k v [] = [(k, v)]"
| "hmap_assign k v (e # m) = (if fst e = k then (k, v) # m else e # hmap_assign k v m)"

definition hmap_emplace :: "'k \<Rightarrow> 'v \<Rightarrow> ('k, 'v) hmap \<Rightarrow> ('k, 'v) hmap" where
  "hmap_emplace k v m = (case map_of m k of None \<Rightarrow> hmap_assign k v m | Some _ \<Rightarrow> m)"

definition hmap_erase :: "'k \<Rightarrow> ('k, 'v) hmap \<Rightarrow> ('k, 'v) hmap" where
  "hmap_erase k m = filter (\<lambda>e. fst e \<noteq> k) m"

definition hash_order :: "('a list \<Rightarrow> 'a list) \<Rightarrow> bool" where
  "hash_order order \<longleftrightarrow> (\<forall>xs. mset (order xs) = mset xs)"

lemma hash_order_set: "hash_order order \<Longrightarrow> set (order xs) = set xs"
  unfolding hash_order_def by (metis set_mset_mset)

lemma hash_order_length: "hash_order order \<Longrightarrow> length (order xs) = length xs"
  unfolding hash_order_def by (metis size_mset)

lemma map_of_hmap_assign [container_simps]: "map_of (hmap_assign k v m) = (map_of m)(k \<mapsto> v)"
  by (induction m) (auto simp: fun_eq_iff)

lemma keys_hmap_assign: "fst ` set (hmap_assign k v m) = insert k (fst ` set m)"
  by (induction m) auto

lemma hmap_wf_assign: "hmap_wf m \<Longrightarrow> hmap_wf (hmap_assign k v m)"
  by (induction m) (auto simp: hmap_wf_def keys_hmap_assign image_iff)

lemma hmap_wf_filter: "hmap_wf m \<Longrightarrow> hmap_wf (filter P m)"
  by (auto simp: hmap_wf_def distinct_map_filter)

interpretation hm: keyed_store hmap_wf "[]" map_of hmap_assign hmap_emplace hmap_erase length
proof unfold_locales
  show "hmap_wf m \<Longrightarrow> hmap_wf (hmap_emplace k v m)" for m :: "('a, 'b) hmap" and k v
    by (simp add: hmap_emplace_def hmap_wf_assign split: option.split)
  show "hmap_wf m \<Longrightarrow> length m = card (dom (map_of m))" for m :: "('a, 'b) hmap"
    by (simp add: length_card_dom hmap_wf_def)
qed (auto simp: hmap_wf_def [of "[]"] hmap_wf_assign hmap_emplace_def hmap_erase_def hmap_wf_filter
    container_simps map_of_filter_key finite_dom_map_of split: option.split)

section \<open>Bounded first-in first-out hand-off\<close>

text \<open>
  The two bounded queues of the program (packet admission, telemetry export) differ in what
  they drop when full (the newest, the oldest). Both satisfy this interface: a push adds the
  element at the back and may lose some, a pop takes the front, and nothing is lost silently.
\<close>

datatype 'a fifo_op = Push 'a | Pop

text \<open>
  A run of pushes and pops by producer and consumer: the queue it ends with, what the consumer
  took and what was dropped, both in order. \<open>fifo_fed\<close> is what was pushed.
\<close>

fun fifo_run ::
  "('a \<Rightarrow> 'q \<Rightarrow> 'q \<times> 'a list) \<Rightarrow> ('q \<Rightarrow> ('a \<times> 'q) option) \<Rightarrow> 'a fifo_op list \<Rightarrow> 'q \<Rightarrow>
     'q \<times> 'a list \<times> 'a list" where
  "fifo_run push pop [] q = (q, [], [])"
| "fifo_run push pop (Push x # ops) q =
     (let (q', ys) = push x q; (q'', out, lost) = fifo_run push pop ops q' in (q'', out, ys @ lost))"
| "fifo_run push pop (Pop # ops) q =
     (case pop q of
        None \<Rightarrow> fifo_run push pop ops q
      | Some (x, q') \<Rightarrow> let (q'', out, lost) = fifo_run push pop ops q' in (q'', x # out, lost))"

fun fifo_fed :: "'a fifo_op list \<Rightarrow> 'a list" where
  "fifo_fed [] = []"
| "fifo_fed (Push x # ops) = x # fifo_fed ops"
| "fifo_fed (Pop # ops) = fifo_fed ops"

lemma fifo_run_PushE:
  assumes "fifo_run push pop (Push x # ops) q = (q', out, lost)"
  obtains q1 ys lost1 where "push x q = (q1, ys)" "fifo_run push pop ops q1 = (q', out, lost1)" "lost = ys @ lost1"
  using assms by (auto split: prod.splits)

lemma fifo_run_PopE:
  assumes "fifo_run push pop (Pop # ops) q = (q', out, lost)"
  obtains (idle) "pop q = None" "fifo_run push pop ops q = (q', out, lost)"
  | (take) x q1 out1 where "pop q = Some (x, q1)" "fifo_run push pop ops q1 = (q', out1, lost)" "out = x # out1"
  using assms by (auto split: prod.splits option.splits)

locale bounded_fifo =
  fixes invar :: "'q \<Rightarrow> bool"
    and contents :: "'q \<Rightarrow> 'a list"
    and cap :: "'q \<Rightarrow> nat"
    and push :: "'a \<Rightarrow> 'q \<Rightarrow> 'q \<times> 'a list"
    and pop :: "'q \<Rightarrow> ('a \<times> 'q) option"
  assumes invar_push: "invar q \<Longrightarrow> push x q = (q', lost) \<Longrightarrow> invar q'"
    and invar_pop: "invar q \<Longrightarrow> pop q = Some (x, q') \<Longrightarrow> invar q'"
    and invar_bounded: "invar q \<Longrightarrow> length (contents q) \<le> cap q"
    and cap_push: "push x q = (q', lost) \<Longrightarrow> cap q' = cap q"
    and cap_pop: "pop q = Some (x, q') \<Longrightarrow> cap q' = cap q"
    and push_conserves: "invar q \<Longrightarrow> push x q = (q', lost) \<Longrightarrow>
          mset (contents q') + mset lost = mset (contents q) + {#x#}"
    and push_order: "invar q \<Longrightarrow> push x q = (q', lost) \<Longrightarrow> subseq (contents q') (contents q @ [x])"
    and pop_empty: "pop q = None \<Longrightarrow> contents q = []"
    and pop_front: "pop q = Some (x, q') \<Longrightarrow> contents q = x # contents q'"
begin

lemma run_invar: "fifo_run push pop ops q = (q', out, lost) \<Longrightarrow> invar q \<Longrightarrow> invar q' \<and> cap q' = cap q"
proof (induction ops arbitrary: q out lost)
  case (Cons op ops)
  show ?case
  proof (cases op)
    case (Push x)
    from Cons.prems(1) [unfolded Push] show ?thesis
    proof (rule fifo_run_PushE)
      fix q1 ys lost1
      assume p: "push x q = (q1, ys)" and r: "fifo_run push pop ops q1 = (q', out, lost1)"
      from Cons.IH [OF r invar_push [OF Cons.prems(2) p]] cap_push [OF p] show ?thesis by simp
    qed
  next
    case Pop
    from Cons.prems(1) [unfolded Pop] show ?thesis
    proof (cases rule: fifo_run_PopE)
      case idle
      from Cons.IH [OF idle(2) Cons.prems(2)] show ?thesis .
    next
      case (take x q1 out1)
      from Cons.IH [OF take(2) invar_pop [OF Cons.prems(2) take(1)]] cap_pop [OF take(1)] show ?thesis by simp
    qed
  qed
qed simp

text \<open>At no point of a run does the queue exceed its capacity.\<close>

lemma run_bounded: "fifo_run push pop ops q = (q', out, lost) \<Longrightarrow> invar q \<Longrightarrow> length (contents q') \<le> cap q"
  using run_invar invar_bounded by metis

text \<open>Every element pushed is delivered, dropped or still queued, exactly once.\<close>

lemma run_conserve:
  "fifo_run push pop ops q = (q', out, lost) \<Longrightarrow> invar q \<Longrightarrow>
     mset (contents q) + mset (fifo_fed ops) = mset out + mset lost + mset (contents q')"
proof (induction ops arbitrary: q out lost)
  case (Cons op ops)
  show ?case
  proof (cases op)
    case (Push x)
    from Cons.prems(1) [unfolded Push] show ?thesis
    proof (rule fifo_run_PushE)
      fix q1 ys lost1
      assume p: "push x q = (q1, ys)" and r: "fifo_run push pop ops q1 = (q', out, lost1)" and l: "lost = ys @ lost1"
      have "mset (contents q) + {#x#} + mset (fifo_fed ops) = mset (contents q1) + mset ys + mset (fifo_fed ops)"
        using push_conserves [OF Cons.prems(2) p] by simp
      also have "\<dots> = mset ys + (mset out + mset lost1 + mset (contents q'))"
        using Cons.IH [OF r invar_push [OF Cons.prems(2) p]] by (simp add: ac_simps)
      finally show ?thesis by (simp add: Push l ac_simps)
    qed
  next
    case Pop
    from Cons.prems(1) [unfolded Pop] show ?thesis
    proof (cases rule: fifo_run_PopE)
      case idle
      from Cons.IH [OF idle(2) Cons.prems(2)] show ?thesis by (simp add: Pop)
    next
      case (take x q1 out1)
      from Cons.IH [OF take(2) invar_pop [OF Cons.prems(2) take(1)]] pop_front [OF take(1)] take(3)
      show ?thesis by (simp add: Pop)
    qed
  qed
qed simp

text \<open>What is delivered comes out in the order it was pushed.\<close>

lemma run_order:
  "fifo_run push pop ops q = (q', out, lost) \<Longrightarrow> invar q \<Longrightarrow>
     subseq (out @ contents q') (contents q @ fifo_fed ops)"
proof (induction ops arbitrary: q out lost)
  case (Cons op ops)
  show ?case
  proof (cases op)
    case (Push x)
    from Cons.prems(1) [unfolded Push] show ?thesis
    proof (rule fifo_run_PushE)
      fix q1 ys lost1
      assume p: "push x q = (q1, ys)" and r: "fifo_run push pop ops q1 = (q', out, lost1)"
      have "subseq (out @ contents q') (contents q1 @ fifo_fed ops)"
        using Cons.IH [OF r invar_push [OF Cons.prems(2) p]] .
      also have "subseq (contents q1 @ fifo_fed ops) ((contents q @ [x]) @ fifo_fed ops)"
        using push_order [OF Cons.prems(2) p] by (simp only: subseq_append)
      finally show ?thesis by (simp add: Push)
    qed
  next
    case Pop
    from Cons.prems(1) [unfolded Pop] show ?thesis
    proof (cases rule: fifo_run_PopE)
      case idle
      from Cons.IH [OF idle(2) Cons.prems(2)] show ?thesis by (simp add: Pop)
    next
      case (take x q1 out1)
      from Cons.IH [OF take(2) invar_pop [OF Cons.prems(2) take(1)]] pop_front [OF take(1)] take(3)
      show ?thesis by (simp add: Pop)
    qed
  qed
qed simp

end

section \<open>Invariants of transition systems\<close>

locale transition_system =
  fixes start :: "'s \<Rightarrow> bool"
    and step :: "'s \<Rightarrow> 's \<Rightarrow> bool"
    and invariant :: "'s \<Rightarrow> bool"
  assumes start_invariant: "start s \<Longrightarrow> invariant s"
    and step_invariant: "step s t \<Longrightarrow> invariant s \<Longrightarrow> invariant t"
begin

lemma steps_invariant: "step\<^sup>*\<^sup>* s t \<Longrightarrow> invariant s \<Longrightarrow> invariant t"
  by (induction rule: rtranclp_induct) (auto intro: step_invariant)

lemma reachable_invariant: "start s \<Longrightarrow> step\<^sup>*\<^sup>* s t \<Longrightarrow> invariant t"
  by (rule steps_invariant [OF _ start_invariant])

end

end
