(* ===== verification/Text_Utils.thy ===== *)
theory Text_Utils
  imports Ens_Prelude
begin

text \<open>
  The text functions of the C and C++ standard library that the parser, the address printer and
  the control plane call: character classes of the C locale, \<^verbatim>\<open>std::string::find\<close> and
  \<^verbatim>\<open>substr\<close>, \<^verbatim>\<open>std::to_string\<close> on unsigned integers and \<^verbatim>\<open>std::stoull\<close>. A string is the list of its
  bytes. The lemmas give the position found by \<open>find\<close> and the round trip of printing and
  reading an unsigned 64-bit integer.
\<close>

section \<open>Character classes\<close>

abbreviation code :: "char \<Rightarrow> nat" where
  "code c \<equiv> of_char c"

definition isspace :: "char \<Rightarrow> bool" where
  "isspace c = (code c = 32 \<or> 9 \<le> code c \<and> code c \<le> 13)"

definition isdigit :: "char \<Rightarrow> bool" where
  "isdigit c = (48 \<le> code c \<and> code c \<le> 57)"

definition tolower :: "char \<Rightarrow> char" where
  "tolower c = (if 65 \<le> code c \<and> code c \<le> 90 then char_of (code c + 32) else c)"

lemma isdigit_not_space: "isdigit c \<Longrightarrow> \<not> isspace c"
  by (auto simp: isdigit_def isspace_def)

section \<open>Searching and slicing\<close>

text \<open>\<open>s.find(pat)\<close>: the first position at which \<open>pat\<close> occurs, \<open>None\<close> for \<^verbatim>\<open>npos\<close>.\<close>

fun str_find :: "string \<Rightarrow> string \<Rightarrow> nat option" where
  "str_find pat [] = (if pat = [] then Some 0 else None)"
| "str_find pat (c # cs) =
     (if prefix pat (c # cs) then Some 0 else map_option Suc (str_find pat cs))"

text \<open>\<open>s.find(pat, pos)\<close>: the search starts at \<open>pos\<close>.\<close>

definition str_find_from :: "string \<Rightarrow> string \<Rightarrow> nat \<Rightarrow> nat option" where
  "str_find_from pat s pos =
     (if pos \<le> length s then map_option (\<lambda>i. pos + i) (str_find pat (drop pos s)) else None)"

text \<open>\<open>s.substr(pos, n)\<close> raises \<^verbatim>\<open>std::out_of_range\<close> when \<open>pos\<close> is past the end.\<close>

definition substr :: "string \<Rightarrow> nat \<Rightarrow> nat \<Rightarrow> exn + string" where
  "substr s pos n = (if pos \<le> length s then Inr (take n (drop pos s)) else Inl OutOfRange)"

definition substr_to_end :: "string \<Rightarrow> nat \<Rightarrow> exn + string" where
  "substr_to_end s pos = (if pos \<le> length s then Inr (drop pos s) else Inl OutOfRange)"

lemma str_find_prefix: "str_find pat s = Some i \<Longrightarrow> prefix pat (drop i s)"
  by (induction pat s arbitrary: i rule: str_find.induct) (auto split: if_splits)

lemma str_find_bound:
  assumes "str_find pat s = Some i"
  shows "i + length pat \<le> length s"
proof -
  have "i \<le> length s"
    using assms by (induction pat s arbitrary: i rule: str_find.induct) (auto split: if_splits)
  moreover have "length pat \<le> length (drop i s)"
    using str_find_prefix [OF assms] prefix_length_le by blast
  ultimately show ?thesis by simp
qed

lemma str_find_first: "str_find pat s = Some i \<Longrightarrow> j < i \<Longrightarrow> \<not> prefix pat (drop j s)"
proof (induction pat s arbitrary: i j rule: str_find.induct)
  case (2 pat c cs)
  then show ?case by (cases j) (auto split: if_splits)
qed (auto split: if_splits)

lemma str_find_None: "str_find pat s = None \<longleftrightarrow> (\<forall>j. \<not> prefix pat (drop j s))"
proof (induction pat s rule: str_find.induct)
  case (2 pat c cs)
  show ?case
  proof
    assume a: "str_find pat (c # cs) = None"
    show "\<forall>j. \<not> prefix pat (drop j (c # cs))"
    proof
      fix j show "\<not> prefix pat (drop j (c # cs))"
        using a "2.IH" by (cases j) (auto split: if_splits)
    qed
  next
    assume a: "\<forall>j. \<not> prefix pat (drop j (c # cs))"
    then have "\<not> prefix pat (c # cs)" and "\<forall>j. \<not> prefix pat (drop j cs)"
      by (metis drop0) (metis a drop_Suc_Cons)
    then show "str_find pat (c # cs) = None" using "2.IH" by simp
  qed
qed simp

text \<open>A pattern whose first character does not occur in a block is not found inside the block.\<close>

lemma str_find_skip:
  "p \<notin> set xs \<Longrightarrow> str_find (p # ps) (xs @ ys) = map_option (\<lambda>i. length xs + i) (str_find (p # ps) ys)"
  by (induction xs) (auto simp: option.map_comp comp_def split: option.split,
    auto simp: map_option_case split: option.split)

lemma str_find_absent: "p \<notin> set xs \<Longrightarrow> str_find (p # ps) xs = None"
  using str_find_skip [of p xs ps "[]"] by simp

lemma str_find_hit: "prefix pat ys \<Longrightarrow> str_find pat ys = Some 0"
  by (cases ys) auto

section \<open>Decimal printing\<close>

definition digit_char :: "nat \<Rightarrow> char" where
  "digit_char d = char_of (48 + d)"

fun nat_to_string :: "nat \<Rightarrow> string" where
  "nat_to_string n =
     (if n < 10 then [digit_char n] else nat_to_string (n div 10) @ [digit_char (n mod 10)])"

declare nat_to_string.simps [simp del]

text \<open>\<^verbatim>\<open>std::to_string\<close> on the unsigned types, and on \<^verbatim>\<open>int\<close>.\<close>

definition to_string :: "'a::len word \<Rightarrow> string" where
  "to_string w = nat_to_string (unat w)"

definition int_to_string :: "int \<Rightarrow> string" where
  "int_to_string i = (if i < 0 then ''-'' @ nat_to_string (nat (- i)) else nat_to_string (nat i))"

lemma code_digit_char: "d < 10 \<Longrightarrow> code (digit_char d) = 48 + d"
  by (simp add: digit_char_def)

lemma isdigit_digit_char: "d < 10 \<Longrightarrow> isdigit (digit_char d)"
  by (simp add: isdigit_def code_digit_char)

lemma nat_to_string_digits: "c \<in> set (nat_to_string n) \<Longrightarrow> isdigit c"
proof (induction n rule: nat_to_string.induct)
  case (1 n)
  then show ?case
    by (subst (asm) (2) nat_to_string.simps)
      (auto simp: isdigit_digit_char split: if_splits)
qed

lemma nat_to_string_nonempty [simp]: "nat_to_string n \<noteq> []"
  by (subst nat_to_string.simps) simp

section \<open>\<^verbatim>\<open>std::stoull\<close>\<close>

definition digits_value :: "string \<Rightarrow> nat" where
  "digits_value ds = foldl (\<lambda>acc c. 10 * acc + (code c - 48)) 0 ds"

lemma digits_value_snoc [simp]: "digits_value (ds @ [c]) = 10 * digits_value ds + (code c - 48)"
  by (simp add: digits_value_def)

lemma digits_value_nat_to_string: "digits_value (nat_to_string n) = n"
proof (induction n rule: nat_to_string.induct)
  case (1 n)
  show ?case
  proof (cases "n < 10")
    case True
    then show ?thesis
      by (subst nat_to_string.simps) (simp add: digits_value_def code_digit_char)
  next
    case False
    with "1.IH" have "digits_value (nat_to_string (n div 10)) = n div 10" by simp
    with False show ?thesis
      by (subst nat_to_string.simps) (simp add: code_digit_char)
  qed
qed

lemma nat_to_string_inj: "nat_to_string m = nat_to_string n \<Longrightarrow> m = n"
  by (metis digits_value_nat_to_string)

text \<open>
  Leading white space and one sign are skipped, then the longest run of decimal digits is read.
  No digit at all raises \<^verbatim>\<open>std::invalid_argument\<close>, a magnitude that does not fit in 64 bits raises
  \<^verbatim>\<open>std::out_of_range\<close>; a minus sign negates modulo \<open>2\<^sup>6\<^sup>4\<close>, as \<^verbatim>\<open>strtoull\<close> does.
\<close>

definition stoull :: "string \<Rightarrow> exn + u64" where
  "stoull s =
     (let s1 = dropWhile isspace s;
          neg = (case s1 of c # _ \<Rightarrow> c = CHR ''-'' | [] \<Rightarrow> False);
          s2 = (case s1 of c # cs \<Rightarrow> if c = CHR ''-'' \<or> c = CHR ''+'' then cs else s1 | [] \<Rightarrow> []);
          ds = takeWhile isdigit s2;
          n = digits_value ds
      in if ds = [] then Inl (InvalidArgument ''stoull'')
         else if n \<ge> 2 ^ 64 then Inl OutOfRange
         else Inr (if neg then - of_nat n else of_nat n))"

lemma stoull_digits:
  assumes "\<forall>c \<in> set ds. isdigit c" and "ds \<noteq> []" and "rest = [] \<or> \<not> isdigit (hd rest)"
  shows "stoull (ds @ rest) =
    (if digits_value ds \<ge> 2 ^ 64 then Inl OutOfRange else Inr (of_nat (digits_value ds)))"
proof -
  obtain d ds' where ds: "ds = d # ds'" using assms(2) by (cases ds) auto
  have d: "isdigit d" using assms(1) ds by simp
  have nosign: "d \<noteq> CHR ''-''" "d \<noteq> CHR ''+''"
    using d by (auto simp: isdigit_def)
  have "takeWhile isdigit (ds @ rest) = ds @ takeWhile isdigit rest"
    using assms(1) by (simp add: takeWhile_append2)
  also have "takeWhile isdigit rest = []"
    using assms(3) by (cases rest) auto
  finally have tw: "takeWhile isdigit (d # ds' @ rest) = d # ds'"
    using ds by simp
  have dw: "dropWhile isspace (d # ds' @ rest) = d # ds' @ rest"
    using d by (simp add: isdigit_not_space)
  show ?thesis
    unfolding stoull_def ds append_Cons dw
    using tw nosign by (simp only: list.case Let_def if_False simp_thms) simp
qed

lemma stoull_to_string: "stoull (to_string (w :: u64)) = Inr w"
proof -
  have "unat w < 2 ^ 64" by (rule u64_bound)
  moreover have "\<forall>c \<in> set (nat_to_string (unat w)). isdigit c"
    by (simp add: nat_to_string_digits)
  ultimately show ?thesis
    using stoull_digits [of "nat_to_string (unat w)" "[]"]
    by (simp add: to_string_def digits_value_nat_to_string)
qed

lemma stoull_to_string_append:
  assumes "rest \<noteq> [] \<Longrightarrow> \<not> isdigit (hd rest)"
  shows "stoull (to_string (w :: u64) @ rest) = Inr w"
proof -
  have "unat w < 2 ^ 64" by (rule u64_bound)
  then show ?thesis
    using stoull_digits [of "nat_to_string (unat w)" rest] assms
    by (auto simp: to_string_def digits_value_nat_to_string nat_to_string_digits)
qed

end
