(* ===== verification/Mac_Address.thy ===== *)
theory Mac_Address
  imports Text_Utils "HOL-Library.List_Lexorder"
begin

unbundle bit_operations_syntax

text \<open>
  \<^verbatim>\<open>MacAddress\<close> (include/edgenetswitch/switching/MacAddress.hpp, src/switching/MacAddress.cpp): six
  bytes, ordered lexicographically by the defaulted \<open><=>\<close>, printed as lower-case hexadecimal pairs
  and read back by \<open>fromString\<close>. The lemmas give the round trip in both directions.
\<close>

section \<open>Definitions\<close>

datatype MacAddress = MacAddress u8 u8 u8 u8 u8 u8

fun bytes :: "MacAddress \<Rightarrow> u8 list" where
  "bytes (MacAddress a b c d e f) = [a, b, c, d, e, f]"

text \<open>The constructor from an array of six bytes; other lengths do not type-check in the source.\<close>

fun mac_of_bytes :: "u8 list \<Rightarrow> MacAddress option" where
  "mac_of_bytes [a, b, c, d, e, f] = Some (MacAddress a b c d e f)"
| "mac_of_bytes _ = None"

text \<open>\<^verbatim>\<open>std::hex\<close> output of a non-negative \<^verbatim>\<open>int\<close>, and \<^verbatim>\<open>setw\<close>/\<^verbatim>\<open>setfill\<close> padding.\<close>

definition hex_char :: "nat \<Rightarrow> char" where
  "hex_char d = (if d < 10 then char_of (48 + d) else char_of (87 + d))"

fun hex_string :: "nat \<Rightarrow> string" where
  "hex_string n =
     (if n < 16 then [hex_char n] else hex_string (n div 16) @ [hex_char (n mod 16)])"

declare hex_string.simps [simp del]

definition setw :: "nat \<Rightarrow> char \<Rightarrow> string \<Rightarrow> string" where
  "setw n fill s = replicate (n - length s) fill @ s"

fun toString_from :: "nat \<Rightarrow> u8 list \<Rightarrow> string" where
  "toString_from index [] = []"
| "toString_from index (b # bs) =
     (if index \<noteq> 0 then '':'' else []) @ setw 2 (CHR ''0'') (hex_string (unat b))
       @ toString_from (Suc index) bs"

definition toString :: "MacAddress \<Rightarrow> string" where
  "toString m = toString_from 0 (bytes m)"

definition isBroadcast :: "MacAddress \<Rightarrow> bool" where
  "isBroadcast m = list_all (\<lambda>byte. byte = 0xFF) (bytes m)"

definition isZero :: "MacAddress \<Rightarrow> bool" where
  "isZero m = list_all (\<lambda>byte. byte = 0x00) (bytes m)"

definition hexValue :: "char \<Rightarrow> u8 option" where
  "hexValue c =
     (if 48 \<le> code c \<and> code c \<le> 57 then Some (of_nat (code c - 48))
      else if 97 \<le> code c \<and> code c \<le> 102 then Some (of_nat (10 + (code c - 97)))
      else if 65 \<le> code c \<and> code c \<le> 70 then Some (of_nat (10 + (code c - 65)))
      else None)"

text \<open>The loop over \<open>index\<close>; every access \<open>text[i]\<close> is within the 17 characters checked before.\<close>

fun fromString_loop :: "string \<Rightarrow> nat list \<Rightarrow> u8 list \<Rightarrow> u8 list option" where
  "fromString_loop text [] acc = Some acc"
| "fromString_loop text (index # rest) acc =
     (let offset = index * 3 in
      if index \<noteq> 5 \<and> text ! (offset + 2) \<noteq> CHR '':'' then None
      else case hexValue (text ! offset) of
             None \<Rightarrow> None
           | Some high \<Rightarrow>
               (case hexValue (text ! (offset + 1)) of
                  None \<Rightarrow> None
                | Some low \<Rightarrow> fromString_loop text rest (acc @ [push_bit 4 high OR low])))"

definition fromString :: "string \<Rightarrow> MacAddress option" where
  "fromString text =
     (if length text \<noteq> 17 then None
      else Option.bind (fromString_loop text [0, 1, 2, 3, 4, 5] []) mac_of_bytes)"

text \<open>The defaulted three-way comparison compares the byte arrays lexicographically.\<close>

instantiation MacAddress :: linorder
begin

definition less_eq_MacAddress :: "MacAddress \<Rightarrow> MacAddress \<Rightarrow> bool" where
  "less_eq_MacAddress m n \<longleftrightarrow> bytes m \<le> bytes n"

definition less_MacAddress :: "MacAddress \<Rightarrow> MacAddress \<Rightarrow> bool" where
  "less_MacAddress m n \<longleftrightarrow> bytes m < bytes n"

lemma bytes_inj: "bytes m = bytes n \<Longrightarrow> m = n"
  by (cases m; cases n) simp

instance
  by standard (auto simp: less_eq_MacAddress_def less_MacAddress_def intro: bytes_inj)

end

section \<open>Hexadecimal digits\<close>

lemma mac_of_bytes_bytes [simp]: "mac_of_bytes (bytes m) = Some m"
  by (cases m) simp

lemma hexValue_hex_char: "d < 16 \<Longrightarrow> hexValue (hex_char d) = Some (of_nat d)"
  by (auto simp: hexValue_def hex_char_def)

lemma byte_hex: "setw 2 (CHR ''0'') (hex_string (unat (b :: u8)))
    = [hex_char (unat b div 16), hex_char (unat b mod 16)]"
proof -
  have lt: "unat b < 256" using unat_bound [of b] by simp
  have z: "hex_char 0 = CHR ''0''" by code_simp
  show ?thesis
  proof (cases "unat b < 16")
    case True
    then have "hex_string (unat b) = [hex_char (unat b)]"
      by (subst hex_string.simps) simp
    with True show ?thesis by (simp add: setw_def z)
  next
    case False
    with lt have "unat b div 16 < 16" by simp
    then have "hex_string (unat b div 16) = [hex_char (unat b div 16)]"
      by (subst hex_string.simps) simp
    with False show ?thesis
      by (subst hex_string.simps) (simp add: setw_def)
  qed
qed

lemma byte_join: "push_bit 4 (of_nat (unat b div 16)) OR of_nat (unat b mod 16) = (b :: u8)"
proof -
  have "of_nat (unat b div 16) = drop_bit 4 b"
    using unat_bound [of b]
    by (simp add: word_unat_eq_iff unat_of_nat drop_bit_eq_div unat_div)
  moreover have "of_nat (unat b mod 16) = take_bit 4 b"
    by (simp add: take_bit_eq_mod word_unat_eq_iff unat_mod unat_of_nat)
  ultimately show ?thesis
    by (simp add: bit_eq_iff bit_simps) auto
qed

section \<open>Round trips\<close>

lemma toString_chars:
  "toString (MacAddress a b c d e f) =
     [hex_char (unat a div 16), hex_char (unat a mod 16), CHR '':'',
      hex_char (unat b div 16), hex_char (unat b mod 16), CHR '':'',
      hex_char (unat c div 16), hex_char (unat c mod 16), CHR '':'',
      hex_char (unat d div 16), hex_char (unat d mod 16), CHR '':'',
      hex_char (unat e div 16), hex_char (unat e mod 16), CHR '':'',
      hex_char (unat f div 16), hex_char (unat f mod 16)]"
  by (simp add: toString_def byte_hex)

lemma hexValue_byte:
  "hexValue (hex_char (unat (b :: u8) div 16)) = Some (of_nat (unat b div 16))"
  "hexValue (hex_char (unat b mod 16)) = Some (of_nat (unat b mod 16))"
  using unat_bound [of b] by (auto intro: hexValue_hex_char)

lemma fromString_toString: "fromString (toString m) = Some m"
proof (cases m)
  case (MacAddress a b c d e f)
  then show ?thesis
    by (simp add: fromString_def toString_chars hexValue_byte byte_join Let_def
        del: of_nat_div of_nat_mod)
qed

text \<open>A hexadecimal digit of either case and the lower-case digit printed for its value.\<close>

lemma hex_char_hexValue:
  assumes "hexValue c = Some v"
  shows "unat v < 16" and "hex_char (unat v) = tolower c"
proof -
  consider "48 \<le> code c" "code c \<le> 57" "v = of_nat (code c - 48)"
    | "97 \<le> code c" "code c \<le> 102" "v = of_nat (10 + (code c - 97))"
    | "65 \<le> code c" "code c \<le> 70" "v = of_nat (10 + (code c - 65))"
    using assms by (auto simp: hexValue_def split: if_splits)
  then have "unat v < 16 \<and> hex_char (unat v) = tolower c"
  proof cases
    case 1
    then have "unat v = code c - 48" by (simp add: unat_of_nat_id del: of_nat_diff)
    with 1 show ?thesis by (auto simp: hex_char_def tolower_def)
  next
    case 2
    then have "unat v = 10 + (code c - 97)"
      by (simp add: unat_of_nat_id del: of_nat_diff of_nat_add)
    with 2 show ?thesis by (auto simp: hex_char_def tolower_def)
  next
    case 3
    then have "unat v = 10 + (code c - 65)"
      by (simp add: unat_of_nat_id del: of_nat_diff of_nat_add)
    with 3 show ?thesis by (auto simp: hex_char_def tolower_def add.commute)
  qed
  then show "unat v < 16" and "hex_char (unat v) = tolower c" by auto
qed

lemma nibbles_joined:
  fixes h l :: u8
  assumes "unat h < 16" and "unat l < 16"
  shows "unat (push_bit 4 h OR l) div 16 = unat h" and "unat (push_bit 4 h OR l) mod 16 = unat l"
proof -
  have h: "h = take_bit 4 h" and l: "l = take_bit 4 l"
    using assms by (simp_all add: take_bit_eq_mod word_unat_eq_iff unat_mod)
  have "drop_bit 4 (push_bit 4 (take_bit 4 h) OR take_bit 4 l) = take_bit 4 h"
    by (auto simp: bit_eq_iff bit_simps)
  then have "unat (drop_bit 4 (push_bit 4 h OR l)) = unat h" using h l by simp
  then show "unat (push_bit 4 h OR l) div 16 = unat h"
    by (simp add: drop_bit_eq_div unat_div)
  have "take_bit 4 (push_bit 4 (take_bit 4 h) OR take_bit 4 l) = take_bit 4 l"
    by (auto simp: bit_eq_iff bit_simps)
  then have "unat (take_bit 4 (push_bit 4 h OR l)) = unat l" using h l by simp
  then show "unat (push_bit 4 h OR l) mod 16 = unat l"
    by (simp add: take_bit_eq_mod unat_mod)
qed

lemma byte_read:
  assumes "hexValue x = Some h" and "hexValue y = Some l"
  shows "hex_char (unat (push_bit 4 h OR l) div 16) = tolower x"
    and "hex_char (unat (push_bit 4 h OR l) mod 16) = tolower y"
  using assms by (simp_all add: nibbles_joined hex_char_hexValue)

lemma list_17:
  assumes "length xs = 17"
  obtains a b c d e f g h i j k l m n p q r where "xs = [a, b, c, d, e, f, g, h, i, j, k, l, m, n, p, q, r]"
  using assms by (auto simp: length_Suc_conv eval_nat_numeral)

lemma toString_fromString:
  assumes "fromString t = Some m"
  shows "toString m = map tolower t"
proof -
  have len: "length t = 17"
    and loop: "Option.bind (fromString_loop t [0, 1, 2, 3, 4, 5] []) mac_of_bytes = Some m"
    using assms by (simp_all add: fromString_def split: if_splits)
  have colon: "tolower (CHR '':'') = CHR '':''" by (simp add: tolower_def)
  show ?thesis
    using len loop colon
    by (elim list_17)
      (auto simp: Let_def toString_chars byte_read bind_eq_Some_conv split: option.splits if_splits)
qed

lemma hexValue_tolower: "hexValue (tolower c) = hexValue c"
  by (auto simp: hexValue_def tolower_def)

lemma colon_tolower: "tolower c = CHR '':'' \<longleftrightarrow> c = CHR '':''"
  by (auto simp: tolower_def dest: arg_cong [where f = "of_char :: char \<Rightarrow> nat"])

lemma fromString_loop_tolower:
  "\<forall>i \<in> set is. i * 3 + 1 < length t \<and> (i \<noteq> 5 \<longrightarrow> i * 3 + 2 < length t) \<Longrightarrow>
     fromString_loop (map tolower t) is acc = fromString_loop t is acc"
  by (induction "is" arbitrary: acc)
    (auto simp: Let_def hexValue_tolower colon_tolower split: option.split)

lemma fromString_tolower: "fromString (map tolower t) = fromString t"
  by (simp add: fromString_def fromString_loop_tolower del: fromString_loop.simps)

section \<open>Properties\<close>

text \<open>
  \<^bold>\<open>C39\<close> A text is accepted as the address \<open>m\<close> exactly when, up to the case of its letters, it is the
  text \<open>toString\<close> prints for \<open>m\<close>. So printing and reading back is the identity, the reader accepts
  upper and lower case, and every text that is not six two-digit groups separated by colons is
  rejected.
\<close>

theorem fromString_iff_toString: "fromString t = Some m \<longleftrightarrow> map tolower t = toString m"
proof
  assume "fromString t = Some m"
  then show "map tolower t = toString m" by (simp add: toString_fromString)
next
  assume "map tolower t = toString m"
  then have "fromString (map tolower t) = Some m" by (simp add: fromString_toString)
  then show "fromString t = Some m" by (simp add: fromString_tolower)
qed

end
