(* ===== verification/Packet_Types.thy ===== *)
theory Packet_Types
  imports Mac_Address
begin

text \<open>
  The data that flows through the runtime: packets and drop records (packet/Packet.hpp), forwarding
  decisions and events (switching/ForwardingDecision.hpp, ForwardingEvent.hpp), the messages of the
  bus with their payload variant (messaging/MessagingBus.hpp), the lifecycle identities
  (packet/LifecycleIdGenerator.hpp) and the synthetic packet source (packet/PacketGenerator).
\<close>

section \<open>Packets\<close>

datatype PacketDropReason =
    ParseError
  | ValidationError
  | QueueOverflow
  | SimulatedLoss
  | RateLimited
  | ProcessingError
  | InternalError
  | Unknown

record PacketDropped =
  pd_reason :: PacketDropReason
  pd_timestamp_ms :: u64
  pd_packet_id :: u64
  pd_lifecycle_id :: u64

record Packet =
  pk_id :: u64
  pk_lifecycle_id :: u64
  pk_payload :: string
  pk_timestamp_ms :: u64
  pk_wire_size :: u32
  pk_payload_size :: u32
  pk_valid :: bool
  pk_source_ip :: string
  pk_source_port :: u16
  pk_source_mac :: "MacAddress option"
  pk_destination_mac :: "MacAddress option"
  pk_ingress_port :: "u32 option"
  pk_ingress_timestamp_ns :: u64

definition Packet_default :: Packet where
  "Packet_default =
     \<lparr>pk_id = 0, pk_lifecycle_id = 0, pk_payload = [], pk_timestamp_ms = 0, pk_wire_size = 0,
      pk_payload_size = 0, pk_valid = False, pk_source_ip = [], pk_source_port = 0,
      pk_source_mac = None, pk_destination_mac = None, pk_ingress_port = None,
      pk_ingress_timestamp_ns = 0\<rparr>"

section \<open>Forwarding decisions\<close>

datatype ForwardingAction = Drop | Flood | ForwardToPorts

record ForwardingDecision =
  fd_action :: ForwardingAction
  fd_egress_ports :: "u32 list"

definition ForwardingDecision_default :: ForwardingDecision where
  "ForwardingDecision_default = \<lparr>fd_action = Drop, fd_egress_ports = []\<rparr>"

record ForwardingEvent =
  fe_lifecycle_id :: u64
  fe_action :: ForwardingAction
  fe_egress_ports :: "u32 list"

section \<open>Messages\<close>

datatype MessageType =
    SystemStart
  | SystemShutdown
  | ConfigLoaded
  | RouteUpdated
  | TelemetryTick
  | T_HealthStatus
  | T_Telemetry
  | T_Health
  | T_PacketRx
  | T_PacketProcessed
  | T_PacketDropped
  | T_ForwardingDecisionMade
  | T_IngressIdlePoll

record IngressIdlePoll =
  ip_timestamp_ms :: u64

record TelemetryData =
  td_uptime_ms :: u64
  td_tick_count :: u64
  td_timestamp_ms :: u64

record HealthStatus =
  hs_uptime_ms :: u64
  hs_last_heartbeat_ms :: u64
  hs_silence_duration_ms :: u64
  hs_is_alive :: bool

datatype (discs_sels) Payload =
    Monostate
  | P_Telemetry TelemetryData
  | P_Health HealthStatus
  | P_Packet Packet
  | P_Dropped PacketDropped
  | P_Forwarding ForwardingEvent
  | P_IdlePoll IngressIdlePoll

record Message =
  m_type :: MessageType
  m_timestamp_ms :: u64
  m_payload :: Payload

text \<open>\<^verbatim>\<open>std::get_if<Packet>\<close> and its siblings; \<^verbatim>\<open>std::get\<close> raises when the alternative differs.\<close>

fun get_if_packet :: "Payload \<Rightarrow> Packet option" where
  "get_if_packet (P_Packet p) = Some p"
| "get_if_packet _ = None"

fun get_if_dropped :: "Payload \<Rightarrow> PacketDropped option" where
  "get_if_dropped (P_Dropped d) = Some d"
| "get_if_dropped _ = None"

definition variant_get :: "'a option \<Rightarrow> exn + 'a" where
  "variant_get v = (case v of None \<Rightarrow> Inl BadVariantAccess | Some x \<Rightarrow> Inr x)"

text \<open>The payload alternative each message type of the packet pipeline carries.\<close>

definition well_typed :: "Message \<Rightarrow> bool" where
  "well_typed m =
     (case m_type m of
        T_PacketRx \<Rightarrow> is_P_Packet (m_payload m)
      | T_PacketProcessed \<Rightarrow> is_P_Packet (m_payload m)
      | T_PacketDropped \<Rightarrow> is_P_Dropped (m_payload m)
      | T_ForwardingDecisionMade \<Rightarrow> is_P_Forwarding (m_payload m)
      | T_IngressIdlePoll \<Rightarrow> is_P_IdlePoll (m_payload m)
      | T_Telemetry \<Rightarrow> is_P_Telemetry (m_payload m)
      | T_HealthStatus \<Rightarrow> is_P_Health (m_payload m)
      | _ \<Rightarrow> True)"

definition drop_message :: "PacketDropReason \<Rightarrow> u64 \<Rightarrow> u64 \<Rightarrow> u64 \<Rightarrow> Message" where
  "drop_message reason ts packet_id lifecycle_id =
     \<lparr>m_type = T_PacketDropped, m_timestamp_ms = ts,
      m_payload = P_Dropped \<lparr>pd_reason = reason, pd_timestamp_ms = ts, pd_packet_id = packet_id,
                             pd_lifecycle_id = lifecycle_id\<rparr>\<rparr>"

lemma drop_message_simps [simp]:
  "m_type (drop_message r ts i l) = T_PacketDropped"
  "m_payload (drop_message r ts i l) =
     P_Dropped \<lparr>pd_reason = r, pd_timestamp_ms = ts, pd_packet_id = i, pd_lifecycle_id = l\<rparr>"
  "well_typed (drop_message r ts i l)"
  by (simp_all add: drop_message_def well_typed_def)

section \<open>Lifecycle identities\<close>

text \<open>\<open>counter_.fetch_add(1)\<close>: the counter starts at 1 and wraps at 64 bits.\<close>

type_synonym LifecycleIdGenerator = u64

definition LifecycleIdGenerator_new :: LifecycleIdGenerator where
  "LifecycleIdGenerator_new = 1"

definition next_id :: "LifecycleIdGenerator \<Rightarrow> u64 \<times> LifecycleIdGenerator" where
  "next_id counter = (counter, counter + 1)"

fun next_ids :: "nat \<Rightarrow> LifecycleIdGenerator \<Rightarrow> u64 list" where
  "next_ids 0 g = []"
| "next_ids (Suc n) g = (let (i, g') = next_id g in i # next_ids n g')"

lemma next_ids_map: "next_ids n g = map (\<lambda>i. g + of_nat i) [0..<n]"
proof (induction n arbitrary: g)
  case (Suc n)
  have "map (\<lambda>i. g + of_nat i) [0..<Suc n] = g # map (\<lambda>i. (g + 1) + of_nat i) [0..<n]"
    by (simp add: upt_conv_Cons map_Suc_upt [symmetric] add.assoc del: upt_Suc)
  with Suc show ?case by (simp add: next_id_def)
qed simp

section \<open>The packet generator\<close>

record PacketGenerator =
  pg_packet_id :: u64

definition generator_onTick :: "u64 \<Rightarrow> PacketGenerator \<Rightarrow> PacketGenerator \<times> Message" where
  "generator_onTick now_ms g =
     (let packet = Packet_default\<lparr>pk_id := pg_packet_id g, pk_timestamp_ms := now_ms, pk_payload_size := 64\<rparr>
      in (g\<lparr>pg_packet_id := pg_packet_id g + 1\<rparr>,
          \<lparr>m_type = T_PacketRx, m_timestamp_ms = now_ms, m_payload = P_Packet packet\<rparr>))"

section \<open>Properties\<close>

text \<open>
  The lifecycle generator hands out distinct identities for as many packets as 64 bits can
  number, and never the identity 0 before it wraps.
\<close>

theorem lifecycle_ids_distinct:
  assumes "n < 2 ^ 64"
  shows "distinct (next_ids n LifecycleIdGenerator_new) \<and> 0 \<notin> set (next_ids n LifecycleIdGenerator_new)"
proof -
  have val: "unat (1 + of_nat i :: u64) = Suc i" if "i < n" for i
  proof -
    have "Suc i < 2 ^ LENGTH(64)" using that assms by simp
    then have "unat (of_nat (Suc i) :: u64) = Suc i" by (rule unat_of_nat_id)
    then show ?thesis by simp
  qed
  have "inj_on (\<lambda>i. 1 + of_nat i :: u64) {0..<n}"
  proof (rule inj_onI)
    fix i j assume ij: "i \<in> {0..<n}" "j \<in> {0..<n}" and eq: "1 + of_nat i = (1 + of_nat j :: u64)"
    have "Suc i = Suc j" using arg_cong [OF eq, of unat] val ij by (simp only: atLeastLessThan_iff)
    then show "i = j" by (rule Suc_inject)
  qed
  moreover have "1 + of_nat i \<noteq> (0 :: u64)" if "i < n" for i
    using val [OF that] by (metis Zero_not_Suc unsigned_0)
  ultimately show ?thesis
    by (auto simp: next_ids_map LifecycleIdGenerator_new_def distinct_map)
qed

theorem lifecycle_ids_distinct_witness:
  "next_ids 3 LifecycleIdGenerator_new = [1, 2, 3] \<and> distinct (next_ids 3 LifecycleIdGenerator_new)"
  using lifecycle_ids_distinct [of 3]
  by (simp add: next_ids_map LifecycleIdGenerator_new_def upt_rec)

end
