(* ===== verification/Messaging_Bus.thy ===== *)
theory Messaging_Bus
  imports Packet_Types "HOL-Library.Multiset_Order"
begin

text \<open>
  \<^verbatim>\<open>MessagingBus\<close> (messaging/MessagingBus): synchronous publish and subscribe. A callback changes the
  state \<open>'w\<close> of the program, may raise, and may itself publish; in this program every nested publish is the
  last thing a callback does, so a callback returns the messages it publishes and they are
  delivered, depth first, before the remaining subscribers of the outer message. A subscriber is
  named by an element of a type \<open>'h\<close>, and \<open>run\<close> gives the code of each name. Delivery takes
  fuel (one unit per callback run); \<open>ranked_bus\<close> shows how much fuel is enough whenever callbacks
  publish only messages of lower rank, and \<open>safe_bus\<close> that no exception reaches the publisher when
  every callback accepts the messages it is sent.
\<close>

section \<open>Definitions\<close>

type_synonym ('h, 'w) callback = "'h \<Rightarrow> Message \<Rightarrow> 'w \<Rightarrow> exn + ('w \<times> Message list)"

type_synonym 'h bus = "(MessageType, 'h list) hmap"

definition callbacks :: "'h bus \<Rightarrow> MessageType \<Rightarrow> 'h list" where
  "callbacks bus t = (case map_of bus t of None \<Rightarrow> [] | Some cbs \<Rightarrow> cbs)"

text \<open>\<open>subscribers_[type].push_back(callback)\<close>, where \<open>[]\<close> creates an empty list when there is none.\<close>

definition subscribe :: "MessageType \<Rightarrow> 'h \<Rightarrow> 'h bus \<Rightarrow> 'h bus" where
  "subscribe t cb bus = hmap_assign t (callbacks bus t @ [cb]) bus"

text \<open>The copy of the callbacks taken under the lock, each paired with the message.\<close>

definition tasks :: "'h bus \<Rightarrow> Message \<Rightarrow> ('h \<times> Message) list" where
  "tasks bus m = map (\<lambda>cb. (cb, m)) (callbacks bus (m_type m))"

datatype 'w delivery = Delivered 'w | Raised exn | Unfinished

fun deliver :: "('h, 'w) callback \<Rightarrow> nat \<Rightarrow> 'h bus \<Rightarrow> ('h \<times> Message) list \<Rightarrow> 'w \<Rightarrow> 'w delivery" where
  "deliver run fuel bus [] w = Delivered w"
| "deliver run 0 bus (task # rest) w = Unfinished"
| "deliver run (Suc fuel) bus ((cb, m) # rest) w =
     (case run cb m w of
        Inl ex \<Rightarrow> Raised ex
      | Inr (w', published) \<Rightarrow> deliver run fuel bus (concat (map (tasks bus) published) @ rest) w')"

text \<open>Sequencing of code that may raise.\<close>

fun and_then :: "'a delivery \<Rightarrow> ('a \<Rightarrow> 'b delivery) \<Rightarrow> 'b delivery" where
  "and_then (Delivered x) f = f x"
| "and_then (Raised ex) f = Raised ex"
| "and_then Unfinished f = Unfinished"

definition publish :: "('h, 'w) callback \<Rightarrow> nat \<Rightarrow> 'h bus \<Rightarrow> Message \<Rightarrow> 'w \<Rightarrow> 'w delivery" where
  "publish run fuel bus m w = deliver run fuel bus (tasks bus m) w"

section \<open>Subscription\<close>

lemma callbacks_empty [simp]: "callbacks [] t = []"
  by (simp add: callbacks_def)

lemma callbacks_subscribe [simp]:
  "callbacks (subscribe t cb bus) t' = (if t' = t then callbacks bus t @ [cb] else callbacks bus t')"
  by (simp add: callbacks_def subscribe_def container_simps)

section \<open>Delivery\<close>

lemma deliver_mono:
  "deliver run n bus ts w \<noteq> Unfinished \<Longrightarrow> n \<le> n' \<Longrightarrow> deliver run n' bus ts w = deliver run n bus ts w"
proof (induction n arbitrary: n' ts w)
  case 0
  then show ?case by (cases ts) auto
next
  case (Suc n)
  obtain k where n': "n' = Suc k" "n \<le> k" using Suc.prems(2) by (cases n') auto
  show ?case
  proof (cases ts)
    case (Cons task rest)
    obtain cb m where task: "task = (cb, m)" by (cases task)
    show ?thesis
    proof (cases "run cb m w")
      case (Inr r)
      then obtain w' ms where r: "run cb m w = Inr (w', ms)" by (cases r) simp
      then have "deliver run n bus (concat (map (tasks bus) ms) @ rest) w' \<noteq> Unfinished"
        using Suc.prems(1) Cons task by simp
      from Suc.IH [OF this n'(2)] show ?thesis using r Cons task n' by simp
    qed (simp add: n' Cons task)
  qed simp
qed

lemma deliver_append:
  "deliver run n bus ts w = Delivered w' \<Longrightarrow> deliver run k bus us w' = r \<Longrightarrow> r \<noteq> Unfinished \<Longrightarrow>
     deliver run (n + k) bus (ts @ us) w = r"
proof (induction run n bus ts w rule: deliver.induct)
  case (1 run fuel bus w)
  then show ?case using deliver_mono [of run k bus us w' "fuel + k"] by simp
next
  case (3 run fuel bus cb m rest w)
  then obtain w1 ms where "run cb m w = Inr (w1, ms)" by (auto split: sum.splits)
  with 3 show ?case by simp
qed auto

text \<open>Subscribers that publish nothing run once each, in subscription order, on the same message.\<close>

lemma deliver_quiet:
  assumes "\<And>cb w. cb \<in> set cbs \<Longrightarrow> run cb m w = Inr (f cb w, [])"
  shows "deliver run (length cbs) bus (map (\<lambda>cb. (cb, m)) cbs) w = Delivered (fold f cbs w)"
  using assms
proof (induction cbs arbitrary: w)
  case (Cons cb cbs)
  have "run cb m w = Inr (f cb w, [])" by (rule Cons.prems) simp
  moreover have "deliver run (length cbs) bus (map (\<lambda>cb. (cb, m)) cbs) (f cb w)
      = Delivered (fold f cbs (f cb w))"
    by (rule Cons.IH) (rule Cons.prems, simp)
  ultimately show ?case by simp
qed simp

section \<open>Termination of nested publication\<close>

definition from_bus :: "'h bus \<Rightarrow> 'h \<times> Message \<Rightarrow> bool" where
  "from_bus bus t \<longleftrightarrow> fst t \<in> set (callbacks bus (m_type (snd t)))"

lemma from_bus_tasks: "t \<in> set (tasks bus m) \<Longrightarrow> from_bus bus t"
  by (auto simp: tasks_def from_bus_def)

locale ranked_bus =
  fixes run :: "('h, 'w) callback" and bus :: "'h bus" and rank :: "MessageType \<Rightarrow> nat"
  assumes emits_lower: "cb \<in> set (callbacks bus (m_type m)) \<Longrightarrow> run cb m w = Inr (w', published) \<Longrightarrow>
    m' \<in> set published \<Longrightarrow> rank (m_type m') < rank (m_type m)"
begin

abbreviation ranks :: "('h \<times> Message) list \<Rightarrow> nat multiset" where
  "ranks ts \<equiv> mset (map (\<lambda>t. rank (m_type (snd t))) ts)"

lemma ranks_decrease:
  assumes "from_bus bus (cb, m)" and "run cb m w = Inr (w', published)"
  shows "ranks (concat (map (tasks bus) published) @ rest) < ranks ((cb, m) # rest)"
proof -
  have "ranks (concat (map (tasks bus) published)) < {#rank (m_type m)#}"
  proof (rule ex_gt_imp_less_multiset)
    show "\<exists>y. y \<in># {#rank (m_type m)#} \<and> (\<forall>x. x \<in># ranks (concat (map (tasks bus) published)) \<longrightarrow> x < y)"
      using assms emits_lower by (auto simp: tasks_def from_bus_def)
  qed
  then show ?thesis by simp
qed

lemma deliver_finishes:
  "\<forall>t \<in> set ts. from_bus bus t \<Longrightarrow> \<exists>n. deliver run n bus ts w \<noteq> Unfinished"
proof (induction "ranks ts" arbitrary: ts w rule: less_induct)
  case less
  show ?case
  proof (cases ts)
    case (Cons task rest)
    obtain cb m where task: "task = (cb, m)" by (cases task)
    show ?thesis
    proof (cases "run cb m w")
      case (Inl ex)
      then have "deliver run (Suc 0) bus ts w \<noteq> Unfinished" using Cons task by simp
      then show ?thesis by blast
    next
      case (Inr r)
      then obtain w' ms where r: "run cb m w = Inr (w', ms)" by (cases r) simp
      let ?next = "concat (map (tasks bus) ms) @ rest"
      have "ranks ?next < ranks ts"
        using ranks_decrease [where cb = cb and m = m and w = w and w' = w' and published = ms and rest = rest]
          r less.prems Cons task by simp
      moreover have "\<forall>t \<in> set ?next. from_bus bus t"
        using less.prems Cons from_bus_tasks by auto
      ultimately obtain n where "deliver run n bus ?next w' \<noteq> Unfinished"
        using less.hyps by blast
      then have "deliver run (Suc n) bus ts w \<noteq> Unfinished" using Cons task r by simp
      then show ?thesis by blast
    qed
  qed simp
qed

lemma publish_finishes: "\<exists>n. publish run n bus m w \<noteq> Unfinished"
  unfolding publish_def by (rule deliver_finishes) (simp add: from_bus_tasks)

end

section \<open>Delivery without exceptions\<close>

locale safe_bus =
  fixes run :: "('h, 'w) callback" and bus :: "'h bus" and good :: "Message \<Rightarrow> bool" and inv :: "'w \<Rightarrow> bool"
  assumes callback_safe: "cb \<in> set (callbacks bus (m_type m)) \<Longrightarrow> good m \<Longrightarrow> inv w \<Longrightarrow>
    \<exists>w' published. run cb m w = Inr (w', published) \<and> inv w' \<and> (\<forall>m' \<in> set published. good m')"
begin

definition good_tasks :: "('h \<times> Message) list \<Rightarrow> bool" where
  "good_tasks ts \<longleftrightarrow> (\<forall>t \<in> set ts. from_bus bus t \<and> good (snd t))"

lemma good_tasks_publish: "good m \<Longrightarrow> good_tasks (tasks bus m)"
  by (auto simp: good_tasks_def tasks_def from_bus_def)

lemma task_safe:
  assumes "good_tasks ((cb, m) # rest)" and "inv w"
  obtains w' ms where "run cb m w = Inr (w', ms)" and "inv w'"
    and "good_tasks (concat (map (tasks bus) ms) @ rest)"
proof -
  obtain w' ms where "run cb m w = Inr (w', ms)" "inv w'" "\<forall>m' \<in> set ms. good m'"
    using callback_safe [of cb m w] assms by (auto simp: good_tasks_def from_bus_def)
  moreover have "good_tasks (concat (map (tasks bus) ms) @ rest)"
    using assms(1) calculation(3) good_tasks_publish by (auto simp: good_tasks_def)
  ultimately show ?thesis using that by blast
qed

lemma deliver_safe:
  "good_tasks ts \<Longrightarrow> inv w \<Longrightarrow> deliver run n bus ts w = Unfinished \<or> (\<exists>w'. deliver run n bus ts w = Delivered w' \<and> inv w')"
proof (induction n arbitrary: ts w)
  case 0
  then show ?case by (cases ts) auto
next
  case (Suc n)
  show ?case
  proof (cases ts)
    case Nil
    with Suc.prems show ?thesis by simp
  next
    case (Cons task rest)
    obtain cb m where task: "task = (cb, m)" by (cases task)
    obtain w' ms where "run cb m w = Inr (w', ms)" "inv w'" "good_tasks (concat (map (tasks bus) ms) @ rest)"
      by (rule task_safe [OF _ Suc.prems(2), of cb m rest]) (use Suc.prems(1) Cons task in simp)
    with Suc.IH [of "concat (map (tasks bus) ms) @ rest" w'] Cons task show ?thesis by simp
  qed
qed

end

locale reliable_bus = ranked_bus run bus rank + safe_bus run bus good inv
  for run :: "('h, 'w) callback" and bus :: "'h bus" and rank :: "MessageType \<Rightarrow> nat" and good :: "Message \<Rightarrow> bool" and inv :: "'w \<Rightarrow> bool"
begin

text \<open>A good message is delivered to all its subscribers, and to those of all messages they publish.\<close>

lemma publish_delivers:
  assumes "good m" and "inv w"
  shows "\<exists>n w'. publish run n bus m w = Delivered w' \<and> inv w'"
proof -
  obtain n where n: "publish run n bus m w \<noteq> Unfinished" using publish_finishes by blast
  then show ?thesis
    using deliver_safe [OF good_tasks_publish [OF assms(1)] assms(2), of n] by (auto simp: publish_def)
qed

end

end
