(* ===== verification/Control_Protocol.thy ===== *)
theory Control_Protocol
  imports Text_Utils Messaging_Bus
begin

text \<open>
  The control protocol (control/ControlProtocol.hpp, ControlWire.hpp, control/JsonResponse.hpp): requests,
  responses, their framing, and the JSON answers. The JSON library is not part of the repository: a document
  is the value the code builds (an object is the sequence of its assignments) and the library's
  \<^verbatim>\<open>dump\<close> is a parameter. It is documented to raise on strings that are not UTF-8, so the answers built with it
  may raise.
\<close>

section \<open>Requests and responses\<close>

record ControlRequest =
  rq_version :: string
  rq_command :: string

record ControlResponse =
  rp_success :: bool
  rp_payload :: string
  rp_error_code :: string
  rp_message :: string

definition err_InvalidRequest :: string where "err_InvalidRequest = ''invalid_request''"

definition err_InvalidVersionFormat :: string where "err_InvalidVersionFormat = ''invalid_version_format''"

definition err_UnsupportedVersion :: string where "err_UnsupportedVersion = ''unsupported_version''"

definition err_UnknownCommand :: string where "err_UnknownCommand = ''unknown_command''"

definition err_InternalError :: string where "err_InternalError = ''internal_error''"

lemmas error_codes = err_InvalidRequest_def err_InvalidVersionFormat_def err_UnsupportedVersion_def
  err_UnknownCommand_def err_InternalError_def

definition isValidProtocolVersion :: "string \<Rightarrow> bool" where
  "isValidProtocolVersion v = (v = ''1.2'')"

definition isWellFormedVersion :: "string \<Rightarrow> bool" where
  "isWellFormedVersion v = (length v = 3 \<and> isdigit (v ! 0) \<and> v ! 1 = CHR ''.'' \<and> isdigit (v ! 2))"

abbreviation nl :: string where
  "nl \<equiv> [CHR 0x0A]"

definition encodeResponse :: "ControlResponse \<Rightarrow> string" where
  "encodeResponse resp =
     (if rp_success resp then
        ''OK'' @ nl @
        (if rp_payload resp \<noteq> [] then rp_payload resp @ (if last (rp_payload resp) \<noteq> CHR 0x0A then nl else []) else []) @
        ''END'' @ nl
      else
        let error_code = (if rp_error_code resp = [] then err_InternalError else rp_error_code resp);
            msg = (if rp_message resp = [] then ''internal error'' else rp_message resp)
        in ''ERR'' @ nl @ ''error_code='' @ error_code @ nl @ ''message='' @ msg @ nl @ ''END'' @ nl)"

section \<open>JSON answers\<close>

datatype json =
    JString string
  | JUint nat
  | JInt int
  | JReal rat
  | JBool bool
  | JArray "json list"
  | JObject "(string \<times> json) list"

text \<open>Well-formed UTF-8 (RFC 3629), which \<^verbatim>\<open>dump\<close> requires of every string. The first byte of a character gives the
  number of bytes that follow and the range of the next one: no overlong forms, no surrogates, at most
  \<open>0x10FFFF\<close>.\<close>

definition lead :: "char \<Rightarrow> (nat \<times> nat \<times> nat) option" where
  "lead a =
     (let n = code a in
      if n < 0x80 then Some (0, 0x80, 0xBF)
      else if n < 0xC2 then None
      else if n \<le> 0xDF then Some (1, 0x80, 0xBF)
      else if n = 0xE0 then Some (2, 0xA0, 0xBF)
      else if n = 0xED then Some (2, 0x80, 0x9F)
      else if n \<le> 0xEF then Some (2, 0x80, 0xBF)
      else if n = 0xF0 then Some (3, 0x90, 0xBF)
      else if n \<le> 0xF3 then Some (3, 0x80, 0xBF)
      else if n = 0xF4 then Some (3, 0x80, 0x8F)
      else None)"

fun utf8_run :: "nat \<Rightarrow> nat \<Rightarrow> nat \<Rightarrow> string \<Rightarrow> bool" where
  "utf8_run n lo hi [] \<longleftrightarrow> n = 0"
| "utf8_run 0 lo hi (a # s) \<longleftrightarrow> (case lead a of None \<Rightarrow> False | Some (n, lo, hi) \<Rightarrow> utf8_run n lo hi s)"
| "utf8_run (Suc n) lo hi (b # s) \<longleftrightarrow> lo \<le> code b \<and> code b \<le> hi \<and> utf8_run n 0x80 0xBF s"

definition utf8 :: "string \<Rightarrow> bool" where
  "utf8 s = utf8_run 0 0x80 0xBF s"

fun json_strings :: "json \<Rightarrow> string list" where
  "json_strings (JString s) = [s]"
| "json_strings (JUint n) = []"
| "json_strings (JInt i) = []"
| "json_strings (JReal r) = []"
| "json_strings (JBool b) = []"
| "json_strings (JArray js) = concat (map json_strings js)"
| "json_strings (JObject kvs) = concat (map (\<lambda>kv. fst kv # json_strings (snd kv)) kvs)"

text \<open>What is assumed of \<^verbatim>\<open>dump\<close>: it prints a document whose strings are UTF-8 (as a text that is not empty)
  and raises on any other.\<close>

definition strict_dump :: "(json \<Rightarrow> exn + string) \<Rightarrow> bool" where
  "strict_dump dump \<longleftrightarrow>
     (\<forall>j. if list_all utf8 (json_strings j) then \<exists>s. dump j = Inr s \<and> s \<noteq> [] else \<exists>ex. dump j = Inl ex)"

fun dumped :: "exn + string \<Rightarrow> (string \<Rightarrow> ControlResponse) \<Rightarrow> ControlResponse delivery" where
  "dumped (Inl ex) f = Raised ex"
| "dumped (Inr s) f = Delivered (f s)"

definition makeJsonSuccess :: "(json \<Rightarrow> exn + string) \<Rightarrow> json \<Rightarrow> ControlResponse delivery" where
  "makeJsonSuccess dump data =
     dumped (dump (JObject [(''status'', JString ''ok''), (''data'', data)]))
       (\<lambda>text. \<lparr>rp_success = True, rp_payload = text, rp_error_code = [], rp_message = []\<rparr>)"

definition makeJsonError :: "(json \<Rightarrow> exn + string) \<Rightarrow> string \<Rightarrow> string \<Rightarrow> ControlResponse delivery" where
  "makeJsonError dump error_code msg =
     dumped (dump (JObject [(''status'', JString ''error''),
                            (''error'', JObject [(''code'', JString error_code), (''message'', JString msg)])]))
       (\<lambda>text. \<lparr>rp_success = False, rp_payload = text, rp_error_code = error_code, rp_message = msg\<rparr>)"

definition text_response :: "string \<Rightarrow> ControlResponse" where
  "text_response payload = \<lparr>rp_success = True, rp_payload = payload, rp_error_code = [], rp_message = []\<rparr>"

section \<open>Lemmas\<close>

lemma utf8_Nil [simp]: "utf8 []"
  by (simp add: utf8_def)

lemma utf8_ascii: "code a < 0x80 \<Longrightarrow> utf8 (a # s) = utf8 s"
  by (simp add: utf8_def lead_def)

lemma utf8_run_start: "utf8_run 0 lo hi s = utf8 s"
  by (cases s) (simp_all add: utf8_def)

lemma lead_bounds: "lead a = Some (n, lo, hi) \<Longrightarrow> 0x80 \<le> lo"
  by (auto simp: lead_def Let_def split: if_splits)

text \<open>An ASCII character splits a text into UTF-8 texts.\<close>

lemma utf8_run_split:
  "code c < 0x80 \<Longrightarrow> 0x80 \<le> lo \<Longrightarrow> utf8_run n lo hi (xs @ c # ys) \<longleftrightarrow> utf8_run n lo hi xs \<and> utf8 ys"
proof (induction n lo hi xs rule: utf8_run.induct)
  case (1 n lo hi)
  then show ?case by (cases n) (simp_all add: utf8_run_start utf8_ascii)
next
  case (2 lo hi a s)
  show ?case
  proof (cases "lead a")
    case (Some r)
    obtain m lo' hi' where r: "r = (m, lo', hi')" by (cases r)
    then have "0x80 \<le> lo'" using Some lead_bounds by blast
    then show ?thesis using 2 Some r by simp
  qed simp
qed auto

lemma utf8_split: "code c < 0x80 \<Longrightarrow> utf8 (xs @ c # ys) \<longleftrightarrow> utf8 xs \<and> utf8 ys"
  unfolding utf8_def [of "xs @ c # ys"] utf8_def [of xs] by (rule utf8_run_split) simp_all

lemma utf8_run_append: "utf8_run n lo hi xs \<Longrightarrow> utf8 ys \<Longrightarrow> utf8_run n lo hi (xs @ ys)"
proof (induction n lo hi xs rule: utf8_run.induct)
  case (1 n lo hi)
  then show ?case by (simp add: utf8_run_start)
next
  case (2 lo hi a s)
  then show ?case by (cases "lead a") auto
qed auto

lemma utf8_append [intro]: "utf8 xs \<Longrightarrow> utf8 ys \<Longrightarrow> utf8 (xs @ ys)"
  unfolding utf8_def [of "xs @ ys"] utf8_def [of xs] by (rule utf8_run_append)

lemma utf8_all_ascii: "list_all (\<lambda>c. code c < 0x80) s \<Longrightarrow> utf8 s"
  by (induction s) (simp_all add: utf8_ascii)

lemma utf8_ascii_prefix: "list_all (\<lambda>c. code c < 0x80) xs \<Longrightarrow> utf8 (xs @ ys) = utf8 ys"
  by (induction xs) (simp_all add: utf8_ascii)

lemma utf8_ascii_suffix: "list_all (\<lambda>c. code c < 0x80) ys \<Longrightarrow> utf8 (xs @ ys) = utf8 xs"
proof (induction ys rule: rev_induct)
  case (snoc c ys)
  then have "utf8 ((xs @ ys) @ c # []) \<longleftrightarrow> utf8 (xs @ ys)" by (subst utf8_split) simp_all
  then show ?case using snoc by simp
qed simp

lemma makeJsonError_utf8:
  assumes "strict_dump dump"
  shows "utf8 c \<Longrightarrow> utf8 m \<Longrightarrow> \<exists>text. text \<noteq> [] \<and> makeJsonError dump c m =
      Delivered \<lparr>rp_success = False, rp_payload = text, rp_error_code = c, rp_message = m\<rparr>"
    and "utf8 c \<Longrightarrow> \<not> utf8 m \<Longrightarrow> \<exists>ex. makeJsonError dump c m = Raised ex"
proof -
  let ?j = "JObject [(''status'', JString ''error''), (''error'', JObject [(''code'', JString c), (''message'', JString m)])]"
  have "list_all utf8 (json_strings ?j) \<longleftrightarrow> utf8 c \<and> utf8 m" by (auto simp: utf8_all_ascii)
  then show "utf8 c \<Longrightarrow> utf8 m \<Longrightarrow> \<exists>text. text \<noteq> [] \<and> makeJsonError dump c m =
      Delivered \<lparr>rp_success = False, rp_payload = text, rp_error_code = c, rp_message = m\<rparr>"
    and "utf8 c \<Longrightarrow> \<not> utf8 m \<Longrightarrow> \<exists>ex. makeJsonError dump c m = Raised ex"
    using assms unfolding strict_dump_def makeJsonError_def by (metis dumped.simps)+
qed

lemma makeJsonSuccess_utf8:
  assumes "strict_dump dump" and "list_all utf8 (json_strings data)"
  shows "\<exists>text. text \<noteq> [] \<and> makeJsonSuccess dump data =
      Delivered \<lparr>rp_success = True, rp_payload = text, rp_error_code = [], rp_message = []\<rparr>"
proof -
  let ?j = "JObject [(''status'', JString ''ok''), (''data'', data)]"
  have "list_all utf8 (json_strings ?j)" using assms(2) by (simp add: utf8_all_ascii)
  then show ?thesis
    using assms(1) unfolding strict_dump_def makeJsonSuccess_def by (metis dumped.simps(2))
qed

end
