(* ===== verification/Runtime_Env.thy ===== *)
theory Runtime_Env
  imports Text_Utils Mac_Address
begin

text \<open>
  The environment the runtime code calls: the clocks of \<^verbatim>\<open>TimeUtils.hpp\<close>, the socket call
  \<^verbatim>\<open>sendto\<close> of the transport backends and the process-wide \<^verbatim>\<open>Logger\<close> (core/Logger). The answers of
  the operating system are parameters: the \<open>n\<close>-th reading of each clock and the result of the
  \<open>n\<close>-th \<^verbatim>\<open>sendto\<close> are given by functions of the state, of which nothing is assumed. What the
  program does to its environment (log lines, datagrams) is recorded in order.
\<close>

section \<open>State\<close>

datatype LogLevel = Debug | Info | Warning | Error

fun level_rank :: "LogLevel \<Rightarrow> nat" where
  "level_rank Debug = 0"
| "level_rank Info = 1"
| "level_rank Warning = 2"
| "level_rank Error = 3"

record logger =
  minLevel :: LogLevel
  file_is_open :: bool

record datagram =
  dg_fd :: int
  dg_payload :: string
  dg_addr :: u32
  dg_port :: u16

record env =
  ms_clock :: "nat \<Rightarrow> u64"
  ms_reads :: nat
  ns_clock :: "nat \<Rightarrow> u64"
  ns_reads :: nat
  stamp_clock :: "nat \<Rightarrow> string"
  stamp_reads :: nat
  local_time :: "u64 \<Rightarrow> string"
  send_oracle :: "nat \<Rightarrow> int \<times> int"
  send_calls :: "datagram list"
  logger_instance :: "logger option"
  stdout_lines :: "string list"
  file_lines :: "string list"
  stderr_lines :: "string list"
  sleeps :: "int list"

section \<open>Clocks\<close>

definition nowMs :: "env \<Rightarrow> u64 \<times> env" where
  "nowMs e = (ms_clock e (ms_reads e), e\<lparr>ms_reads := Suc (ms_reads e)\<rparr>)"

definition nowNs :: "env \<Rightarrow> u64 \<times> env" where
  "nowNs e = (ns_clock e (ns_reads e), e\<lparr>ns_reads := Suc (ns_reads e)\<rparr>)"

definition formatTimestamp :: "env \<Rightarrow> u64 \<Rightarrow> string" where
  "formatTimestamp e timestamp_ms =
     local_time e timestamp_ms @ ''.'' @ setw 3 (CHR ''0'') (to_string (timestamp_ms mod 1000))"

section \<open>Logger\<close>

definition log_init :: "LogLevel \<Rightarrow> bool \<Rightarrow> env \<Rightarrow> env" where
  "log_init level opened e = e\<lparr>logger_instance := Some \<lparr>minLevel = level, file_is_open = opened\<rparr>\<rparr>"

definition log_shutdown :: "env \<Rightarrow> env" where
  "log_shutdown e = e\<lparr>logger_instance := None\<rparr>"

definition parseLevel :: "string \<Rightarrow> LogLevel" where
  "parseLevel levelStr =
     (let s = map tolower levelStr in
      if s = ''debug'' then Debug
      else if s = ''warn'' \<or> s = ''warning'' then Warning
      else if s = ''error'' then Error
      else if s = ''info'' then Info
      else Info)"

fun level_string :: "LogLevel \<Rightarrow> string" where
  "level_string Debug = ''DEBUG''"
| "level_string Info = ''INFO''"
| "level_string Warning = ''WARN''"
| "level_string Error = ''ERROR''"

definition log_write :: "logger \<Rightarrow> LogLevel \<Rightarrow> string \<Rightarrow> env \<Rightarrow> env" where
  "log_write l level msg e =
     (if level_rank level < level_rank (minLevel l) then e
      else let line = ''['' @ stamp_clock e (stamp_reads e) @ ''][''  @ level_string level @ ''] '' @ msg
           in e\<lparr>stamp_reads := Suc (stamp_reads e),
                stdout_lines := stdout_lines e @ [line],
                file_lines := (if file_is_open l then file_lines e @ [line] else file_lines e)\<rparr>)"

definition log_msg :: "LogLevel \<Rightarrow> string \<Rightarrow> env \<Rightarrow> env" where
  "log_msg level msg e =
     (case logger_instance e of None \<Rightarrow> e | Some l \<Rightarrow> log_write l level msg e)"

definition log_debug :: "string \<Rightarrow> env \<Rightarrow> env" where
  "log_debug = log_msg Debug"

definition log_info :: "string \<Rightarrow> env \<Rightarrow> env" where
  "log_info = log_msg Info"

definition log_warn :: "string \<Rightarrow> env \<Rightarrow> env" where
  "log_warn = log_msg Warning"

definition log_error :: "string \<Rightarrow> env \<Rightarrow> env" where
  "log_error = log_msg Error"

lemmas log_defs = log_debug_def log_info_def log_warn_def log_error_def

section \<open>The operating system's \<^verbatim>\<open>sendto\<close>\<close>

text \<open>The call is recorded; its return value and \<^verbatim>\<open>errno\<close> are the oracle's next answer.\<close>

definition sys_sendto :: "datagram \<Rightarrow> env \<Rightarrow> int \<times> int \<times> env" where
  "sys_sendto d e =
     (let (ret, err) = send_oracle e (length (send_calls e))
      in (ret, err, e\<lparr>send_calls := send_calls e @ [d]\<rparr>))"

text \<open>\<^verbatim>\<open>std::this_thread::sleep_for\<close>, in milliseconds: only the fact of sleeping is recorded.\<close>

definition sleep_ms :: "int \<Rightarrow> env \<Rightarrow> env" where
  "sleep_ms ms e = e\<lparr>sleeps := sleeps e @ [ms]\<rparr>"

section \<open>What the operations leave alone\<close>

lemma log_msg_frame [frame_simps]:
  "ms_clock (log_msg l m e) = ms_clock e" "ms_reads (log_msg l m e) = ms_reads e"
  "ns_clock (log_msg l m e) = ns_clock e" "ns_reads (log_msg l m e) = ns_reads e"
  "local_time (log_msg l m e) = local_time e"
  "send_oracle (log_msg l m e) = send_oracle e" "send_calls (log_msg l m e) = send_calls e"
  "logger_instance (log_msg l m e) = logger_instance e"
  by (simp_all add: log_msg_def log_write_def Let_def split: option.split)

lemma nowMs_frame [frame_simps]:
  "send_calls (snd (nowMs e)) = send_calls e" "send_oracle (snd (nowMs e)) = send_oracle e"
  "ns_clock (snd (nowMs e)) = ns_clock e" "ns_reads (snd (nowMs e)) = ns_reads e"
  "stdout_lines (snd (nowMs e)) = stdout_lines e" "logger_instance (snd (nowMs e)) = logger_instance e"
  by (simp_all add: nowMs_def)

lemma nowNs_frame [frame_simps]:
  "send_calls (snd (nowNs e)) = send_calls e" "send_oracle (snd (nowNs e)) = send_oracle e"
  "ms_clock (snd (nowNs e)) = ms_clock e" "ms_reads (snd (nowNs e)) = ms_reads e"
  "stdout_lines (snd (nowNs e)) = stdout_lines e" "logger_instance (snd (nowNs e)) = logger_instance e"
  by (simp_all add: nowNs_def)

lemma log_msg_lines:
  "stdout_lines (log_msg l m e) =
     stdout_lines e @ (case logger_instance e of
       None \<Rightarrow> []
     | Some lg \<Rightarrow> if level_rank l < level_rank (minLevel lg) then []
                  else [''['' @ stamp_clock e (stamp_reads e) @ '']['' @ level_string l @ ''] '' @ m])"
  by (simp add: log_msg_def log_write_def Let_def split: option.split)

text \<open>A concrete environment, for evaluating examples.\<close>

definition env_demo :: env where
  "env_demo = \<lparr>ms_clock = of_nat, ms_reads = 0, ns_clock = of_nat, ns_reads = 0, stamp_clock = (\<lambda>_. []),
     stamp_reads = 0, local_time = (\<lambda>_. []), send_oracle = (\<lambda>_. (0, 0)), send_calls = [],
     logger_instance = None, stdout_lines = [], file_lines = [], stderr_lines = [], sleeps = []\<rparr>"

end
