(* ===== verification/Rate_Smoother.thy ===== *)
theory Rate_Smoother
  imports Ens_Prelude "HOL-Library.Log_Nat"
begin

text \<open>
  \<^verbatim>\<open>WindowedEwmaRateSmoother\<close> (telemetry/WindowedEwmaRateSmoother, telemetry/RateTypes): a counter is turned into
  a rate per second once per window and smoothed exponentially. The code computes in \<^verbatim>\<open>double\<close>: a double is
  the rational number it stands for and \<open>fl\<close> is the rounding to the nearest double (53 bits, ties to
  even, gradual underflow) after each operation. Overflow to infinity is not modelled: the values
  stay far below \<open>2^1024\<close>.
\<close>

section \<open>Double arithmetic\<close>

definition round_half_even :: "rat \<Rightarrow> int" where
  "round_half_even x =
     (let n = \<lfloor>x\<rfloor>; r = x - of_int n
      in if r < 1 / 2 then n else if r > 1 / 2 then n + 1 else if even n then n else n + 1)"

text \<open>The binary exponent of a positive number.\<close>

definition lg :: "rat \<Rightarrow> int" where
  "lg x = (if x \<ge> 1 then int (floorlog 2 (nat \<lfloor>x\<rfloor>)) - 1 else - int (floorlog 2 (nat (\<lceil>1 / x\<rceil> - 1))))"

definition fl :: "rat \<Rightarrow> rat" where
  "fl x =
     (if x = 0 then 0
      else let e = max (lg \<bar>x\<bar> - 52) (-1074)
           in of_int (round_half_even (x * 2 powi (- e))) * 2 powi e)"

text \<open>\<^verbatim>\<open>std::llround\<close> rounds halves away from zero; out of range it answers as on x86-64.\<close>

definition llround :: "rat \<Rightarrow> int" where
  "llround x =
     (let n = (if x < 0 then - \<lfloor>- x + 1 / 2\<rfloor> else \<lfloor>x + 1 / 2\<rfloor>)
      in if - (2 ^ 63) \<le> n \<and> n < 2 ^ 63 then n else - (2 ^ 63))"

definition double_of :: "u64 \<Rightarrow> rat" where
  "double_of n = fl (of_nat (unat n))"

section \<open>The smoother\<close>

record RateSmootherConfig =
  rs_alpha :: rat
  rs_window_ms :: u64

record RateSnapshot =
  rate_valid :: bool
  raw_per_sec :: u64
  smoothed_per_sec :: u64

record WindowedEwmaRateSmoother =
  ew_config :: RateSmootherConfig
  ew_prev_counter :: u64
  ew_prev_time_ms :: u64
  ew_has_prev :: bool
  ew_smoothed :: rat
  ew_last_snapshot :: RateSnapshot

definition ewma_reset :: "WindowedEwmaRateSmoother \<Rightarrow> WindowedEwmaRateSmoother" where
  "ewma_reset s = s\<lparr>ew_prev_counter := 0, ew_prev_time_ms := 0, ew_has_prev := False, ew_smoothed := 0,
     ew_last_snapshot := \<lparr>rate_valid = False, raw_per_sec = 0, smoothed_per_sec = 0\<rparr>\<rparr>"

definition WindowedEwmaRateSmoother_new :: "RateSmootherConfig \<Rightarrow> WindowedEwmaRateSmoother" where
  "WindowedEwmaRateSmoother_new config =
     ewma_reset \<lparr>ew_config = config, ew_prev_counter = 0, ew_prev_time_ms = 0, ew_has_prev = False, ew_smoothed = 0,
       ew_last_snapshot = \<lparr>rate_valid = False, raw_per_sec = 0, smoothed_per_sec = 0\<rparr>\<rparr>"

definition instant_rate :: "u64 \<Rightarrow> u64 \<Rightarrow> rat" where
  "instant_rate delta_counter delta_time = fl (fl (double_of delta_counter * 1000) / double_of delta_time)"

definition ewma :: "rat \<Rightarrow> rat \<Rightarrow> rat \<Rightarrow> rat" where
  "ewma alpha instant smoothed = fl (fl (alpha * instant) + fl (fl (1 - alpha) * smoothed))"

definition observe :: "u64 \<Rightarrow> u64 \<Rightarrow> WindowedEwmaRateSmoother \<Rightarrow> WindowedEwmaRateSmoother" where
  "observe counter now_ms s =
     (if \<not> ew_has_prev s then
        s\<lparr>ew_prev_counter := counter, ew_prev_time_ms := now_ms, ew_has_prev := True\<rparr>
      else if counter < ew_prev_counter s then
        (ewma_reset s)\<lparr>ew_prev_counter := counter, ew_prev_time_ms := now_ms, ew_has_prev := True\<rparr>
      else
        let delta_time = now_ms - ew_prev_time_ms s in
        if delta_time = 0 then s
        else if delta_time < rs_window_ms (ew_config s) then s
        else
          let delta_counter = counter - ew_prev_counter s;
              instant = instant_rate delta_counter delta_time;
              raw = of_int (llround instant);
              smoothed = (if \<not> rate_valid (ew_last_snapshot s) then instant
                          else ewma (rs_alpha (ew_config s)) instant (ew_smoothed s))
          in s\<lparr>ew_smoothed := smoothed,
               ew_last_snapshot := \<lparr>rate_valid = True, raw_per_sec = raw, smoothed_per_sec = of_int (llround smoothed)\<rparr>,
               ew_prev_counter := counter, ew_prev_time_ms := now_ms\<rparr>)"

section \<open>Rounding\<close>

lemma round_half_even_error: "\<bar>of_int (round_half_even x) - x\<bar> \<le> 1 / 2"
proof -
  have "of_int \<lfloor>x\<rfloor> \<le> x" "x < of_int \<lfloor>x\<rfloor> + 1" by linarith+
  then show ?thesis by (auto simp: round_half_even_def Let_def)
qed

lemma round_half_even_of_int [simp]: "round_half_even (of_int n) = n"
  by (simp add: round_half_even_def Let_def)

lemma floorlog_nat_bounds:
  assumes "0 < n"
  shows "2 ^ (floorlog 2 n - 1) \<le> n" and "n < 2 ^ floorlog 2 n" and "0 < floorlog 2 n"
  using floorlog_bounds [of n 2] assms floorlog_eq_zero_iff [of 2 n] by auto

lemma lg_bounds:
  assumes "0 < x"
  shows "2 powi lg x \<le> x \<and> x < 2 powi (lg x + 1)"
proof (cases "x \<ge> 1")
  case True
  let ?n = "nat \<lfloor>x\<rfloor>" and ?k = "floorlog 2 (nat \<lfloor>x\<rfloor>)"
  have n: "0 < ?n" "of_nat ?n \<le> x" "x < of_nat ?n + 1" using True by (simp_all add: le_floor_iff) linarith
  note b = floorlog_nat_bounds [OF n(1)]
  have "(2::rat) ^ (?k - 1) \<le> of_nat ?n" using b(1) by (metis of_nat_le_iff of_nat_numeral of_nat_power)
  moreover have "(of_nat ?n :: rat) + 1 \<le> 2 ^ ?k"
    using b(2) by (metis Suc_leI of_nat_Suc of_nat_le_iff of_nat_numeral of_nat_power add.commute)
  moreover have "2 powi lg x = (2::rat) ^ (?k - 1)" "2 powi (lg x + 1) = (2::rat) ^ ?k"
    using True b(3) by (simp_all add: lg_def power_int_def nat_diff_distrib)
  ultimately show ?thesis using n(2,3) by linarith
next
  case False
  let ?y = "1 / x" and ?n = "nat (\<lceil>1 / x\<rceil> - 1)" and ?k = "floorlog 2 (nat (\<lceil>1 / x\<rceil> - 1))"
  have y: "1 < ?y" using False assms by simp
  then have c: "2 \<le> \<lceil>?y\<rceil>" by linarith
  then have n: "0 < ?n" "of_nat ?n < ?y" "?y \<le> of_nat ?n + 1" by (simp_all, linarith+)
  note b = floorlog_nat_bounds [OF n(1)]
  have lo: "(2::rat) ^ (?k - 1) \<le> of_nat ?n" using b(1) by (metis of_nat_le_iff of_nat_numeral of_nat_power)
  have hi: "(of_nat ?n :: rat) + 1 \<le> 2 ^ ?k"
    using b(2) by (metis Suc_leI of_nat_Suc of_nat_le_iff of_nat_numeral of_nat_power add.commute)
  have "?y \<le> 2 ^ ?k" "2 ^ (?k - 1) < ?y" using n lo hi by linarith+
  then have "1 / 2 ^ ?k \<le> x" "x < 1 / 2 ^ (?k - 1)"
    using assms by (simp_all add: field_simps)
  moreover have "2 powi lg x = 1 / (2::rat) ^ ?k"
    using False by (simp add: lg_def power_int_minus divide_inverse)
  moreover have "lg x + 1 = - int (?k - 1)" using False b(3) by (simp add: lg_def)
  then have "2 powi (lg x + 1) = 1 / (2::rat) ^ (?k - 1)"
    by (simp only: power_int_minus) (simp add: divide_inverse)
  ultimately show ?thesis by simp
qed

lemma lg_le: "0 < x \<Longrightarrow> x < 2 powi k \<Longrightarrow> lg x < k"
  using lg_bounds [of x] power_int_strict_increasing [of k "lg x" "2::rat"]
    power_int_increasing [of k "lg x" "2::rat"] by (meson leI le_less_trans less_irrefl one_le_numeral order_trans)

lemma powi_split: "(2::rat) powi (a + b) = 2 powi a * 2 powi b"
  by (simp add: power_int_add)

text \<open>Numbers with at most 53 significant bits are doubles.\<close>

lemma fl_exact:
  assumes "\<bar>m\<bar> < 2 ^ 53" and "j \<ge> -1074"
  shows "fl (of_int m * 2 powi j) = of_int m * 2 powi j"
proof (cases "m = 0")
  case False
  let ?x = "of_int m * 2 powi j :: rat"
  define e where "e = max (lg \<bar>?x\<bar> - 52) (-1074)"
  have pos: "0 < \<bar>?x\<bar>" using False by simp
  have "\<bar>?x\<bar> = of_int \<bar>m\<bar> * 2 powi j" by (simp add: abs_mult)
  also have "\<dots> < 2 ^ 53 * 2 powi j"
    using assms(1) by (simp only: mult_less_cancel_right_pos zero_less_power_int zero_less_numeral of_int_less_numeral_power_cancel_iff)
  also have "\<dots> = 2 powi (53 + j)" by (simp add: powi_split)
  finally have "lg \<bar>?x\<bar> < 53 + j" using lg_le [OF pos] by blast
  then have "e \<le> j" using assms(2) by (simp add: e_def)
  then have "2 powi (j - e) = (of_int (2 ^ nat (j - e)) :: rat)" by (simp add: power_int_def)
  then have "?x * 2 powi (- e) = of_int (m * 2 ^ nat (j - e))"
    using powi_split [of j "- e"] by simp
  then have "round_half_even (?x * 2 powi (- e)) = m * 2 ^ nat (j - e)" by (simp only: round_half_even_of_int)
  then have "fl ?x = of_int (m * 2 ^ nat (j - e)) * 2 powi e"
    using pos by (simp add: fl_def e_def [symmetric] Let_def)
  also have "\<dots> = of_int m * (2 powi (j - e) * 2 powi e)"
    using \<open>2 powi (j - e) = of_int (2 ^ nat (j - e))\<close> by simp
  also have "\<dots> = ?x" using powi_split [of "j - e" e] by simp
  finally show ?thesis .
qed (simp add: fl_def)

lemma fl_of_nat: "n < 2 ^ 53 \<Longrightarrow> fl (of_nat n) = of_nat n"
  using fl_exact [of "int n" 0] by simp

text \<open>The rounding error: half a unit in the last place, relative to the value unless it is subnormal.\<close>

lemma fl_ulp:
  assumes "0 < x"
  shows "\<bar>fl x - x\<bar> \<le> 2 powi (max (lg x - 53) (-1075))"
proof -
  define e where "e = max (lg x - 52) (-1074)"
  let ?m = "round_half_even (x * 2 powi (- e))"
  have "fl x = of_int ?m * 2 powi e" using assms by (simp add: fl_def e_def Let_def)
  moreover have "x = (x * 2 powi (- e)) * 2 powi e" using powi_split [of "- e" e] by simp
  ultimately have "fl x - x = (of_int ?m - x * 2 powi (- e)) * 2 powi e" by (metis left_diff_distrib)
  then have "\<bar>fl x - x\<bar> = \<bar>of_int ?m - x * 2 powi (- e)\<bar> * 2 powi e" by (simp add: abs_mult)
  also have "\<dots> \<le> 1 / 2 * 2 powi e" by (intro mult_right_mono round_half_even_error) simp
  also have "\<dots> = 2 powi (e - 1)" by (simp add: power_int_diff)
  also have "e - 1 = max (lg x - 53) (-1075)" by (simp add: e_def)
  finally show ?thesis .
qed

lemma ulp_relative:
  assumes "0 < x"
  shows "2 powi (lg x - 53) \<le> x / 2 ^ 53"
proof -
  have "2 powi (lg x - 53) = 2 powi lg x / (2::rat) powi 53" by (rule power_int_diff) simp
  also have "(2::rat) powi 53 = 2 ^ 53" by (rule power_int_numeral)
  also have "2 powi lg x / 2 ^ 53 \<le> x / 2 ^ 53"
    using lg_bounds [OF assms] by (intro divide_right_mono) simp_all
  finally show ?thesis .
qed

lemma fl_error:
  assumes "0 \<le> x"
  shows "\<bar>fl x - x\<bar> \<le> x / 2 ^ 53 + 2 powi (-1075)"
proof (cases "x = 0")
  case False
  then have pos: "0 < x" using assms by simp
  have "2 powi (max (lg x - 53) (-1075)) \<le> x / 2 ^ 53 + (2::rat) powi (-1075)"
  proof (cases "lg x - 53 \<ge> -1075")
    case True
    then have "max (lg x - 53) (-1075) = lg x - 53" by simp
    then show ?thesis using ulp_relative [OF pos] zero_less_power_int [of "2::rat" "-1075"] by simp
  next
    case False
    then have "max (lg x - 53) (-1075) = -1075" by simp
    then show ?thesis using pos by simp
  qed
  then show ?thesis using fl_ulp [OF pos] by linarith
qed (simp add: fl_def)

lemma fl_error_normal:
  assumes "2 powi (-1022) \<le> x"
  shows "\<bar>fl x - x\<bar> \<le> x / 2 ^ 53"
proof -
  have pos: "0 < x" using assms zero_less_power_int [of "2::rat" "-1022"] by linarith
  have "\<not> lg x < -1022"
  proof
    assume "lg x < -1022"
    then have "2 powi (lg x + 1) \<le> (2::rat) powi (-1022)" by (intro power_int_increasing) simp_all
    then show False using lg_bounds [OF pos] assms by linarith
  qed
  then have "max (lg x - 53) (-1075) = lg x - 53" by simp
  then show ?thesis using fl_ulp [OF pos] ulp_relative [OF pos] by simp
qed

lemma fl_nonneg: "0 \<le> x \<Longrightarrow> 0 \<le> fl x"
proof -
  have "0 \<le> round_half_even y" if "0 \<le> y" for y
    using that by (simp add: round_half_even_def Let_def)
  then show "0 \<le> x \<Longrightarrow> 0 \<le> fl x" by (simp add: fl_def Let_def)
qed

lemma fl_idem:
  assumes "0 \<le> x"
  shows "fl (fl x) = fl x"
proof (cases "x = 0")
  case False
  then have pos: "0 < x" using assms by simp
  define e where "e = max (lg x - 52) (-1074)"
  define m where "m = round_half_even (x * 2 powi (- e))"
  have fx: "fl x = of_int m * 2 powi e" using pos by (simp add: fl_def e_def m_def Let_def)
  have "lg x + 1 \<le> e + 53" by (simp add: e_def)
  then have "2 powi (lg x + 1) \<le> (2::rat) powi (e + 53)" by (intro power_int_increasing) simp_all
  then have "x < 2 powi (e + 53)" using lg_bounds [OF pos] by linarith
  then have "x * 2 powi (- e) < 2 powi (e + 53) * 2 powi (- e)" by (intro mult_strict_right_mono) simp_all
  also have "\<dots> = 2 ^ 53" using powi_split [of "e + 53" "- e"] by (simp add: power_int_numeral)
  finally have "\<lfloor>x * 2 powi (- e)\<rfloor> < 2 ^ 53" by (simp add: floor_less_iff)
  moreover have "0 \<le> \<lfloor>x * 2 powi (- e)\<rfloor>" using assms by simp
  ultimately have m: "0 \<le> m" "m \<le> 2 ^ 53" by (simp_all add: m_def round_half_even_def Let_def)
  show ?thesis
  proof (cases "m = 2 ^ 53")
    case True
    then have "fl x = of_int 1 * 2 powi (e + 53)" using fx powi_split [of 53 e] by (simp add: power_int_numeral add.commute)
    then show ?thesis using fl_exact [of 1 "e + 53"] by (simp add: e_def)
  next
    case False
    then show ?thesis unfolding fx using m by (intro fl_exact) (simp_all add: e_def)
  qed
qed (simp add: fl_def)

section \<open>Rates\<close>

text \<open>A quotient of integers below \<open>2^52\<close> is rounded to the right integer although it is first rounded to a double.\<close>

lemma fl_quotient_nearest:
  assumes "a < 2 ^ 52" and "0 < d" and "d < 2 ^ 53"
  shows "\<lfloor>fl (of_nat a / of_nat d) + 1 / 2\<rfloor> = int ((2 * a + d) div (2 * d))"
proof -
  let ?q = "of_nat a / of_nat d :: rat"
  define k where "k = (2 * a + d) div (2 * d)"
  have d: "0 < (of_nat d :: rat)" using assms(2) by simp
  define r where "r = (2 * a + d) mod (2 * d)"
  have split: "2 * a + d = 2 * d * k + r" and r: "r < 2 * d" using assms(2) by (simp_all add: r_def k_def)
  have "(of_nat (2 * a + d) :: rat) = of_nat (2 * d * k + r)" using split by simp
  then have q: "?q = of_nat k - 1 / 2 + of_nat r / (2 * of_nat d)" using d by (simp add: field_simps)
  have err: "\<bar>fl ?q - ?q\<bar> \<le> ?q / 2 ^ 53"
  proof (cases "a = 0")
    case False
    have "(2::rat) powi (-1022) \<le> 2 powi (-53)" by (intro power_int_increasing) simp_all
    also have "\<dots> = 1 / 2 ^ 53" by (simp only: power_int_minus power_int_numeral divide_inverse mult_1)
    also have "\<dots> \<le> 1 / of_nat d"
      using assms(3) d by (intro divide_left_mono) (metis of_nat_le_numeral_power_cancel_iff less_imp_le, simp_all)
    also have "\<dots> \<le> ?q" using False d by (intro divide_right_mono) simp_all
    finally show ?thesis by (rule fl_error_normal)
  qed (simp add: fl_def)
  also have "?q / 2 ^ 53 < 1 / (2 * of_nat d)"
  proof -
    have "(of_nat a :: rat) < 2 ^ 52" using assms(1) by (metis of_nat_less_numeral_power_cancel_iff)
    then have "of_nat a / 2 ^ 53 < (1 :: rat) / 2" by simp
    then have "of_nat a / 2 ^ 53 / of_nat d < 1 / 2 / (of_nat d :: rat)" using d by (rule divide_strict_right_mono)
    then show ?thesis by (simp add: field_simps)
  qed
  finally have close: "\<bar>fl ?q - ?q\<bar> < 1 / (2 * of_nat d)" .
  have "of_nat k - 1 / 2 \<le> fl ?q"
  proof (cases "r = 0")
    case True
    then have half: "?q = of_int (2 * int k - 1) * 2 powi (-1)" using q by (simp add: field_simps)
    have "d * (2 * k - 1) = 2 * a" using split True by (simp add: right_diff_distrib')
    moreover have "1 * (2 * k - 1) \<le> d * (2 * k - 1)" using assms(2) by (intro mult_le_mono1) simp
    ultimately have "2 * k - 1 \<le> 2 * a" by (simp only: mult_1)
    also have "2 * a < 2 ^ 53" using assms(1) by simp
    finally have "2 * k - 1 < 2 ^ 53" .
    moreover have "0 < k" using split True assms(2) by (metis gr0I add_is_0 mult_0_right less_irrefl)
    ultimately have "\<bar>2 * int k - 1\<bar> < 2 ^ 53" by (cases k) simp_all
    then have "fl ?q = ?q" unfolding half by (intro fl_exact) (assumption, simp)
    then show ?thesis using q True by simp
  next
    case False
    then have "1 / (2 * of_nat d) \<le> of_nat r / (2 * (of_nat d :: rat))" using d by (intro divide_right_mono) simp_all
    then show ?thesis using q close by linarith
  qed
  moreover have "fl ?q < of_nat k + 1 / 2"
  proof -
    have "of_nat r + 1 \<le> (2 * of_nat d :: rat)" using r by (metis Suc_leI of_nat_Suc of_nat_le_iff of_nat_mult of_nat_numeral add.commute)
    then have "(of_nat r + 1) / (2 * of_nat d) \<le> (1::rat)" using d by simp
    then have "of_nat r / (2 * of_nat d) + 1 / (2 * of_nat d) \<le> (1::rat)" by (simp add: add_divide_distrib)
    then show ?thesis using q close by linarith
  qed
  ultimately show ?thesis by (simp add: floor_eq_iff k_def [symmetric])
qed

lemma instant_rate_nearest:
  assumes "1000 * unat dc < 2 ^ 52" and "dt \<noteq> 0" and "unat dt < 2 ^ 53"
  shows "llround (instant_rate dc dt) = int ((2000 * unat dc + unat dt) div (2 * unat dt))"
proof -
  let ?k = "(2000 * unat dc + unat dt) div (2 * unat dt)"
  have "0 < unat dt" using assms(2) by (simp add: unat_gt_0)
  have "unat dc < 2 ^ 53" using assms(1) by simp
  then have d: "double_of dc = of_nat (unat dc)" "double_of dt = of_nat (unat dt)"
    unfolding double_of_def using assms(3) by (simp_all only: fl_of_nat)
  have "fl (of_nat (unat dc) * 1000) = of_nat (1000 * unat dc)"
    using fl_of_nat [of "1000 * unat dc"] assms(1) by (simp add: mult.commute)
  then have inst: "instant_rate dc dt = fl (of_nat (1000 * unat dc) / of_nat (unat dt))"
    by (simp add: instant_rate_def d)
  have "\<lfloor>instant_rate dc dt + 1 / 2\<rfloor> = int ?k"
    using fl_quotient_nearest [OF assms(1) \<open>0 < unat dt\<close> assms(3)] by (simp add: inst mult.assoc [symmetric])
  moreover have "0 \<le> instant_rate dc dt" unfolding inst by (intro fl_nonneg divide_nonneg_nonneg of_nat_0_le_iff)
  moreover have "?k < 2 ^ 63"
  proof -
    have "?k \<le> 2000 * unat dc + unat dt" by (rule div_le_dividend)
    moreover have "2000 * unat dc + unat dt < 2 ^ 63" using assms(1,3) by simp
    ultimately show ?thesis by (rule le_less_trans)
  qed
  then have "int ?k < 2 ^ 63" by (metis of_nat_less_numeral_power_cancel_iff)
  ultimately show ?thesis by (simp add: llround_def Let_def)
qed

lemma observe_window:
  assumes "ew_has_prev s" and "ew_prev_counter s \<le> counter" and "now \<noteq> ew_prev_time_ms s"
    and "rs_window_ms (ew_config s) \<le> now - ew_prev_time_ms s"
  defines "i \<equiv> instant_rate (counter - ew_prev_counter s) (now - ew_prev_time_ms s)"
  defines "sm \<equiv> (if rate_valid (ew_last_snapshot s) then ewma (rs_alpha (ew_config s)) i (ew_smoothed s) else i)"
  shows "observe counter now s = s\<lparr>ew_smoothed := sm,
    ew_last_snapshot := \<lparr>rate_valid = True, raw_per_sec = of_int (llround i), smoothed_per_sec = of_int (llround sm)\<rparr>,
    ew_prev_counter := counter, ew_prev_time_ms := now\<rparr>"
  using assms(1-4) by (simp add: observe_def Let_def i_def sm_def not_less)

text \<open>One smoothing step is a weighted mean up to three roundings.\<close>

lemma weighted_mean_rounded:
  fixes a i s b p q r u h :: rat
  assumes "0 \<le> u" "u \<le> 1 / 2" "0 \<le> h" "0 \<le> a" "a \<le> 1" "0 \<le> i" "0 \<le> s" "0 \<le> b"
    and p: "\<bar>p - a * i\<bar> \<le> a * i * u + h" and b: "\<bar>b - (1 - a)\<bar> \<le> (1 - a) * u"
    and q: "\<bar>q - b * s\<bar> \<le> b * s * u + h" and r: "\<bar>r - (p + q)\<bar> \<le> (p + q) * u + h"
  shows "r \<le> (1 + u) ^ 3 * max i s + 4 * h" and "(1 - u) ^ 3 * min i s - 4 * h \<le> r"
proof -
  let ?M = "max i s" and ?m = "min i s"
  have ai: "a * ?m \<le> a * i" "a * i \<le> a * ?M" using assms by (simp_all add: mult_left_mono)
  have m: "0 \<le> ?m" "0 \<le> ?M" using assms by auto
  have b': "(1 - u) * (1 - a) \<le> b" "b \<le> (1 + u) * (1 - a)" using b by (auto simp: algebra_simps abs_le_iff)
  have "b * s \<le> ((1 + u) * (1 - a)) * ?M" using b'(2) assms(1,5,7,8) by (intro mult_mono) simp_all
  then have bs: "b * s \<le> (1 + u) * ((1 - a) * ?M)" by (simp add: mult.assoc)
  have "((1 - u) * (1 - a)) * ?m \<le> b * s" using b'(1) assms(2,5,8) m by (intro mult_mono) simp_all
  then have bs': "(1 - u) * ((1 - a) * ?m) \<le> b * s" by (simp add: mult.assoc)
  have mono: "x \<le> y \<Longrightarrow> (1 + u) * x \<le> (1 + u) * y" "x \<le> y \<Longrightarrow> (1 - u) * x \<le> (1 - u) * y" for x y
    using assms(1,2) by (simp_all add: mult_left_mono)
  have p': "p \<le> (1 + u) * (a * i) + h" "(1 - u) * (a * i) - h \<le> p" using p by (auto simp: algebra_simps abs_le_iff)
  have q': "q \<le> (1 + u) * (b * s) + h" "(1 - u) * (b * s) - h \<le> q" using q by (auto simp: algebra_simps abs_le_iff)
  have r': "r \<le> (1 + u) * (p + q) + h" "(1 - u) * (p + q) - h \<le> r" using r by (auto simp: algebra_simps abs_le_iff)
  have u: "0 \<le> u * h" "u * h \<le> h / 2" using assms(1-3) mult_right_mono [of u "1 / 2" h] by simp_all
  have aM: "a * ?M \<le> (1 + u) * (a * ?M)" "(1 - u) * (a * ?m) \<le> a * ?m"
    using assms m by (simp_all add: algebra_simps)
  have "p + q \<le> (1 + u) * ((1 + u) * (a * ?M)) + (1 + u) * ((1 + u) * ((1 - a) * ?M)) + 2 * h"
    using p'(1) q'(1) mono(1) [OF ai(2)] mono(1) [OF aM(1)] mono(1) [OF bs] by linarith
  also have "\<dots> = (1 + u) ^ 2 * ?M + 2 * h" by (simp add: algebra_simps power2_eq_square)
  finally have "(1 + u) * (p + q) \<le> (1 + u) * ((1 + u) ^ 2 * ?M + 2 * h)" by (rule mono)
  also have "\<dots> = (1 + u) ^ 3 * ?M + 2 * h + 2 * (u * h)" by (simp add: algebra_simps power3_eq_cube power2_eq_square)
  finally show "r \<le> (1 + u) ^ 3 * max i s + 4 * h" using r'(1) u by linarith
  have "(1 - u) * ((1 - u) * (a * ?m)) + (1 - u) * ((1 - u) * ((1 - a) * ?m)) - 2 * h \<le> p + q"
    using p'(2) q'(2) mono(2) [OF ai(1)] mono(2) [OF aM(2)] mono(2) [OF bs'] by linarith
  moreover have "(1 - u) * ((1 - u) * (a * ?m)) + (1 - u) * ((1 - u) * ((1 - a) * ?m)) - 2 * h = (1 - u) ^ 2 * ?m - 2 * h"
    by (simp add: algebra_simps power2_eq_square)
  ultimately have "(1 - u) * ((1 - u) ^ 2 * ?m - 2 * h) \<le> (1 - u) * (p + q)" by (intro mono) simp
  moreover have "(1 - u) * ((1 - u) ^ 2 * ?m - 2 * h) = (1 - u) ^ 3 * ?m - 2 * h + 2 * (u * h)"
    by (simp add: algebra_simps power3_eq_cube power2_eq_square)
  ultimately show "(1 - u) ^ 3 * min i s - 4 * h \<le> r" using r'(2) u assms(3) by linarith
qed

lemma ewma_bounds:
  assumes alpha: "0 \<le> a" "a = 1 \<or> 1 - a \<ge> 1 / 2 ^ 53" and "0 \<le> i" and "0 \<le> s"
  defines "u \<equiv> 1 / (2::rat) ^ 53" and "h \<equiv> (2::rat) powi (-1075)"
  shows "ewma a i s \<le> (1 + u) ^ 3 * max i s + 4 * h \<and> (1 - u) ^ 3 * min i s - 4 * h \<le> ewma a i s"
proof -
  have "(0::rat) < 1 / 2 ^ 53" by simp
  then have le: "a \<le> 1" using alpha(2) by (elim disjE) linarith+
  have b: "\<bar>fl (1 - a) - (1 - a)\<bar> \<le> (1 - a) * u"
  proof (cases "a = 1")
    case False
    have "(2::rat) powi (-1022) \<le> 2 powi (-53)" by (intro power_int_increasing) simp_all
    also have "\<dots> = 1 / 2 ^ 53" by (simp only: power_int_minus power_int_numeral divide_inverse mult_1)
    also have "\<dots> \<le> 1 - a" using alpha(2) False by blast
    finally show ?thesis using fl_error_normal [of "1 - a"] by (simp only: u_def times_divide_eq_right mult_1_right)
  qed (simp add: fl_def)
  have err: "0 \<le> x \<Longrightarrow> \<bar>fl x - x\<bar> \<le> x * u + h" for x
    using fl_error [of x] by (simp only: u_def h_def times_divide_eq_right mult_1_right)
  have fb: "0 \<le> fl (1 - a)" using le by (intro fl_nonneg) simp
  have nn: "0 \<le> a * i" "0 \<le> fl (1 - a) * s" "0 \<le> fl (a * i) + fl (fl (1 - a) * s)"
    using assms(1,3,4) fb by (simp_all add: fl_nonneg)
  have "0 \<le> u" "u \<le> 1 / 2" "0 \<le> h" by (simp_all add: u_def h_def)
  from weighted_mean_rounded [OF this alpha(1) le assms(3,4) fb err [OF nn(1)] b err [OF nn(2)] err [OF nn(3)]]
  show ?thesis by (simp add: ewma_def)
qed

text \<open>The largest double below 1 is \<open>1 - 2^-53\<close>.\<close>

lemma double_below_one:
  assumes "fl a = a" and "0 < a" and "a < 1"
  shows "1 / 2 ^ 53 \<le> 1 - a"
proof (cases "a < 1 / 2")
  case True
  have "1 / 2 ^ 53 \<le> (1::rat) / 2" by simp
  then show ?thesis using True by linarith
next
  case False
  have "lg a < 0" using lg_le [OF assms(2), of 0] assms(3) by simp
  moreover have "\<not> lg a < -1"
  proof
    assume "lg a < -1"
    then have "2 powi (lg a + 1) \<le> (2::rat) powi (-1)" by (intro power_int_increasing) simp_all
    then show False using lg_bounds [OF assms(2)] False by (simp add: power_int_minus)
  qed
  ultimately have "lg a = -1" by linarith
  then have "fl a = of_int (round_half_even (a * 2 powi 53)) * 2 powi (-53)" using assms(2) by (simp add: fl_def)
  then obtain k where "a = of_int k * 2 powi (-53)" using assms(1) by metis
  then have k: "a = of_int k / 2 ^ 53" by (simp only: power_int_minus power_int_numeral divide_inverse)
  then have "of_int k < (2::rat) ^ 53" using assms(3) by (simp only: divide_less_eq_1_pos zero_less_power zero_less_numeral)
  then have "k < 2 ^ 53" by (metis of_int_less_numeral_power_cancel_iff)
  then have "k + 1 \<le> 2 ^ 53" by linarith
  then have "(of_int k + 1 :: rat) \<le> 2 ^ 53" by (metis of_int_1 of_int_add of_int_le_numeral_power_cancel_iff)
  then have "(of_int k + 1 :: rat) / 2 ^ 53 \<le> 1" by (simp only: divide_le_eq_1_pos zero_less_power zero_less_numeral)
  then show ?thesis unfolding k by (simp only: add_divide_distrib)
qed

section \<open>Properties\<close>

text \<open>
  \<^bold>\<open>C28\<close> The reported rate is the true rate rounded to the nearest integer: when a window of \<open>dt\<close>
  milliseconds closes in which the counter grew by \<open>dc\<close>, the raw rate is \<open>1000 dc / dt\<close> with halves rounded
  up, although it is computed in doubles, as long as \<open>1000 dc < 2^52\<close> and \<open>dt < 2^53\<close>; the first window's
  smoothed rate is the raw one, and the next window starts where this one ended.
\<close>

theorem raw_rate_nearest:
  assumes "ew_has_prev s" and "ew_prev_counter s \<le> counter" and "now \<noteq> ew_prev_time_ms s"
    and "rs_window_ms (ew_config s) \<le> now - ew_prev_time_ms s"
    and "dc = unat (counter - ew_prev_counter s)" and "dt = unat (now - ew_prev_time_ms s)"
    and "1000 * dc < 2 ^ 52" and "dt < 2 ^ 53"
  shows "rate_valid (ew_last_snapshot (observe counter now s)) \<and>
    unat (raw_per_sec (ew_last_snapshot (observe counter now s))) = (2000 * dc + dt) div (2 * dt) \<and>
    (\<not> rate_valid (ew_last_snapshot s) \<longrightarrow>
       smoothed_per_sec (ew_last_snapshot (observe counter now s)) = raw_per_sec (ew_last_snapshot (observe counter now s))) \<and>
    ew_prev_counter (observe counter now s) = counter \<and> ew_prev_time_ms (observe counter now s) = now"
proof -
  let ?k = "(2000 * dc + dt) div (2 * dt)"
  have "?k \<le> 2000 * dc + dt" by (rule div_le_dividend)
  also have "\<dots> < 2 ^ 64" using assms(7,8) by simp
  finally have "unat (of_int (int ?k) :: u64) = ?k" by (simp add: unat_of_nat_id)
  moreover have "llround (instant_rate (counter - ew_prev_counter s) (now - ew_prev_time_ms s)) = int ?k"
    using instant_rate_nearest [of "counter - ew_prev_counter s" "now - ew_prev_time_ms s"] assms(3,5-8) by simp
  ultimately show ?thesis using observe_window [OF assms(1-4)] by simp
qed

definition ewma_demo :: WindowedEwmaRateSmoother where
  "ewma_demo = (WindowedEwmaRateSmoother_new \<lparr>rs_alpha = 1 / 4, rs_window_ms = 1000\<rparr>)
     \<lparr>ew_prev_counter := 5, ew_prev_time_ms := 1000, ew_has_prev := True\<rparr>"

theorem raw_rate_nearest_witness:
  "unat (raw_per_sec (ew_last_snapshot (observe 8 3000 ewma_demo))) = 2"
  using raw_rate_nearest [of ewma_demo 8 3000 3 2000]
  by (simp add: ewma_demo_def WindowedEwmaRateSmoother_new_def ewma_reset_def)

text \<open>
  \<^bold>\<open>C29\<close> Smoothing is a weighted mean: once a rate is known and the weight \<open>alpha\<close> is a double in \<open>(0, 1]\<close>,
  as the configuration requires, the smoothed value lies between the new rate and the old smoothed value up
  to three roundings to double and underflow.
\<close>

theorem smoothing_stays_between:
  assumes "ew_has_prev s" and "ew_prev_counter s \<le> counter" and "now \<noteq> ew_prev_time_ms s"
    and "rs_window_ms (ew_config s) \<le> now - ew_prev_time_ms s" and "rate_valid (ew_last_snapshot s)"
    and "0 \<le> ew_smoothed s"
    and "0 < rs_alpha (ew_config s)" and "rs_alpha (ew_config s) \<le> 1" and "fl (rs_alpha (ew_config s)) = rs_alpha (ew_config s)"
    and "i = instant_rate (counter - ew_prev_counter s) (now - ew_prev_time_ms s)"
  shows "ew_smoothed (observe counter now s) \<le> (1 + 1 / 2 ^ 53) ^ 3 * max i (ew_smoothed s) + 4 * 2 powi (-1075) \<and>
    (1 - 1 / 2 ^ 53) ^ 3 * min i (ew_smoothed s) - 4 * 2 powi (-1075) \<le> ew_smoothed (observe counter now s) \<and>
    smoothed_per_sec (ew_last_snapshot (observe counter now s)) = of_int (llround (ew_smoothed (observe counter now s)))"
proof -
  let ?a = "rs_alpha (ew_config s)"
  have "?a = 1 \<or> 1 / 2 ^ 53 \<le> 1 - ?a"
    using double_below_one [OF assms(9,7)] assms(8) by (cases "?a = 1") simp_all
  moreover have "0 \<le> i" unfolding assms(10) instant_rate_def double_of_def
    by (intro fl_nonneg divide_nonneg_nonneg mult_nonneg_nonneg of_nat_0_le_iff zero_le_numeral)
  ultimately show ?thesis
    using ewma_bounds [of ?a i "ew_smoothed s"] assms(5-7) observe_window [OF assms(1-4)]
    by (simp only: assms(10) less_imp_le) simp
qed

theorem smoothing_stays_between_witness:
  "let s = ewma_demo\<lparr>ew_smoothed := 4, ew_last_snapshot := \<lparr>rate_valid = True, raw_per_sec = 4, smoothed_per_sec = 4\<rparr>\<rparr>
   in ew_smoothed (observe 8 3000 s) \<le> (1 + 1 / 2 ^ 53) ^ 3 * max (instant_rate 3 2000) 4 + 4 * 2 powi (-1075)"
proof -
  have "fl (1 / 4) = 1 / 4" using fl_exact [of 1 "-2"] by (simp add: power_int_minus)
  then show ?thesis
    using smoothing_stays_between [of "ewma_demo\<lparr>ew_smoothed := 4,
        ew_last_snapshot := \<lparr>rate_valid = True, raw_per_sec = 4, smoothed_per_sec = 4\<rparr>\<rparr>" 8 3000 "instant_rate 3 2000"]
    unfolding Let_def
    by (simp add: ewma_demo_def WindowedEwmaRateSmoother_new_def ewma_reset_def)
qed

end
