(* ===== verification/Config_Loader.thy ===== *)
theory Config_Loader
  imports Runtime_Env Rate_Smoother
begin

text \<open>
  \<^verbatim>\<open>ConfigLoader\<close> (core/Config): the search for the configuration file from the working directory upwards, the
  reading of the settings with their defaults, and the checks on them. The JSON library is not part of
  the repository: it is the parameter \<open>api\<close>, a record of the library calls the code makes, of which only what
  a property states is assumed. The working directory and the readable files are answers of the
  operating system. A directory is the list of its components, so the root is the empty list.
\<close>

section \<open>Configuration\<close>

record LogConfig =
  lc_level :: string
  lc_file :: string

record DaemonConfig =
  dc_tick_ms :: u32

record UdpConfig =
  uc_enabled :: bool
  uc_port :: int

record RateConfig =
  rc_alpha :: rat
  rc_window_ms :: u64

record Config =
  cfg_log :: LogConfig
  cfg_daemon :: DaemonConfig
  cfg_udp :: UdpConfig
  cfg_rate :: RateConfig

definition toSmootherConfig :: "RateConfig \<Rightarrow> RateSmootherConfig" where
  "toSmootherConfig cfg = \<lparr>rs_alpha = rc_alpha cfg, rs_window_ms = rc_window_ms cfg\<rparr>"

section \<open>The calls to the JSON library\<close>

text \<open>\<open>ja_parse\<close> gives the text of a parse error, another exception of the library (a number out of range) or the
  value; \<open>ja_find\<close> looks a key up in an object (and
  finds nothing in other values); the \<open>ja_get\<close> calls convert, or raise on a value of another kind.\<close>

datatype json_failure = ParseFailure string | OtherFailure exn

record 'j json_api =
  ja_parse :: "string \<Rightarrow> json_failure + 'j"
  ja_find :: "'j \<Rightarrow> string \<Rightarrow> 'j option"
  ja_is_object :: "'j \<Rightarrow> bool"
  ja_is_number :: "'j \<Rightarrow> bool"
  ja_get_string :: "'j \<Rightarrow> exn + string"
  ja_get_bool :: "'j \<Rightarrow> exn + bool"
  ja_get_int :: "'j \<Rightarrow> exn + int"
  ja_get_u64 :: "'j \<Rightarrow> exn + u64"
  ja_get_double :: "'j \<Rightarrow> exn + rat"

fun try_bind :: "exn + 'a \<Rightarrow> ('a \<Rightarrow> exn + 'b) \<Rightarrow> exn + 'b" where
  "try_bind (Inl ex) f = Inl ex"
| "try_bind (Inr x) f = f x"

text \<open>The section of a key: \<open>None\<close> is the empty object.\<close>

definition objectOrEmpty :: "'j json_api \<Rightarrow> 'j \<Rightarrow> string \<Rightarrow> 'j option" where
  "objectOrEmpty api parent key =
     (case ja_find api parent key of
        Some v \<Rightarrow> if ja_is_object api v then Some v else None
      | None \<Rightarrow> None)"

definition find_in :: "'j json_api \<Rightarrow> 'j option \<Rightarrow> string \<Rightarrow> 'j option" where
  "find_in api section key = (case section of None \<Rightarrow> None | Some v \<Rightarrow> ja_find api v key)"

definition value_or :: "'j json_api \<Rightarrow> ('j \<Rightarrow> exn + 'a) \<Rightarrow> 'j option \<Rightarrow> string \<Rightarrow> 'a \<Rightarrow> exn + 'a" where
  "value_or api get section key fallback =
     (case find_in api section key of None \<Rightarrow> Inr fallback | Some v \<Rightarrow> get v)"

definition read_settings :: "'j json_api \<Rightarrow> 'j \<Rightarrow> exn + Config" where
  "read_settings api j =
     (let logJson = objectOrEmpty api j ''log'';
          daemonJson = objectOrEmpty api j ''daemon'';
          udpJson = objectOrEmpty api j ''udp'';
          rateJson = objectOrEmpty api j ''rate'' in
      try_bind (value_or api (ja_get_string api) logJson ''level'' ''info'') (\<lambda>level.
      try_bind (value_or api (ja_get_string api) logJson ''file'' ''edgenetswitch.log'') (\<lambda>file.
      try_bind (value_or api (ja_get_int api) daemonJson ''tick_ms'' 100) (\<lambda>tick_ms.
      try_bind (value_or api (ja_get_bool api) udpJson ''enabled'' False) (\<lambda>enabled.
      try_bind (value_or api (ja_get_int api) udpJson ''port'' 9000) (\<lambda>port.
      try_bind (value_or api (ja_get_double api) rateJson ''alpha'' (fl (1 / 5))) (\<lambda>alpha.
      try_bind (value_or api (ja_get_u64 api) rateJson ''window_ms'' 1000) (\<lambda>window_ms.
        if alpha \<le> 0 \<or> alpha > 1 then Inl (RuntimeError ''rate.alpha must be in (0,1]'')
        else if window_ms = 0 then Inl (RuntimeError ''rate.window_ms must be > 0'')
        else if (case find_in api rateJson ''alpha'' of Some v \<Rightarrow> \<not> ja_is_number api v | None \<Rightarrow> False)
        then Inl (RuntimeError ''rate.alpha must be a number'')
        else Inr \<lparr>cfg_log = \<lparr>lc_level = level, lc_file = file\<rparr>, cfg_daemon = \<lparr>dc_tick_ms = of_int tick_ms\<rparr>,
                  cfg_udp = \<lparr>uc_enabled = enabled, uc_port = port\<rparr>,
                  cfg_rate = \<lparr>rc_alpha = alpha, rc_window_ms = window_ms\<rparr>\<rparr>))))))))"

section \<open>Finding the file\<close>

definition dir_string :: "string list \<Rightarrow> string" where
  "dir_string dir = (if dir = [] then ''/'' else concat (map (\<lambda>c. CHR ''/'' # c) dir) @ ''/'')"

fun candidates_up :: "string \<Rightarrow> string list \<Rightarrow> string list" where
  "candidates_up requested dir =
     (dir_string dir @ requested) # (if dir = [] then [] else candidates_up requested (butlast dir))"

declare candidates_up.simps [simp del]

definition is_absolute :: "string \<Rightarrow> bool" where
  "is_absolute path = prefix ''/'' path"

definition candidates :: "string + string list \<Rightarrow> string \<Rightarrow> exn + string list" where
  "candidates cwd path =
     (if is_absolute path then Inr [path]
      else case cwd of
        Inl message \<Rightarrow> Inl (RuntimeError (''Failed to determine current working directory: '' @ message))
      | Inr dir \<Rightarrow> Inr (candidates_up path dir))"

fun open_first :: "(string \<rightharpoonup> string) \<Rightarrow> string list \<Rightarrow> (string \<times> string) option" where
  "open_first files [] = None"
| "open_first files (candidate # rest) =
     (case files candidate of Some content \<Rightarrow> Some (candidate, content) | None \<Rightarrow> open_first files rest)"

definition not_found_message :: "string \<Rightarrow> string list \<Rightarrow> string" where
  "not_found_message path cs =
     ''Failed to open config file: '' @ path @
       (if cs = [] then [] else '' (searched:'' @ concat (map (\<lambda>c. CHR '' '' # c) cs) @ '')'')"

definition loaded_line :: "string \<Rightarrow> string" where
  "loaded_line resolvedPath = ''Loaded config: '' @ resolvedPath"

definition loadFromFile ::
  "'j json_api \<Rightarrow> string + string list \<Rightarrow> (string \<rightharpoonup> string) \<Rightarrow> string \<Rightarrow> env \<Rightarrow> (exn + Config) \<times> env" where
  "loadFromFile api cwd files path e =
     (case candidates cwd path of
        Inl ex \<Rightarrow> (Inl ex, e)
      | Inr cs \<Rightarrow>
          case open_first files cs of
            None \<Rightarrow> (Inl (RuntimeError (not_found_message path cs)), e)
          | Some (resolvedPath, content) \<Rightarrow>
              let e = log_info (loaded_line resolvedPath) e in
              case ja_parse api content of
                Inl (ParseFailure what) \<Rightarrow> (Inl (RuntimeError (''Failed to parse config file: '' @ resolvedPath @ '' ('' @ what @ '')'')), e)
              | Inl (OtherFailure ex) \<Rightarrow> (Inl ex, e)
              | Inr j \<Rightarrow> (read_settings api j, e))"

section \<open>Lemmas\<close>

lemma try_bind_Inr: "try_bind m f = Inr y \<longleftrightarrow> (\<exists>x. m = Inr x \<and> f x = Inr y)"
  by (cases m) auto

lemma candidates_up_prefixes:
  "candidates_up requested dir = map (\<lambda>n. dir_string (take n dir) @ requested) (rev [0..<Suc (length dir)])"
proof (induction dir rule: rev_induct)
  case Nil
  show ?case by (subst candidates_up.simps) simp
next
  case (snoc c dir)
  have "candidates_up requested (dir @ [c]) = (dir_string (dir @ [c]) @ requested) # candidates_up requested dir"
    by (subst candidates_up.simps) simp
  also have "\<dots> = (dir_string (dir @ [c]) @ requested) #
      map (\<lambda>n. dir_string (take n (dir @ [c])) @ requested) (rev [0..<Suc (length dir)])"
    by (simp add: snoc.IH)
  finally show ?case by simp
qed

lemma open_first_first:
  "open_first files cs = Some (c, content) \<Longrightarrow>
     \<exists>before after. cs = before @ c # after \<and> (\<forall>x \<in> set before. files x = None) \<and> files c = Some content"
proof (induction cs)
  case (Cons x cs)
  show ?case
  proof (cases "files x")
    case None
    with Cons obtain before after where "cs = before @ c # after" "\<forall>x \<in> set before. files x = None" "files c = Some content"
      by auto
    with None show ?thesis by (intro exI [of _ "x # before"] exI [of _ after]) simp
  next
    case (Some content')
    with Cons show ?thesis by (intro exI [of _ "[]"] exI [of _ cs]) simp
  qed
qed simp

lemma open_first_None: "open_first files cs = None \<longleftrightarrow> (\<forall>x \<in> set cs. files x = None)"
  by (induction cs) (auto split: option.split)

lemma read_settings_valid:
  assumes "\<forall>v x. ja_get_double api v = Inr x \<longrightarrow> fl x = x" and "read_settings api j = Inr cfg"
  shows "0 < rc_alpha (cfg_rate cfg) \<and> rc_alpha (cfg_rate cfg) \<le> 1 \<and> 0 < rc_window_ms (cfg_rate cfg) \<and>
    fl (rc_alpha (cfg_rate cfg)) = rc_alpha (cfg_rate cfg)"
proof -
  have "fl x = x" if "value_or api (ja_get_double api) section key (fl (1 / 5)) = Inr x" for "section" key x
    using that assms(1) fl_idem [of "1 / 5"] by (auto simp: value_or_def split: option.splits)
  with assms(2) show ?thesis
    by (auto simp: read_settings_def Let_def try_bind_Inr word_neq_0_conv split: if_splits)
qed

lemma load_not_found:
  "candidates cwd path = Inr tried \<Longrightarrow> \<forall>c \<in> set tried. files c = None \<Longrightarrow>
     loadFromFile api cwd files path e = (Inl (RuntimeError (not_found_message path tried)), e)"
  using open_first_None [of files tried] by (simp add: loadFromFile_def)

lemma load_found:
  assumes "candidates cwd path = Inr tried" and "loadFromFile api cwd files path e = (Inr cfg, e')"
  shows "\<exists>n content j. n < length tried \<and> (\<forall>i < n. files (tried ! i) = None) \<and> files (tried ! n) = Some content \<and>
    ja_parse api content = Inr j \<and> read_settings api j = Inr cfg \<and> e' = log_info (loaded_line (tried ! n)) e"
proof -
  obtain c content where o: "open_first files tried = Some (c, content)"
    using assms by (auto simp: loadFromFile_def split: option.splits)
  then obtain before after where t: "tried = before @ c # after" "\<forall>x \<in> set before. files x = None" "files c = Some content"
    using open_first_first by metis
  obtain j where "ja_parse api content = Inr j" "read_settings api j = Inr cfg" "e' = log_info (loaded_line c) e"
    using assms o by (auto simp: loadFromFile_def Let_def split: sum.splits json_failure.splits)
  then show ?thesis
    using t by (intro exI [of _ "length before"] exI [of _ content] exI [of _ j]) (auto simp: nth_append)
qed

section \<open>Properties\<close>

text \<open>
  \<^bold>\<open>C26\<close> The configuration found is the nearest one and is usable: for a relative path the files tried are the path
  under the working directory and under each directory above it, in this order; the first that opens is the
  only one read, and when none opens the loader raises an error that names all of them. A configuration
  that is returned has a positive window and a smoothing weight in \<open>(0, 1]\<close> that is a double (given that
  the library converts numbers to doubles), as the rate smoother requires.
\<close>

theorem config_nearest_and_usable:
  assumes "\<not> is_absolute path" and "tried = map (\<lambda>n. dir_string (take n dir) @ path) (rev [0..<Suc (length dir)])"
    and "\<forall>v x. ja_get_double api v = Inr x \<longrightarrow> fl x = x"
    and "loadFromFile api (Inr dir) files path e = (result, e')"
  shows "((\<forall>c \<in> set tried. files c = None) \<longrightarrow> result = Inl (RuntimeError (not_found_message path tried)) \<and> e' = e) \<and>
    (\<forall>cfg. result = Inr cfg \<longrightarrow>
       (\<exists>n content j. n < length tried \<and> (\<forall>i < n. files (tried ! i) = None) \<and> files (tried ! n) = Some content \<and>
          ja_parse api content = Inr j \<and> read_settings api j = Inr cfg \<and> e' = log_info (loaded_line (tried ! n)) e) \<and>
       0 < rs_alpha (toSmootherConfig (cfg_rate cfg)) \<and> rs_alpha (toSmootherConfig (cfg_rate cfg)) \<le> 1 \<and>
       fl (rs_alpha (toSmootherConfig (cfg_rate cfg))) = rs_alpha (toSmootherConfig (cfg_rate cfg)) \<and>
       0 < rs_window_ms (toSmootherConfig (cfg_rate cfg)))"
proof -
  have cs: "candidates (Inr dir) path = Inr tried"
    using assms(1,2) by (simp add: candidates_def candidates_up_prefixes)
  have "\<exists>n content j. n < length tried \<and> (\<forall>i < n. files (tried ! i) = None) \<and> files (tried ! n) = Some content \<and>
      ja_parse api content = Inr j \<and> read_settings api j = Inr cfg \<and> e' = log_info (loaded_line (tried ! n)) e"
    if "result = Inr cfg" for cfg
    using load_found [OF cs] assms(4) that by blast
  then show ?thesis
    using load_not_found [OF cs, of files api e] assms(4) read_settings_valid [OF assms(3)]
    by (auto simp: toSmootherConfig_def)
qed

text \<open>A JSON library for the witness: values with one level of objects, and a parser that knows one text.\<close>

datatype demo_json = DObject "(string \<times> demo_json) list" | DNumber nat | DText string

definition demo_api :: "demo_json json_api" where
  "demo_api =
     \<lparr>ja_parse = (\<lambda>s. if s = ''{rate}'' then Inr (DObject [(''rate'', DObject [(''alpha'', DNumber 1)])]) else Inl (ParseFailure ''syntax error'')),
      ja_find = (\<lambda>j key. case j of DObject kvs \<Rightarrow> map_of kvs key | _ \<Rightarrow> None),
      ja_is_object = (\<lambda>j. case j of DObject _ \<Rightarrow> True | _ \<Rightarrow> False),
      ja_is_number = (\<lambda>j. case j of DNumber _ \<Rightarrow> True | _ \<Rightarrow> False),
      ja_get_string = (\<lambda>j. case j of DText s \<Rightarrow> Inr s | _ \<Rightarrow> Inl (RuntimeError ''type must be string'')),
      ja_get_bool = (\<lambda>j. Inl (RuntimeError ''type must be boolean'')),
      ja_get_int = (\<lambda>j. case j of DNumber n \<Rightarrow> Inr (int n) | _ \<Rightarrow> Inl (RuntimeError ''type must be number'')),
      ja_get_u64 = (\<lambda>j. case j of DNumber n \<Rightarrow> Inr (of_nat n) | _ \<Rightarrow> Inl (RuntimeError ''type must be number'')),
      ja_get_double = (\<lambda>j. case j of DNumber n \<Rightarrow> Inr (fl (of_nat (min n 1))) | _ \<Rightarrow> Inl (RuntimeError ''type must be number''))\<rparr>"

theorem config_nearest_and_usable_witness:
  "\<exists>cfg. fst (loadFromFile demo_api (Inr [''home'', ''build'']) [''/home/c.json'' \<mapsto> ''{rate}''] ''c.json'' env_demo) = Inr cfg \<and>
     rs_alpha (toSmootherConfig (cfg_rate cfg)) \<le> 1"
proof -
  let ?files = "[''/home/c.json'' \<mapsto> ''{rate}'']"
  have one: "fl 0 = 0" "fl 1 = 1" using fl_of_nat [of 1] by (simp_all add: fl_def)
  obtain cfg e' where run: "loadFromFile demo_api (Inr [''home'', ''build'']) ?files ''c.json'' env_demo = (Inr cfg, e')"
    by (simp add: loadFromFile_def candidates_def is_absolute_def candidates_up_prefixes dir_string_def demo_api_def
        read_settings_def objectOrEmpty_def value_or_def find_in_def Let_def one)
  have "\<forall>v x. ja_get_double demo_api v = Inr x \<longrightarrow> fl x = x"
    by (auto simp: demo_api_def fl_idem split: demo_json.splits)
  from config_nearest_and_usable [OF _ refl this run] have "rs_alpha (toSmootherConfig (cfg_rate cfg)) \<le> 1"
    by (simp add: is_absolute_def)
  then show ?thesis using run by auto
qed

end
