(* ===== verification/Packet_Stats.thy ===== *)
theory Packet_Stats
  imports Runtime_Env Packet_Types
begin

text \<open>
  \<^verbatim>\<open>PacketStats\<close> (packet/PacketStats): the counters of the packet pipeline. Each terminal message
  (processed or dropped) of a lifecycle identity counts once; later ones are duplicates. The
  callbacks run under one lock, so each is a single step here. The counters are 64-bit and wrap.
\<close>

section \<open>Definitions\<close>

record PacketStats =
  ps_rx_packets :: u64
  ps_rx_bytes :: u64
  ps_drop_counters :: "(PacketDropReason, u64) hmap"
  ps_ingress_packets :: u64
  ps_processed_packets :: u64
  ps_terminal_events :: u64
  ps_duplicate_events :: u64
  ps_completed_lifecycles :: "u64 set"
  ps_total_processing_latency_ns :: u64
  ps_max_processing_latency_ns :: u64
  ps_latency_samples :: u64
  ps_udp_drain_completions :: u64

definition PacketStats_new :: PacketStats where
  "PacketStats_new = \<lparr>ps_rx_packets = 0, ps_rx_bytes = 0, ps_drop_counters = [], ps_ingress_packets = 0,
     ps_processed_packets = 0, ps_terminal_events = 0, ps_duplicate_events = 0,
     ps_completed_lifecycles = {}, ps_total_processing_latency_ns = 0, ps_max_processing_latency_ns = 0,
     ps_latency_samples = 0, ps_udp_drain_completions = 0\<rparr>"

definition onTerminal :: "u64 \<Rightarrow> PacketStats \<Rightarrow> PacketStats" where
  "onTerminal lifecycle_id s =
     (if lifecycle_id \<in> ps_completed_lifecycles s
      then s\<lparr>ps_duplicate_events := ps_duplicate_events s + 1\<rparr>
      else s\<lparr>ps_completed_lifecycles := insert lifecycle_id (ps_completed_lifecycles s),
             ps_terminal_events := ps_terminal_events s + 1\<rparr>)"

definition record_latency :: "u64 \<Rightarrow> Packet \<Rightarrow> PacketStats \<Rightarrow> PacketStats" where
  "record_latency now_ns p s =
     (if pk_ingress_timestamp_ns p \<noteq> 0 \<and> now_ns \<ge> pk_ingress_timestamp_ns p
      then let latency_ns = now_ns - pk_ingress_timestamp_ns p;
               current_max = ps_max_processing_latency_ns s;
               s = s\<lparr>ps_total_processing_latency_ns := ps_total_processing_latency_ns s + latency_ns,
                     ps_latency_samples := ps_latency_samples s + 1\<rparr>
           in if latency_ns > current_max then s\<lparr>ps_max_processing_latency_ns := latency_ns\<rparr> else s
      else s)"

definition onPacketProcessed :: "Message \<Rightarrow> PacketStats \<times> env \<Rightarrow> exn + PacketStats \<times> env" where
  "onPacketProcessed msg = (\<lambda>(s, e).
     case variant_get (get_if_packet (m_payload msg)) of
       Inl ex \<Rightarrow> Inl ex
     | Inr p \<Rightarrow>
         if pk_lifecycle_id p \<in> ps_completed_lifecycles s
         then Inr (s\<lparr>ps_duplicate_events := ps_duplicate_events s + 1\<rparr>, e)
         else
           let s = s\<lparr>ps_completed_lifecycles := insert (pk_lifecycle_id p) (ps_completed_lifecycles s),
                     ps_rx_packets := ps_rx_packets s + 1,
                     ps_rx_bytes := ps_rx_bytes s + ucast (pk_payload_size p),
                     ps_processed_packets := ps_processed_packets s + 1,
                     ps_terminal_events := ps_terminal_events s + 1\<rparr>;
               (now_ns, e) = nowNs e
           in Inr (record_latency now_ns p s, e))"

definition bump_drop :: "PacketDropReason \<Rightarrow> (PacketDropReason, u64) hmap \<Rightarrow> (PacketDropReason, u64) hmap" where
  "bump_drop reason m = hmap_assign reason ((case map_of m reason of None \<Rightarrow> 0 | Some n \<Rightarrow> n) + 1) m"

definition onPacketDropped :: "Message \<Rightarrow> PacketStats \<times> env \<Rightarrow> exn + PacketStats \<times> env" where
  "onPacketDropped msg = (\<lambda>(s, e).
     case variant_get (get_if_dropped (m_payload msg)) of
       Inl ex \<Rightarrow> Inl ex
     | Inr d \<Rightarrow>
         if pd_lifecycle_id d \<in> ps_completed_lifecycles s
         then Inr (s\<lparr>ps_duplicate_events := ps_duplicate_events s + 1\<rparr>, e)
         else Inr (s\<lparr>ps_completed_lifecycles := insert (pd_lifecycle_id d) (ps_completed_lifecycles s),
                     ps_drop_counters := bump_drop (pd_reason d) (ps_drop_counters s),
                     ps_terminal_events := ps_terminal_events s + 1\<rparr>, e))"

definition onPacketRx :: "Message \<Rightarrow> PacketStats \<times> env \<Rightarrow> exn + PacketStats \<times> env" where
  "onPacketRx msg = (\<lambda>(s, e).
     case get_if_packet (m_payload msg) of
       None \<Rightarrow> Inr (s, e\<lparr>stderr_lines := stderr_lines e @ [''[PacketStats] invalid PacketRx payload'']\<rparr>)
     | Some p \<Rightarrow> Inr (s\<lparr>ps_ingress_packets := ps_ingress_packets s + 1\<rparr>, e))"

definition onIngressIdlePoll :: "Message \<Rightarrow> PacketStats \<times> env \<Rightarrow> exn + PacketStats \<times> env" where
  "onIngressIdlePoll msg = (\<lambda>(s, e).
     Inr (s\<lparr>ps_udp_drain_completions := ps_udp_drain_completions s + 1\<rparr>, e))"

text \<open>What the four subscriptions of the constructor do with a message, by its type.\<close>

definition stats_handle :: "Message \<Rightarrow> PacketStats \<times> env \<Rightarrow> exn + PacketStats \<times> env" where
  "stats_handle msg =
     (case m_type msg of
        T_PacketProcessed \<Rightarrow> onPacketProcessed msg
      | T_PacketDropped \<Rightarrow> onPacketDropped msg
      | T_PacketRx \<Rightarrow> onPacketRx msg
      | T_IngressIdlePoll \<Rightarrow> onIngressIdlePoll msg
      | _ \<Rightarrow> Inr)"

fun stats_run :: "Message list \<Rightarrow> PacketStats \<times> env \<Rightarrow> exn + PacketStats \<times> env" where
  "stats_run [] se = Inr se"
| "stats_run (m # ms) se = (case stats_handle m se of Inl ex \<Rightarrow> Inl ex | Inr se' \<Rightarrow> stats_run ms se')"

subsection \<open>Snapshots\<close>

record PacketMetrics =
  pm_rx_packets :: u64
  pm_rx_bytes :: u64
  pm_rx_packets_per_sec :: u64
  pm_rx_bytes_per_sec :: u64
  pm_drops_by_reason :: "(PacketDropReason, u64) hmap"
  pm_rx_packets_per_sec_raw :: u64
  pm_rx_bytes_per_sec_raw :: u64
  pm_ingress_packets :: u64
  pm_processed_packets :: u64
  pm_processing_gap :: u64
  pm_terminal_events :: u64
  pm_duplicate_events :: u64
  pm_pending_terminal_events :: u64
  pm_total_processing_latency_ns :: u64
  pm_max_processing_latency_ns :: u64
  pm_average_processing_latency_ns :: u64
  pm_latency_samples :: u64
  pm_udp_drain_completions :: u64

type_synonym drop_order = "(PacketDropReason \<times> u64) list \<Rightarrow> (PacketDropReason \<times> u64) list"

definition snapshotAt :: "drop_order \<Rightarrow> PacketStats \<Rightarrow> PacketMetrics" where
  "snapshotAt order s =
     (let ingress_packets = ps_ingress_packets s;
          processed_packets = ps_processed_packets s;
          terminal_events = ps_terminal_events s;
          drop_snapshot = fold (\<lambda>(reason, counter). hmap_assign reason counter) (order (ps_drop_counters s)) [];
          processing_gap = (if ingress_packets \<ge> processed_packets then ingress_packets - processed_packets else 0);
          pending_terminal_events = (if ingress_packets > terminal_events then ingress_packets - terminal_events else 0);
          average_latency = (if ps_latency_samples s \<noteq> 0
                             then ps_total_processing_latency_ns s div ps_latency_samples s else 0)
      in \<lparr>pm_rx_packets = ps_rx_packets s, pm_rx_bytes = ps_rx_bytes s, pm_rx_packets_per_sec = 0,
          pm_rx_bytes_per_sec = 0, pm_drops_by_reason = drop_snapshot, pm_rx_packets_per_sec_raw = 0,
          pm_rx_bytes_per_sec_raw = 0, pm_ingress_packets = ingress_packets,
          pm_processed_packets = processed_packets, pm_processing_gap = processing_gap,
          pm_terminal_events = terminal_events, pm_duplicate_events = ps_duplicate_events s,
          pm_pending_terminal_events = pending_terminal_events,
          pm_total_processing_latency_ns = ps_total_processing_latency_ns s,
          pm_max_processing_latency_ns = ps_max_processing_latency_ns s,
          pm_average_processing_latency_ns = average_latency,
          pm_latency_samples = ps_latency_samples s,
          pm_udp_drain_completions = ps_udp_drain_completions s\<rparr>)"

definition rxPackets :: "PacketStats \<Rightarrow> u64" where
  "rxPackets s = ps_rx_packets s"

definition rxBytes :: "PacketStats \<Rightarrow> u64" where
  "rxBytes s = ps_rx_bytes s"

definition drops :: "drop_order \<Rightarrow> PacketStats \<Rightarrow> u64" where
  "drops order s = fold (\<lambda>(reason, counter) total. total + counter) (order (ps_drop_counters s)) 0"

section \<open>The specification: the first terminal event of each lifecycle\<close>

fun terminal_id :: "Message \<Rightarrow> u64 option" where
  "terminal_id m =
     (case m_type m of
        T_PacketProcessed \<Rightarrow> map_option pk_lifecycle_id (get_if_packet (m_payload m))
      | T_PacketDropped \<Rightarrow> map_option pd_lifecycle_id (get_if_dropped (m_payload m))
      | _ \<Rightarrow> None)"

fun first_terminals :: "u64 set \<Rightarrow> Message list \<Rightarrow> Message list" where
  "first_terminals seen [] = []"
| "first_terminals seen (m # ms) =
     (case terminal_id m of
        None \<Rightarrow> first_terminals seen ms
      | Some i \<Rightarrow> if i \<in> seen then first_terminals seen ms else m # first_terminals (insert i seen) ms)"

definition terminals :: "Message list \<Rightarrow> Message list" where
  "terminals ms = filter (\<lambda>m. terminal_id m \<noteq> None) ms"

definition terminal_ids :: "Message list \<Rightarrow> u64 set" where
  "terminal_ids ms = {i. \<exists>m \<in> set ms. terminal_id m = Some i}"

definition processed_in :: "Message list \<Rightarrow> Message list" where
  "processed_in ms = filter (\<lambda>m. m_type m = T_PacketProcessed) ms"

definition dropped_in :: "PacketDropReason \<Rightarrow> Message list \<Rightarrow> Message list" where
  "dropped_in reason ms =
     filter (\<lambda>m. m_type m = T_PacketDropped \<and> map_option pd_reason (get_if_dropped (m_payload m)) = Some reason) ms"

definition drop_count :: "PacketStats \<Rightarrow> PacketDropReason \<Rightarrow> u64" where
  "drop_count s reason = (case map_of (ps_drop_counters s) reason of None \<Rightarrow> 0 | Some n \<Rightarrow> n)"

definition processed_bytes :: "Message list \<Rightarrow> u64" where
  "processed_bytes ms = sum_list (map (\<lambda>m. case get_if_packet (m_payload m) of
     None \<Rightarrow> 0 | Some p \<Rightarrow> ucast (pk_payload_size p)) (processed_in ms))"

text \<open>The counters of \<open>s'\<close> are those of \<open>s\<close> and the first terminal events \<open>F\<close> (with \<open>d\<close> duplicates).\<close>

definition counts_more :: "Message list \<Rightarrow> nat \<Rightarrow> PacketStats \<Rightarrow> PacketStats \<Rightarrow> bool" where
  "counts_more F d s s' \<longleftrightarrow>
     ps_terminal_events s' = ps_terminal_events s + of_nat (length F) \<and>
     ps_duplicate_events s' = ps_duplicate_events s + of_nat d \<and>
     ps_processed_packets s' = ps_processed_packets s + of_nat (length (processed_in F)) \<and>
     ps_rx_packets s' = ps_rx_packets s + of_nat (length (processed_in F)) \<and>
     ps_rx_bytes s' = ps_rx_bytes s + processed_bytes F \<and>
     (\<forall>r. drop_count s' r = drop_count s r + of_nat (length (dropped_in r F)))"

section \<open>Counting lemmas\<close>

lemma counts_more_refl: "counts_more [] 0 s s"
  by (simp add: counts_more_def processed_in_def dropped_in_def processed_bytes_def)

lemma counts_more_trans:
  "counts_more F d s s' \<Longrightarrow> counts_more G k s' s'' \<Longrightarrow> counts_more (F @ G) (d + k) s s''"
  by (simp add: counts_more_def processed_in_def dropped_in_def processed_bytes_def)

lemma record_latency_frame [frame_simps]:
  "ps_terminal_events (record_latency t p s) = ps_terminal_events s"
  "ps_duplicate_events (record_latency t p s) = ps_duplicate_events s"
  "ps_processed_packets (record_latency t p s) = ps_processed_packets s"
  "ps_rx_packets (record_latency t p s) = ps_rx_packets s"
  "ps_rx_bytes (record_latency t p s) = ps_rx_bytes s"
  "ps_drop_counters (record_latency t p s) = ps_drop_counters s"
  "ps_completed_lifecycles (record_latency t p s) = ps_completed_lifecycles s"
  "ps_ingress_packets (record_latency t p s) = ps_ingress_packets s"
  by (simp_all add: record_latency_def Let_def)

lemma map_of_bump_drop [container_simps]:
  "map_of (bump_drop r m) = (map_of m)(r \<mapsto> (case map_of m r of None \<Rightarrow> 0 | Some n \<Rightarrow> n) + 1)"
  by (simp add: bump_drop_def container_simps)

lemma get_if_packet_typed: "is_P_Packet pl \<Longrightarrow> \<exists>p. get_if_packet pl = Some p"
  by (cases pl) auto

lemma get_if_dropped_typed: "is_P_Dropped pl \<Longrightarrow> \<exists>d. get_if_dropped pl = Some d"
  by (cases pl) auto

lemma stats_processed_step:
  assumes "m_type m = T_PacketProcessed" and "get_if_packet (m_payload m) = Some p"
  shows "\<exists>s' e'. stats_handle m (s, e) = Inr (s', e') \<and>
    ps_ingress_packets s' = ps_ingress_packets s \<and>
    ps_completed_lifecycles s' = insert (pk_lifecycle_id p) (ps_completed_lifecycles s) \<and>
    (if pk_lifecycle_id p \<in> ps_completed_lifecycles s then counts_more [] 1 s s' else counts_more [m] 0 s s')"
  using assms
  by (auto simp: stats_handle_def onPacketProcessed_def variant_get_def Let_def split_beta frame_simps
      counts_more_def processed_in_def dropped_in_def processed_bytes_def drop_count_def insert_absorb)

lemma stats_dropped_step:
  assumes "m_type m = T_PacketDropped" and "get_if_dropped (m_payload m) = Some d"
  shows "\<exists>s' e'. stats_handle m (s, e) = Inr (s', e') \<and>
    ps_ingress_packets s' = ps_ingress_packets s \<and>
    ps_completed_lifecycles s' = insert (pd_lifecycle_id d) (ps_completed_lifecycles s) \<and>
    (if pd_lifecycle_id d \<in> ps_completed_lifecycles s then counts_more [] 1 s s' else counts_more [m] 0 s s')"
  using assms
  by (auto simp: stats_handle_def onPacketDropped_def variant_get_def container_simps
      counts_more_def processed_in_def dropped_in_def processed_bytes_def drop_count_def insert_absorb)

lemma stats_other_step:
  assumes "well_typed m" and "terminal_id m = None"
  shows "\<exists>s' e'. stats_handle m (s, e) = Inr (s', e') \<and>
    ps_ingress_packets s' = ps_ingress_packets s + (if m_type m = T_PacketRx then 1 else 0) \<and>
    ps_completed_lifecycles s' = ps_completed_lifecycles s \<and> counts_more [] 0 s s'"
  using assms
  by (auto simp: well_typed_def stats_handle_def onPacketRx_def onIngressIdlePoll_def counts_more_refl
      counts_more_def processed_in_def dropped_in_def processed_bytes_def drop_count_def
      dest!: get_if_packet_typed get_if_dropped_typed split: MessageType.splits)

text \<open>One message of the pipeline: never an exception, and counted by the rule of first events.\<close>

lemma stats_step:
  assumes "well_typed m"
  shows "\<exists>s' e' F d. stats_handle m (s, e) = Inr (s', e') \<and>
    F = first_terminals (ps_completed_lifecycles s) [m] \<and> d = length (terminals [m]) - length F \<and>
    ps_ingress_packets s' = ps_ingress_packets s + (if m_type m = T_PacketRx then 1 else 0) \<and>
    ps_completed_lifecycles s' = ps_completed_lifecycles s \<union> terminal_ids [m] \<and> counts_more F d s s'"
proof (cases "terminal_id m")
  case None
  with stats_other_step [OF assms None, of s e] show ?thesis
    by (auto simp: terminals_def terminal_ids_def)
next
  case (Some i)
  then consider (processed) p where "m_type m = T_PacketProcessed" "get_if_packet (m_payload m) = Some p" "i = pk_lifecycle_id p"
    | (dropped) d where "m_type m = T_PacketDropped" "get_if_dropped (m_payload m) = Some d" "i = pd_lifecycle_id d"
    by (auto split: MessageType.splits)
  then show ?thesis
  proof cases
    case processed
    with stats_processed_step [OF processed(1,2), of s e] show ?thesis
      by (auto simp: terminals_def terminal_ids_def split: if_splits)
  next
    case dropped
    with stats_dropped_step [OF dropped(1,2), of s e] show ?thesis
      by (auto simp: terminals_def terminal_ids_def split: if_splits)
  qed
qed

lemma first_terminals_split:
  "first_terminals seen (m # ms) = first_terminals seen [m] @ first_terminals (seen \<union> terminal_ids [m]) ms"
  by (auto simp: terminal_ids_def insert_absorb split: option.split)

lemma length_first_terminals: "length (first_terminals seen ms) \<le> length (terminals ms)"
  by (induction seen ms rule: first_terminals.induct) (auto simp: terminals_def split: option.split)

lemma stats_run_counts:
  assumes "\<forall>m \<in> set ms. well_typed m"
  shows "\<exists>s' e'. stats_run ms (s, e) = Inr (s', e') \<and>
    ps_ingress_packets s' = ps_ingress_packets s + of_nat (length (filter (\<lambda>m. m_type m = T_PacketRx) ms)) \<and>
    ps_completed_lifecycles s' = ps_completed_lifecycles s \<union> terminal_ids ms \<and>
    counts_more (first_terminals (ps_completed_lifecycles s) ms)
      (length (terminals ms) - length (first_terminals (ps_completed_lifecycles s) ms)) s s'"
  using assms
proof (induction ms arbitrary: s e)
  case Nil
  show ?case by (simp add: counts_more_refl terminal_ids_def terminals_def)
next
  case (Cons m ms)
  obtain s1 e1 F d where step: "stats_handle m (s, e) = Inr (s1, e1)"
    and F: "F = first_terminals (ps_completed_lifecycles s) [m]" and d: "d = length (terminals [m]) - length F"
    and ing: "ps_ingress_packets s1 = ps_ingress_packets s + (if m_type m = T_PacketRx then 1 else 0)"
    and comp: "ps_completed_lifecycles s1 = ps_completed_lifecycles s \<union> terminal_ids [m]"
    and more: "counts_more F d s s1"
    using stats_step [of m s e] Cons.prems by auto
  let ?G = "first_terminals (ps_completed_lifecycles s1) ms"
  obtain s2 e2 where run: "stats_run ms (s1, e1) = Inr (s2, e2)"
    and ing2: "ps_ingress_packets s2 = ps_ingress_packets s1 + of_nat (length (filter (\<lambda>m. m_type m = T_PacketRx) ms))"
    and comp2: "ps_completed_lifecycles s2 = ps_completed_lifecycles s1 \<union> terminal_ids ms"
    and more2: "counts_more ?G (length (terminals ms) - length ?G) s1 s2"
    using Cons.IH [of s1 e1] Cons.prems by auto
  have split: "first_terminals (ps_completed_lifecycles s) (m # ms) = F @ ?G"
    using first_terminals_split F comp by metis
  have "terminals (m # ms) = terminals [m] @ terminals ms" by (simp add: terminals_def)
  then have dup: "length (terminals (m # ms)) - length (F @ ?G) = d + (length (terminals ms) - length ?G)"
    using length_first_terminals [of _ "[m]"] length_first_terminals [of _ ms] by (simp add: d F)
  have ids: "terminal_ids (m # ms) = terminal_ids [m] \<union> terminal_ids ms" by (auto simp: terminal_ids_def)
  have rx: "ps_ingress_packets s2 = ps_ingress_packets s + of_nat (length (filter (\<lambda>m. m_type m = T_PacketRx) (m # ms)))"
    using ing ing2 by simp
  show ?case
    using step run rx comp comp2 counts_more_trans [OF more more2]
    unfolding split dup ids by (auto simp: Un_assoc)
qed

lemma terminal_ids_Cons:
  "terminal_ids (m # ms) = (case terminal_id m of None \<Rightarrow> terminal_ids ms | Some i \<Rightarrow> insert i (terminal_ids ms))"
  by (auto simp: terminal_ids_def split: option.split)

lemma finite_terminal_ids: "finite (terminal_ids ms)"
  by (induction ms) (simp add: terminal_ids_def, simp add: terminal_ids_Cons split: option.split)

lemma length_first_terminals_card: "length (first_terminals seen ms) = card (terminal_ids ms - seen)"
proof (induction seen ms rule: first_terminals.induct)
  case (1 seen)
  show ?case by (simp add: terminal_ids_def)
next
  case (2 seen m ms)
  show ?case
  proof (cases "terminal_id m")
    case (Some i)
    have "insert i (terminal_ids ms) - seen = insert i (terminal_ids ms - insert i seen)" if "i \<notin> seen"
      using that by auto
    with 2 Some show ?thesis
      by (simp add: terminal_ids_Cons insert_Diff_if finite_terminal_ids del: terminal_id.simps)
  qed (use 2 in \<open>simp add: terminal_ids_Cons del: terminal_id.simps\<close>)
qed

subsection \<open>The balance of terminal events\<close>

definition drop_total :: "PacketStats \<Rightarrow> u64" where
  "drop_total s = sum_list (map snd (ps_drop_counters s))"

definition stats_inv :: "PacketStats \<Rightarrow> bool" where
  "stats_inv s \<longleftrightarrow>
     hmap_wf (ps_drop_counters s) \<and>
     finite (ps_completed_lifecycles s) \<and>
     ps_terminal_events s = of_nat (card (ps_completed_lifecycles s)) \<and>
     ps_terminal_events s = ps_processed_packets s + drop_total s \<and>
     ps_rx_packets s = ps_processed_packets s"

lemma sum_bump_drop: "sum_list (map snd (bump_drop r m)) = sum_list (map snd m) + 1"
proof -
  have "sum_list (map snd (hmap_assign r v m)) + (case map_of m r of None \<Rightarrow> 0 | Some n \<Rightarrow> n) =
      sum_list (map snd m) + v" for v
    by (induction m) (auto simp: algebra_simps)
  from this [of "(case map_of m r of None \<Rightarrow> 0 | Some n \<Rightarrow> n) + 1"] show ?thesis
    by (simp add: bump_drop_def algebra_simps)
qed

lemma hmap_wf_bump_drop: "hmap_wf m \<Longrightarrow> hmap_wf (bump_drop r m)"
  by (simp add: bump_drop_def hmap_wf_assign)

lemma stats_inv_new: "stats_inv PacketStats_new"
  by (simp add: stats_inv_def PacketStats_new_def hmap_wf_def drop_total_def)

lemma stats_inv_handle [inv_intros]:
  assumes "stats_handle m (s, e) = Inr (s', e')" and "stats_inv s"
  shows "stats_inv s'"
proof (cases "m_type m = T_PacketProcessed \<or> m_type m = T_PacketDropped")
  case True
  then show ?thesis
    using assms
    by (auto simp: stats_handle_def onPacketProcessed_def onPacketDropped_def stats_inv_def drop_total_def
        frame_simps sum_bump_drop hmap_wf_bump_drop split_beta Let_def
        split: sum.splits if_splits)
next
  case False
  then show ?thesis
    using assms
    by (auto simp: stats_handle_def onPacketRx_def onIngressIdlePoll_def stats_inv_def drop_total_def
        split: MessageType.splits option.splits)
qed

lemma stats_inv_run: "stats_run ms (s, e) = Inr (s', e') \<Longrightarrow> stats_inv s \<Longrightarrow> stats_inv s'"
proof (induction ms arbitrary: s e)
  case (Cons m ms)
  then obtain s1 e1 where "stats_handle m (s, e) = Inr (s1, e1)" "stats_run ms (s1, e1) = Inr (s', e')"
    by (auto split: sum.splits)
  with Cons show ?case by (blast intro: inv_intros)
qed simp

lemma drops_eq_total: "hash_order order \<Longrightarrow> drops order s = drop_total s"
proof -
  assume o: "hash_order order"
  have acc: "fold (\<lambda>(r, c) total. total + c) xs t = t + sum_list (map snd xs)" for xs :: "(PacketDropReason \<times> u64) list" and t
    by (induction xs arbitrary: t) (auto simp: add.assoc)
  have "mset (map snd (order (ps_drop_counters s))) = mset (map snd (ps_drop_counters s))"
    using o by (simp add: hash_order_def)
  then have "sum_list (map snd (order (ps_drop_counters s))) = sum_list (map snd (ps_drop_counters s))"
    by (metis sum_mset_sum_list)
  then show ?thesis by (simp add: drops_def drop_total_def acc)
qed

lemma fold_assign_map_of:
  "distinct (map fst xs) \<Longrightarrow> map_of (fold (\<lambda>(k, v). hmap_assign k v) xs m) = map_of m ++ map_of xs"
proof (induction xs arbitrary: m)
  case (Cons x xs)
  obtain k v where x: "x = (k, v)" by (cases x)
  have "map_of xs k = None" using Cons.prems by (simp add: x map_of_eq_None_iff)
  then have "map_of m ++ map_of (x # xs) = (map_of m)(k \<mapsto> v) ++ map_of xs"
    by (auto simp: fun_eq_iff map_add_def x split: option.split)
  moreover have "map_of (fold (\<lambda>(k, v). hmap_assign k v) (x # xs) m) = (map_of m)(k \<mapsto> v) ++ map_of xs"
    using Cons.IH [of "hmap_assign k v m"] Cons.prems by (simp add: x container_simps fun_upd_def)
  ultimately show ?case by (simp only:)
qed simp

lemma snapshot_drops:
  assumes "hash_order order" and "stats_inv s"
  shows "map_of (pm_drops_by_reason (snapshotAt order s)) = map_of (ps_drop_counters s)"
proof -
  have perm: "mset (order (ps_drop_counters s)) = mset (ps_drop_counters s)"
    using assms(1) by (simp add: hash_order_def)
  have "distinct (map fst (ps_drop_counters s))" using assms(2) by (simp add: stats_inv_def hmap_wf_def)
  then have d: "distinct (map fst (order (ps_drop_counters s)))"
    using perm by (metis distinct_count_atmost_1 mset_map mset_eq_imp_distinct_iff)
  have "map_of (order (ps_drop_counters s)) = map_of (ps_drop_counters s)"
    using d \<open>distinct (map fst (ps_drop_counters s))\<close> perm by (metis map_of_inject_set set_mset_mset)
  then show ?thesis using fold_assign_map_of [OF d, of "[]"] by (simp add: snapshotAt_def Let_def)
qed

section \<open>Properties\<close>

text \<open>
  \<^bold>\<open>C6\<close> Exactly-once accounting. On any sequence of well-typed pipeline messages the callbacks raise no
  exception, and the counters depend only on the first terminal message of each lifecycle identity: as many
  terminal events as distinct identities, every further terminal message counted as a duplicate,
  processed packets, their bytes and the drops of each reason counted from the first messages only.
\<close>

theorem exactly_once_accounting:
  assumes "\<forall>m \<in> set ms. well_typed m" and "F = first_terminals {} ms"
  shows "\<exists>s e'. stats_run ms (PacketStats_new, e) = Inr (s, e') \<and>
    ps_completed_lifecycles s = terminal_ids ms \<and>
    ps_terminal_events s = of_nat (card (terminal_ids ms)) \<and>
    ps_duplicate_events s = of_nat (length (terminals ms) - card (terminal_ids ms)) \<and>
    ps_processed_packets s = of_nat (length (processed_in F)) \<and>
    rxPackets s = of_nat (length (processed_in F)) \<and>
    rxBytes s = processed_bytes F \<and>
    (\<forall>r. drop_count s r = of_nat (length (dropped_in r F))) \<and>
    ps_ingress_packets s = of_nat (length (filter (\<lambda>m. m_type m = T_PacketRx) ms))"
proof -
  have new: "ps_completed_lifecycles PacketStats_new = {}" "drop_count PacketStats_new r = 0"
      "ps_terminal_events PacketStats_new = 0" "ps_duplicate_events PacketStats_new = 0"
      "ps_processed_packets PacketStats_new = 0" "ps_rx_packets PacketStats_new = 0"
      "ps_rx_bytes PacketStats_new = 0" "ps_ingress_packets PacketStats_new = 0" for r
    by (simp_all add: PacketStats_new_def drop_count_def)
  show ?thesis
    using stats_run_counts [OF assms(1), of PacketStats_new e] length_first_terminals_card [of "{}" ms] assms(2)
    by (auto simp: counts_more_def new rxPackets_def rxBytes_def)
qed

definition demo_terminals :: "Message list" where
  "demo_terminals =
     [drop_message QueueOverflow 5 1 7, drop_message ParseError 6 1 7,
      \<lparr>m_type = T_PacketProcessed, m_timestamp_ms = 9, m_payload = P_Packet (Packet_default\<lparr>pk_lifecycle_id := 8\<rparr>)\<rparr>]"

theorem exactly_once_accounting_witness:
  "\<exists>s e'. stats_run demo_terminals (PacketStats_new, env_demo) = Inr (s, e') \<and>
     ps_terminal_events s = 2 \<and> ps_duplicate_events s = 1 \<and> ps_processed_packets s = 1 \<and>
     drop_count s QueueOverflow = 1 \<and> drop_count s ParseError = 0"
proof -
  have "\<forall>m \<in> set demo_terminals. well_typed m" by (simp add: demo_terminals_def well_typed_def)
  from exactly_once_accounting [OF this refl, of env_demo]
  obtain s e' where run: "stats_run demo_terminals (PacketStats_new, env_demo) = Inr (s, e')"
    and s: "ps_terminal_events s = of_nat (card (terminal_ids demo_terminals))"
      "ps_duplicate_events s = of_nat (length (terminals demo_terminals) - card (terminal_ids demo_terminals))"
      "ps_processed_packets s = of_nat (length (processed_in (first_terminals {} demo_terminals)))"
      "drop_count s r = of_nat (length (dropped_in r (first_terminals {} demo_terminals)))" for r
    by blast
  have "terminal_ids [] = {}" by (simp add: terminal_ids_def)
  then have ids: "terminal_ids demo_terminals = {7, 8}" by (simp add: demo_terminals_def terminal_ids_Cons)
  have "length (terminals demo_terminals) = 3" by (simp add: demo_terminals_def terminals_def)
  moreover have "length (processed_in (first_terminals {} demo_terminals)) = 1"
    "length (dropped_in QueueOverflow (first_terminals {} demo_terminals)) = 1"
    "length (dropped_in ParseError (first_terminals {} demo_terminals)) = 0"
    by (simp_all add: demo_terminals_def processed_in_def dropped_in_def)
  ultimately show ?thesis using run s by (simp add: ids)
qed

text \<open>
  A published snapshot is balanced: after any sequence of pipeline messages that the
  callbacks accept, its terminal events are the processed packets plus the drops of all reasons, its
  drop map agrees with the live counters, its gap and pending counts are differences that never
  wrap below zero, and \<open>drops()\<close> is the sum over the reasons whatever the iteration order.
\<close>

theorem snapshot_balanced:
  assumes "stats_run ms (PacketStats_new, e) = Inr (s, e')" and "hash_order order"
  shows "pm_terminal_events (snapshotAt order s) = pm_processed_packets (snapshotAt order s) + drops order s \<and>
    pm_rx_packets (snapshotAt order s) = pm_processed_packets (snapshotAt order s) \<and>
    map_of (pm_drops_by_reason (snapshotAt order s)) = map_of (ps_drop_counters s) \<and>
    drops order s = sum_list (map snd (ps_drop_counters s)) \<and>
    unat (pm_processing_gap (snapshotAt order s)) = unat (ps_ingress_packets s) - unat (ps_processed_packets s) \<and>
    unat (pm_pending_terminal_events (snapshotAt order s)) = unat (ps_ingress_packets s) - unat (ps_terminal_events s)"
proof -
  have inv: "stats_inv s" using stats_inv_run [OF assms(1) stats_inv_new] .
  have gap: "unat (if a \<ge> b then a - b else 0) = unat a - unat b" for a b :: u64
    by (auto simp: unat_sub word_le_nat_alt)
  have pend: "unat (if a > b then a - b else 0) = unat a - unat b" for a b :: u64
    by (auto simp: unat_sub word_le_nat_alt word_less_nat_alt)
  have "ps_terminal_events s = ps_processed_packets s + drop_total s" "ps_rx_packets s = ps_processed_packets s"
    using inv unfolding stats_inv_def by blast+
  then show ?thesis
    using snapshot_drops [OF assms(2) inv] gap pend
    by (simp add: drops_eq_total [OF assms(2)] snapshotAt_def Let_def drop_total_def)
qed

theorem snapshot_balanced_witness:
  "\<exists>s e'. stats_run demo_terminals (PacketStats_new, env_demo) = Inr (s, e') \<and>
     pm_terminal_events (snapshotAt rev s) = pm_processed_packets (snapshotAt rev s) + drops rev s"
proof -
  obtain s e' where run: "stats_run demo_terminals (PacketStats_new, env_demo) = Inr (s, e')"
    using stats_run_counts [of demo_terminals PacketStats_new env_demo]
    by (auto simp: demo_terminals_def well_typed_def)
  from snapshot_balanced [OF this, of rev] run show ?thesis by (simp add: hash_order_def)
qed

end
