(* ===== verification/Runtime_Health.thy ===== *)
theory Runtime_Health
  imports Runtime_Env Packet_Types
begin

text \<open>
  \<^verbatim>\<open>HealthMonitor\<close> (runtime/HealthMonitor), which watches the heartbeat and publishes a status when
  liveness changes, and \<^verbatim>\<open>ShutdownRequest\<close> with \<^verbatim>\<open>ShutdownReason\<close> (runtime/). Time differences are taken in
  unsigned 64-bit arithmetic. \<open>onTick\<close> stores the new liveness after publishing; its only
  subscriber (the daemon's log callback) neither raises nor touches the monitor, so the published message is
  returned with the new state.
\<close>

section \<open>Health monitor\<close>

record HealthMonitor =
  hm_timeout_ms :: u64
  hm_last_heartbeat_ms :: u64
  hm_start_time_ms :: u64
  hm_last_alive_state :: "bool option"

record HealthSnapshot =
  hsn_alive :: bool
  hsn_timeout_ms :: u64

definition HealthMonitor_new :: "u64 \<Rightarrow> env \<Rightarrow> HealthMonitor \<times> env" where
  "HealthMonitor_new timeout_ms e =
     (let (heartbeat, e) = nowMs e; (start, e) = nowMs e
      in (\<lparr>hm_timeout_ms = timeout_ms, hm_last_heartbeat_ms = heartbeat, hm_start_time_ms = start,
           hm_last_alive_state = None\<rparr>, e))"

definition onHeartbeat :: "HealthMonitor \<Rightarrow> env \<Rightarrow> HealthMonitor \<times> env" where
  "onHeartbeat h e = (let (now, e) = nowMs e in (h\<lparr>hm_last_heartbeat_ms := now\<rparr>, e))"

definition is_alive_at :: "u64 \<Rightarrow> HealthMonitor \<Rightarrow> bool" where
  "is_alive_at now h = (now - hm_last_heartbeat_ms h \<le> hm_timeout_ms h)"

definition health_status :: "u64 \<Rightarrow> HealthMonitor \<Rightarrow> HealthStatus" where
  "health_status now h =
     \<lparr>hs_uptime_ms = now - hm_start_time_ms h, hs_last_heartbeat_ms = hm_last_heartbeat_ms h,
      hs_silence_duration_ms = 0, hs_is_alive = is_alive_at now h\<rparr>"

definition health_onTick :: "HealthMonitor \<Rightarrow> env \<Rightarrow> HealthMonitor \<times> Message list \<times> env" where
  "health_onTick h e =
     (let (now, e) = nowMs e;
          current_alive = is_alive_at now h in
      if hm_last_alive_state h = None \<or> current_alive \<noteq> the (hm_last_alive_state h)
      then (h\<lparr>hm_last_alive_state := Some current_alive\<rparr>,
            [\<lparr>m_type = T_HealthStatus, m_timestamp_ms = hm_last_heartbeat_ms h,
              m_payload = P_Health (health_status now h)\<rparr>], e)
      else (h, [], e))"

definition health_snapshot :: "HealthMonitor \<Rightarrow> env \<Rightarrow> HealthSnapshot \<times> env" where
  "health_snapshot h e =
     (let (now, e) = nowMs e in (\<lparr>hsn_alive = is_alive_at now h, hsn_timeout_ms = hm_timeout_ms h\<rparr>, e))"

definition currentStatus :: "HealthMonitor \<Rightarrow> env \<Rightarrow> HealthStatus \<times> env" where
  "currentStatus h e = (let (now, e) = nowMs e in (health_status now h, e))"

text \<open>Any interleaving of heartbeats and ticks, with the messages published.\<close>

datatype health_event = Heartbeat | HealthTick

fun health_run :: "health_event list \<Rightarrow> HealthMonitor \<Rightarrow> env \<Rightarrow> HealthMonitor \<times> Message list \<times> env" where
  "health_run [] h e = (h, [], e)"
| "health_run (Heartbeat # evs) h e = (let (h, e) = onHeartbeat h e in health_run evs h e)"
| "health_run (HealthTick # evs) h e =
     (let (h, ms, e) = health_onTick h e; (h, ms', e) = health_run evs h e in (h, ms @ ms', e))"

section \<open>Shutdown\<close>

datatype ShutdownReason = UnknownReason | ControlPlaneRequest | SignalInterrupt | SignalTerminate

fun reason_toString :: "ShutdownReason \<Rightarrow> string" where
  "reason_toString ControlPlaneRequest = ''ControlPlaneRequest''"
| "reason_toString SignalInterrupt = ''SignalInterrupt''"
| "reason_toString SignalTerminate = ''SignalTerminate''"
| "reason_toString UnknownReason = ''Unknown''"

record ShutdownRequest =
  sr_requested :: bool
  sr_reason :: ShutdownReason

definition ShutdownRequest_new :: ShutdownRequest where
  "ShutdownRequest_new = \<lparr>sr_requested = False, sr_reason = UnknownReason\<rparr>"

definition request :: "ShutdownReason \<Rightarrow> ShutdownRequest \<Rightarrow> ShutdownRequest" where
  "request reason r =
     (if \<not> sr_requested r then r\<lparr>sr_requested := True, sr_reason := reason\<rparr> else r)"

definition isRequested :: "ShutdownRequest \<Rightarrow> bool" where
  "isRequested r = sr_requested r"

section \<open>Lemmas\<close>

definition alive_of :: "Message \<Rightarrow> bool option" where
  "alive_of m = (case m_payload m of P_Health s \<Rightarrow> Some (hs_is_alive s) | _ \<Rightarrow> None)"

lemma health_onTick_cases:
  assumes "health_onTick h e = (h', ms, e')"
  shows "hm_last_alive_state h' = Some (is_alive_at (ms_clock e (ms_reads e)) h) \<and>
    hm_last_heartbeat_ms h' = hm_last_heartbeat_ms h \<and> hm_timeout_ms h' = hm_timeout_ms h \<and>
    (if hm_last_alive_state h = hm_last_alive_state h' then ms = []
     else map alive_of ms = [hm_last_alive_state h'])"
  using assms by (cases "hm_last_alive_state h")
    (auto simp: health_onTick_def nowMs_def health_status_def alive_of_def Let_def split: if_splits)

lemma onHeartbeat_frame: "onHeartbeat h e = (h', e') \<Longrightarrow> hm_last_alive_state h' = hm_last_alive_state h"
  by (auto simp: onHeartbeat_def split: prod.splits)

text \<open>The published liveness values, preceded by the one published before, never repeat.\<close>

lemma health_run_adjacent:
  "health_run evs h e = (h', ms, e') \<Longrightarrow>
     distinct_adj (hm_last_alive_state h # map alive_of ms) \<and>
     hm_last_alive_state h' = last (hm_last_alive_state h # map alive_of ms)"
proof (induction evs h e arbitrary: ms rule: health_run.induct)
  case (2 evs h e)
  obtain h1 e1 where "onHeartbeat h e = (h1, e1)" by (cases "onHeartbeat h e")
  with 2 onHeartbeat_frame show ?case by auto
next
  case (3 evs h e)
  obtain h1 ms1 e1 where t: "health_onTick h e = (h1, ms1, e1)" by (cases "health_onTick h e")
  obtain ms2 where r: "health_run evs h1 e1 = (h', ms2, e')" and ms: "ms = ms1 @ ms2"
    using "3.prems" t by (auto split: prod.splits)
  have IH: "distinct_adj (hm_last_alive_state h1 # map alive_of ms2)"
    "hm_last_alive_state h' = last (hm_last_alive_state h1 # map alive_of ms2)"
    using "3.IH" [OF t [symmetric] refl refl r] by blast+
  show ?case
  proof (cases "hm_last_alive_state h = hm_last_alive_state h1")
    case True
    then have "ms1 = []" using health_onTick_cases [OF t] by simp
    then show ?thesis using IH True ms by simp
  next
    case False
    then have "map alive_of ms1 = [hm_last_alive_state h1]" using health_onTick_cases [OF t] by simp
    then show ?thesis using IH False ms by simp
  qed
qed simp

lemma health_run_snoc_tick:
  "health_run (evs @ [HealthTick]) h e =
     (let (h, ms, e) = health_run evs h e; (h, ms', e) = health_onTick h e in (h, ms @ ms', e))"
proof (induction evs arbitrary: h e)
  case (Cons ev evs)
  then show ?case by (cases ev) (simp_all add: split_beta Let_def)
qed (simp add: split_beta Let_def)

section \<open>Properties\<close>

text \<open>
  Health reporting is edge-triggered and current: over any sequence of heartbeats and ticks the published
  liveness values alternate (no two consecutive reports are equal), and right after a tick at clock reading
  \<open>now\<close> a report has been published, the last one saying alive exactly when the time since the
  last heartbeat, in unsigned arithmetic, is at most the timeout (so a clock that steps back
  before the last heartbeat reports not alive).
\<close>

theorem health_reports_edges:
  assumes "hm_last_alive_state h = None"
    and "health_run evs h e = (h1, ms1, e1)" and "health_run (evs @ [HealthTick]) h e = (h', ms, e')"
  shows "distinct_adj (map alive_of ms) \<and> ms \<noteq> [] \<and>
    last (map alive_of ms) =
      Some (ms_clock e1 (ms_reads e1) - hm_last_heartbeat_ms h1 \<le> hm_timeout_ms h1)"
proof -
  obtain ms2 where tick: "health_onTick h1 e1 = (h', ms2, e')"
    using assms(2,3) by (auto simp: health_run_snoc_tick split: prod.splits)
  have adj: "distinct_adj (None # map alive_of ms)" "hm_last_alive_state h' = last (None # map alive_of ms)"
    using health_run_adjacent [OF assms(3)] assms(1) by simp_all
  have now: "hm_last_alive_state h' = Some (is_alive_at (ms_clock e1 (ms_reads e1)) h1)"
    using health_onTick_cases [OF tick] by simp
  then have "ms \<noteq> []" using adj(2) by auto
  then show ?thesis using adj now by (cases ms) (auto simp: is_alive_at_def distinct_adj_Cons)
qed

theorem health_reports_edges_witness:
  "let h = \<lparr>hm_timeout_ms = 3, hm_last_heartbeat_ms = 0, hm_start_time_ms = 0, hm_last_alive_state = None\<rparr>;
       (h', ms, e') = health_run ([HealthTick, Heartbeat, HealthTick, HealthTick, HealthTick, HealthTick] @ [HealthTick]) h env_demo
   in map alive_of ms = [Some True, Some False] \<and> distinct_adj (map alive_of ms)"
proof -
  let ?h = "\<lparr>hm_timeout_ms = 3, hm_last_heartbeat_ms = 0, hm_start_time_ms = 0, hm_last_alive_state = None\<rparr>"
  let ?evs = "[HealthTick, Heartbeat, HealthTick, HealthTick, HealthTick, HealthTick]"
  obtain h1 ms1 e1 where r1: "health_run ?evs ?h env_demo = (h1, ms1, e1)"
    by (cases "health_run ?evs ?h env_demo")
  obtain h' ms e' where r: "health_run (?evs @ [HealthTick]) ?h env_demo = (h', ms, e')"
    by (cases "health_run (?evs @ [HealthTick]) ?h env_demo")
  have "map alive_of ms = [Some True, Some False]"
    using r by (auto simp: health_onTick_def onHeartbeat_def nowMs_def env_demo_def is_alive_at_def health_status_def alive_of_def Let_def)
  moreover have "distinct_adj (map alive_of ms)"
    using health_reports_edges [OF _ r1 r] by simp
  ultimately show ?thesis unfolding Let_def r prod.case by blast
qed

text \<open>
  The first shutdown request wins: after any sequence of requests the daemon sees a request
  exactly when there was one, with the reason of the first.
\<close>

theorem first_shutdown_reason:
  "isRequested (fold request rs ShutdownRequest_new) = (rs \<noteq> []) \<and>
   sr_reason (fold request rs ShutdownRequest_new) = (case rs of [] \<Rightarrow> UnknownReason | r # _ \<Rightarrow> r)"
proof -
  have keep: "fold request rs s = s" if "sr_requested s" for s rs
    using that by (induction rs) (simp_all add: request_def)
  show ?thesis
    by (cases rs) (simp_all add: ShutdownRequest_new_def isRequested_def request_def keep)
qed

end
