(* ===== verification/Telemetry_Export.thy ===== *)
theory Telemetry_Export
  imports Runtime_Env Packet_Types
begin

text \<open>
  \<^verbatim>\<open>Telemetry\<close> (the tick counter and the uptime of the daemon), the exporters and
  \<^verbatim>\<open>TelemetryExportManager\<close> (telemetry/): a bounded queue that drops the oldest sample, drained by
  an export thread that hands every sample to every exporter and survives exporters that raise. The
  manager is defined over any exporter operation, as the C++ code is over the abstract class. The
  queue satisfies the interface \<open>bounded_fifo\<close>.
\<close>

section \<open>Telemetry\<close>

record RuntimeMetrics =
  rm_uptime_ms :: u64
  rm_tick_count :: u64
  rm_telemetry_queue_size :: u64
  rm_telemetry_dropped_samples :: u64

record Telemetry =
  tl_start_time_ms :: u64
  tl_tick_count :: u64

definition Telemetry_new :: "env \<Rightarrow> Telemetry \<times> env" where
  "Telemetry_new e = (let (start, e) = nowMs e in (\<lparr>tl_start_time_ms = start, tl_tick_count = 0\<rparr>, e))"

definition telemetry_onTick :: "Telemetry \<Rightarrow> env \<Rightarrow> Telemetry \<times> Message \<times> env" where
  "telemetry_onTick t e =
     (let t = t\<lparr>tl_tick_count := tl_tick_count t + 1\<rparr>;
          (now1, e) = nowMs e;
          (now2, e) = nowMs e;
          data = \<lparr>td_uptime_ms = now1 - tl_start_time_ms t, td_tick_count = tl_tick_count t, td_timestamp_ms = now2\<rparr>
      in (t, \<lparr>m_type = T_Telemetry, m_timestamp_ms = td_timestamp_ms data, m_payload = P_Telemetry data\<rparr>, e))"

definition telemetry_snapshot :: "Telemetry \<Rightarrow> env \<Rightarrow> RuntimeMetrics \<times> env" where
  "telemetry_snapshot t e =
     (let (now, e) = nowMs e
      in (\<lparr>rm_uptime_ms = now - tl_start_time_ms t, rm_tick_count = tl_tick_count t,
           rm_telemetry_queue_size = 0, rm_telemetry_dropped_samples = 0\<rparr>, e))"

section \<open>Exporters\<close>

text \<open>The outcome of an \<open>exportSample\<close> call: it returns, or raises with or without a message.\<close>

datatype export_outcome = Exported | Threw string | ThrewUnknown

text \<open>The file exporter: whether a write leaves the stream good is the file system's answer.\<close>

record FileTelemetryExporter =
  fx_filePath :: string
  fx_open :: bool
  fx_good :: "nat \<Rightarrow> bool"
  fx_writes :: "string list"

datatype TelemetryExporter =
    StdoutTelemetryExporter
  | InMemoryTelemetryExporter "RuntimeMetrics list"
  | FileExporter FileTelemetryExporter

definition FileTelemetryExporter_new :: "string \<Rightarrow> bool \<Rightarrow> (nat \<Rightarrow> bool) \<Rightarrow> env \<Rightarrow> FileTelemetryExporter \<times> env" where
  "FileTelemetryExporter_new path opened good e =
     (\<lparr>fx_filePath = path, fx_open = opened, fx_good = good, fx_writes = []\<rparr>,
      if \<not> opened then log_error (''FileTelemetryExporter: failed to open file: '' @ path) e else e)"

definition sample_line :: "RuntimeMetrics \<Rightarrow> string" where
  "sample_line s = ''uptime_ms='' @ to_string (rm_uptime_ms s) @ '',tick_count='' @ to_string (rm_tick_count s) @
     '',queue_size='' @ to_string (rm_telemetry_queue_size s) @ '',dropped='' @
     to_string (rm_telemetry_dropped_samples s)"

definition file_export ::
  "FileTelemetryExporter \<Rightarrow> RuntimeMetrics \<Rightarrow> env \<Rightarrow> FileTelemetryExporter \<times> env" where
  "file_export x sample e =
     (if \<not> fx_open x then (x, e)
      else let good = fx_good x (length (fx_writes x));
               x = x\<lparr>fx_writes := fx_writes x @ [sample_line sample]\<rparr>
           in (x, if \<not> good
                  then log_error (''FileTelemetryExporter: failed to write sample to file: '' @ fx_filePath x) e
                  else e))"

definition stdout_export :: "RuntimeMetrics \<Rightarrow> env \<Rightarrow> env" where
  "stdout_export sample e =
     log_info (''telemetry_export: uptime_ms='' @ to_string (rm_uptime_ms sample) @
       '' tick_count='' @ to_string (rm_tick_count sample)) e"

definition memory_export :: "RuntimeMetrics list \<Rightarrow> RuntimeMetrics \<Rightarrow> RuntimeMetrics list" where
  "memory_export buffer metrics = buffer @ [metrics]"

fun exporter_exportSample ::
  "TelemetryExporter \<Rightarrow> RuntimeMetrics \<Rightarrow> env \<Rightarrow> export_outcome \<times> TelemetryExporter \<times> env" where
  "exporter_exportSample StdoutTelemetryExporter sample e =
     (Exported, StdoutTelemetryExporter, stdout_export sample e)"
| "exporter_exportSample (InMemoryTelemetryExporter buffer) sample e =
     (Exported, InMemoryTelemetryExporter (memory_export buffer sample), e)"
| "exporter_exportSample (FileExporter x) sample e =
     (let (x, e) = file_export x sample e in (Exported, FileExporter x, e))"

section \<open>The export manager\<close>

record 'x TelemetryExportManager =
  xm_exporters :: "'x list"
  xm_queue :: "RuntimeMetrics list"
  xm_capacity :: nat
  xm_dropped_count :: u64
  xm_running :: bool
  xm_thread_joinable :: bool

definition TelemetryExportManager_new :: "nat \<Rightarrow> 'x TelemetryExportManager" where
  "TelemetryExportManager_new capacity =
     \<lparr>xm_exporters = [], xm_queue = [], xm_capacity = capacity, xm_dropped_count = 0, xm_running = False,
      xm_thread_joinable = False\<rparr>"

definition addExporter ::
  "'x option \<Rightarrow> 'x TelemetryExportManager \<Rightarrow> env \<Rightarrow> 'x TelemetryExportManager \<times> env" where
  "addExporter exporter m e =
     (case exporter of
        None \<Rightarrow> (m, log_warn ''telemetry_export: null exporter ignored'' e)
      | Some x \<Rightarrow> (m\<lparr>xm_exporters := xm_exporters m @ [x]\<rparr>, e))"

fun export_loop ::
  "('x \<Rightarrow> RuntimeMetrics \<Rightarrow> env \<Rightarrow> export_outcome \<times> 'x \<times> env) \<Rightarrow> 'x list \<Rightarrow> RuntimeMetrics \<Rightarrow> env \<Rightarrow>
     'x list \<times> env" where
  "export_loop op [] sample e = ([], e)"
| "export_loop op (x # xs) sample e =
     (let (outcome, x, e) = op x sample e;
          e = (case outcome of
                 Exported \<Rightarrow> e
               | Threw what \<Rightarrow> log_error (''Telemetry exporter failed: '' @ what) e
               | ThrewUnknown \<Rightarrow> log_error ''Telemetry exporter failed with unknown exception'' e);
          (xs, e) = export_loop op xs sample e
      in (x # xs, e))"

definition exportSample ::
  "('x \<Rightarrow> RuntimeMetrics \<Rightarrow> env \<Rightarrow> export_outcome \<times> 'x \<times> env) \<Rightarrow> RuntimeMetrics \<Rightarrow>
     'x TelemetryExportManager \<Rightarrow> env \<Rightarrow> 'x TelemetryExportManager \<times> env" where
  "exportSample op sample m e =
     (let (xs, e) = export_loop op (xm_exporters m) sample e in (m\<lparr>xm_exporters := xs\<rparr>, e))"

definition enqueue :: "RuntimeMetrics \<Rightarrow> 'x TelemetryExportManager \<Rightarrow> 'x TelemetryExportManager" where
  "enqueue sample m =
     (if xm_capacity m = 0 then m\<lparr>xm_dropped_count := xm_dropped_count m + 1\<rparr>
      else
        let m = (if length (xm_queue m) \<ge> xm_capacity m
                 then m\<lparr>xm_queue := tl (xm_queue m), xm_dropped_count := xm_dropped_count m + 1\<rparr>
                 else m);
            back = sample\<lparr>rm_telemetry_queue_size := of_nat (Suc (length (xm_queue m))),
                          rm_telemetry_dropped_samples := xm_dropped_count m\<rparr>
        in m\<lparr>xm_queue := xm_queue m @ [back]\<rparr>)"

text \<open>\<open>start\<close> tells whether it created the export thread, \<open>stop\<close> whether it joined it.\<close>

definition export_start :: "'x TelemetryExportManager \<Rightarrow> bool \<times> 'x TelemetryExportManager" where
  "export_start m = (if xm_running m then (False, m) else (True, m\<lparr>xm_running := True, xm_thread_joinable := True\<rparr>))"

text \<open>\<open>export_stop\<close> is \<^verbatim>\<open>stop()\<close> up to its join, which it reaches if the result is true; \<open>export_join\<close> is the join.\<close>

definition export_stop :: "'x TelemetryExportManager \<Rightarrow> bool \<times> 'x TelemetryExportManager" where
  "export_stop m = (if \<not> xm_running m then (False, m) else (True, m\<lparr>xm_running := False\<rparr>))"

definition export_join :: "'x TelemetryExportManager \<Rightarrow> 'x TelemetryExportManager" where
  "export_join m = m\<lparr>xm_thread_joinable := False\<rparr>"

text \<open>One pass of a worker loop: it waits, ends, or takes the front element.\<close>

datatype ('a, 's) loop_step = Waiting | Stopped | Took 'a 's

definition exportLoop_step :: "'x TelemetryExportManager \<Rightarrow> (RuntimeMetrics, 'x TelemetryExportManager) loop_step" where
  "exportLoop_step m =
     (case xm_queue m of
        [] \<Rightarrow> if xm_running m then Waiting else Stopped
      | sample # rest \<Rightarrow> Took sample (m\<lparr>xm_queue := rest\<rparr>))"

text \<open>\<open>exportLoop\<close> after \<open>stop\<close>, with no more producers: it empties the queue and returns.\<close>

fun drain_loop ::
  "('x \<Rightarrow> RuntimeMetrics \<Rightarrow> env \<Rightarrow> export_outcome \<times> 'x \<times> env) \<Rightarrow> nat \<Rightarrow> 'x TelemetryExportManager \<Rightarrow> env \<Rightarrow>
     ('x TelemetryExportManager \<times> env) option" where
  "drain_loop op 0 m e = None"
| "drain_loop op (Suc fuel) m e =
     (case exportLoop_step m of
        Stopped \<Rightarrow> Some (m, e)
      | Waiting \<Rightarrow> None
      | Took sample m \<Rightarrow> let (m, e) = exportSample op sample m e in drain_loop op fuel m e)"

definition queueSize :: "'x TelemetryExportManager \<Rightarrow> nat" where
  "queueSize m = length (xm_queue m)"

definition droppedCount :: "'x TelemetryExportManager \<Rightarrow> u64" where
  "droppedCount m = xm_dropped_count m"

section \<open>The queue as a bounded first-in first-out hand-off\<close>

text \<open>The daemon enqueues samples made of uptime and tick count; the queue stamps the other fields.\<close>

definition sample_of :: "u64 \<times> u64 \<Rightarrow> RuntimeMetrics" where
  "sample_of x = \<lparr>rm_uptime_ms = fst x, rm_tick_count = snd x, rm_telemetry_queue_size = 0, rm_telemetry_dropped_samples = 0\<rparr>"

definition unstamp :: "RuntimeMetrics \<Rightarrow> u64 \<times> u64" where
  "unstamp s = (rm_uptime_ms s, rm_tick_count s)"

definition export_push :: "u64 \<times> u64 \<Rightarrow> 'x TelemetryExportManager \<Rightarrow> 'x TelemetryExportManager \<times> (u64 \<times> u64) list" where
  "export_push x m =
     (enqueue (sample_of x) m,
      if xm_capacity m = 0 then [x]
      else if length (xm_queue m) \<ge> xm_capacity m then map unstamp (take 1 (xm_queue m)) else [])"

definition export_pop :: "'x TelemetryExportManager \<Rightarrow> ((u64 \<times> u64) \<times> 'x TelemetryExportManager) option" where
  "export_pop m = (case exportLoop_step m of Took s m' \<Rightarrow> Some (unstamp s, m') | _ \<Rightarrow> None)"

definition export_inv :: "'x TelemetryExportManager \<Rightarrow> bool" where
  "export_inv m = (length (xm_queue m) \<le> xm_capacity m)"

abbreviation queued :: "'x TelemetryExportManager \<Rightarrow> (u64 \<times> u64) list" where
  "queued m \<equiv> map unstamp (xm_queue m)"

lemma queued_enqueue:
  "queued (enqueue (sample_of x) m) =
     (if xm_capacity m = 0 then queued m
      else if length (xm_queue m) \<ge> xm_capacity m then tl (queued m) @ [x] else queued m @ [x])"
  by (simp add: enqueue_def Let_def unstamp_def sample_of_def map_tl)

lemma dropped_enqueue:
  "xm_dropped_count (enqueue s m) =
     xm_dropped_count m + (if length (xm_queue m) \<ge> xm_capacity m then 1 else 0)"
  by (auto simp: enqueue_def Let_def)

lemma enqueue_frame [simp]: "xm_capacity (enqueue s m) = xm_capacity m" "xm_exporters (enqueue s m) = xm_exporters m"
  by (simp_all add: enqueue_def Let_def)

lemma length_enqueue: "export_inv m \<Longrightarrow> length (xm_queue (enqueue s m)) \<le> xm_capacity m"
  by (auto simp: enqueue_def export_inv_def Let_def)

interpretation tq: bounded_fifo export_inv queued xm_capacity export_push export_pop
proof unfold_locales
  fix m m' :: "'x TelemetryExportManager" and x lost
  assume p: "export_push x m = (m', lost)"
  then have m': "m' = enqueue (sample_of x) m" by (simp add: export_push_def)
  show "xm_capacity m' = xm_capacity m" by (simp add: m')
  assume inv: "export_inv m"
  show "export_inv m'" using length_enqueue [OF inv] by (simp add: m' export_inv_def)
  show "mset (queued m') + mset lost = mset (queued m) + {#x#}"
    using p inv unfolding m' queued_enqueue
    by (cases "xm_queue m") (auto simp: export_push_def export_inv_def)
  show "subseq (queued m') (queued m @ [x])"
    unfolding m' queued_enqueue by (cases "xm_queue m") auto
qed (auto simp: export_inv_def export_pop_def exportLoop_step_def split: list.splits if_splits loop_step.splits)

lemma dropped_run:
  "fifo_run export_push export_pop ops m = (m', out, lost) \<Longrightarrow> export_inv m \<Longrightarrow>
     xm_dropped_count m' = xm_dropped_count m + of_nat (length lost)"
proof (induction ops arbitrary: m out lost)
  case (Cons op ops)
  show ?case
  proof (cases op)
    case (Push x)
    from Cons.prems(1) [unfolded Push] show ?thesis
    proof (rule fifo_run_PushE)
      fix m1 ys lost1
      assume p: "export_push x m = (m1, ys)" and r: "fifo_run export_push export_pop ops m1 = (m', out, lost1)"
        and l: "lost = ys @ lost1"
      have "xm_dropped_count m1 = xm_dropped_count m + of_nat (length ys)"
        using p Cons.prems(2) by (cases "xm_queue m") (auto simp: export_push_def dropped_enqueue export_inv_def)
      with Cons.IH [OF r tq.invar_push [OF Cons.prems(2) p]] show ?thesis by (simp add: l add.assoc)
    qed
  next
    case Pop
    from Cons.prems(1) [unfolded Pop] show ?thesis
    proof (cases rule: fifo_run_PopE)
      case idle
      from Cons.IH [OF idle(2) Cons.prems(2)] show ?thesis .
    next
      case (take x m1 out1)
      have "xm_dropped_count m1 = xm_dropped_count m"
        using take(1) by (auto simp: export_pop_def exportLoop_step_def split: list.splits if_splits)
      with Cons.IH [OF take(2) tq.invar_pop [OF Cons.prems(2) take(1)]] show ?thesis by simp
    qed
  qed
qed simp

text \<open>What is dropped is what has waited longest: the queue always holds the samples enqueued last.\<close>

lemma queue_newest:
  "fifo_run export_push export_pop ops m = (m', out, lost) \<Longrightarrow> export_inv m \<Longrightarrow>
     \<exists>gone. queued m @ fifo_fed ops = gone @ queued m'"
proof (induction ops arbitrary: m out lost)
  case (Cons op ops)
  show ?case
  proof (cases op)
    case (Push x)
    from Cons.prems(1) [unfolded Push] show ?thesis
    proof (rule fifo_run_PushE)
      fix m1 ys lost1
      assume p: "export_push x m = (m1, ys)" and r: "fifo_run export_push export_pop ops m1 = (m', out, lost1)"
      have "\<exists>gone. queued m @ [x] = gone @ queued m1"
        using p Cons.prems(2) by (cases "xm_queue m") (auto simp: export_push_def queued_enqueue export_inv_def)
      moreover obtain gone where "queued m1 @ fifo_fed ops = gone @ queued m'"
        using Cons.IH [OF r tq.invar_push [OF Cons.prems(2) p]] by blast
      ultimately show ?thesis by (auto simp: Push) (metis append.assoc append_Cons append_Nil)
    qed
  next
    case Pop
    from Cons.prems(1) [unfolded Pop] show ?thesis
    proof (cases rule: fifo_run_PopE)
      case idle
      from Cons.IH [OF idle(2) Cons.prems(2)] show ?thesis by (simp add: Pop)
    next
      case (take x m1 out1)
      have "queued m = x # queued m1"
        using take(1) by (auto simp: export_pop_def exportLoop_step_def split: list.splits if_splits)
      moreover obtain gone where "queued m1 @ fifo_fed ops = gone @ queued m'"
        using Cons.IH [OF take(2) tq.invar_pop [OF Cons.prems(2) take(1)]] by blast
      ultimately show ?thesis by (intro exI [of _ "x # gone"]) (simp add: Pop)
    qed
  qed
qed simp

section \<open>Draining\<close>

lemma export_loop_all:
  assumes "\<And>x s e. fst (snd (op x s e)) = adv x s"
  shows "fst (export_loop op xs sample e) = map (\<lambda>x. adv x sample) xs"
proof (induction xs arbitrary: e)
  case (Cons x xs)
  obtain outcome x' e' where "op x sample e = (outcome, x', e')" by (cases "op x sample e")
  with assms [of x sample e] Cons.IH show ?case by (simp add: split_beta)
qed simp

lemma drain_all:
  assumes "\<And>x s e. fst (snd (op x s e)) = adv x s"
  shows "\<not> xm_running m \<Longrightarrow> \<exists>e'. drain_loop op (Suc (length (xm_queue m))) m e =
    Some (m\<lparr>xm_exporters := map (\<lambda>x. fold (\<lambda>s x. adv x s) (xm_queue m) x) (xm_exporters m), xm_queue := []\<rparr>, e')"
proof (induction "xm_queue m" arbitrary: m e)
  case Nil
  then have "xm_queue m = []" by simp
  with Nil show ?case by (simp add: exportLoop_step_def)
next
  case (Cons s rest)
  let ?m1 = "m\<lparr>xm_exporters := map (\<lambda>x. adv x s) (xm_exporters m), xm_queue := rest\<rparr>"
  obtain e1 where ex: "exportSample op s (m\<lparr>xm_queue := rest\<rparr>) e = (?m1, e1)"
    using export_loop_all [of op adv, OF assms, of "xm_exporters m" s e]
    by (cases "export_loop op (xm_exporters m) s e") (auto simp: exportSample_def)
  have step: "exportLoop_step m = Took s (m\<lparr>xm_queue := rest\<rparr>)"
    using Cons.hyps(2) [symmetric] by (simp add: exportLoop_step_def)
  have "\<exists>e'. drain_loop op (Suc (length (xm_queue ?m1))) ?m1 e1 =
      Some (?m1\<lparr>xm_exporters := map (\<lambda>x. fold (\<lambda>s x. adv x s) (xm_queue ?m1) x) (xm_exporters ?m1), xm_queue := []\<rparr>, e')"
    by (rule Cons.hyps(1)) (use Cons.prems in simp_all)
  moreover have "drain_loop op (Suc (Suc (length rest))) m e = drain_loop op (Suc (length rest)) ?m1 e1"
    by (subst drain_loop.simps(2)) (simp only: step ex loop_step.case Let_def prod.case)
  ultimately show ?case
    using Cons.hyps(2) [symmetric] by (simp add: comp_def del: drain_loop.simps)
qed

section \<open>Properties\<close>

text \<open>
  \<^bold>\<open>C35\<close> The telemetry queue under any interleaving of producers and the export thread: it never holds
  more than its capacity, every sample is exported, dropped or still queued exactly once, what is
  exported comes out in the order it was enqueued, the queue holds the samples enqueued last, and \<open>droppedCount()\<close>
  counts the dropped samples (modulo \<open>2\<^sup>6\<^sup>4\<close>). A further sample is appended; exactly when the queue is full
  one is dropped, the oldest, or with capacity 0 the sample itself.
\<close>

theorem telemetry_queue_contract:
  fixes m' :: "'x TelemetryExportManager"
  assumes "fifo_run export_push export_pop ops (TelemetryExportManager_new cap) = (m', out, lost)"
  shows "queueSize m' \<le> cap \<and>
    mset (fifo_fed ops) = mset out + mset lost + mset (queued m') \<and>
    subseq (out @ queued m') (fifo_fed ops) \<and>
    droppedCount m' = of_nat (length lost) \<and>
    (\<exists>gone. fifo_fed ops = gone @ queued m') \<and>
    (\<forall>x. queued (enqueue (sample_of x) m') =
         (if cap = 0 then [] else if queueSize m' = cap then tl (queued m') @ [x] else queued m' @ [x]) \<and>
       droppedCount (enqueue (sample_of x) m') = droppedCount m' + (if queueSize m' = cap then 1 else 0))"
proof -
  let ?m = "TelemetryExportManager_new cap :: 'x TelemetryExportManager"
  have new: "xm_queue ?m = []" "xm_capacity ?m = cap" "xm_dropped_count ?m = 0"
    by (simp_all add: TelemetryExportManager_new_def)
  then have inv: "export_inv ?m" by (simp add: export_inv_def)
  have bound: "length (xm_queue m') \<le> cap" "xm_capacity m' = cap"
    using tq.run_bounded [OF assms inv] tq.run_invar [OF assms inv] new by simp_all
  have "\<exists>gone. fifo_fed ops = gone @ queued m'" using queue_newest [OF assms inv] new by simp
  moreover have "queued (enqueue (sample_of x) m') =
         (if cap = 0 then [] else if queueSize m' = cap then tl (queued m') @ [x] else queued m' @ [x]) \<and>
       droppedCount (enqueue (sample_of x) m') = droppedCount m' + (if queueSize m' = cap then 1 else 0)" for x
    unfolding queued_enqueue droppedCount_def dropped_enqueue queueSize_def using bound by auto
  ultimately show ?thesis
    using tq.run_conserve [OF assms inv] tq.run_order [OF assms inv] dropped_run [OF assms inv] new bound
    by (simp add: queueSize_def droppedCount_def)
qed

theorem telemetry_queue_contract_witness:
  "let (m', out, lost) = fifo_run export_push export_pop [Push (1, 1), Push (2, 2), Push (3, 3), Pop]
     (TelemetryExportManager_new 2 :: TelemetryExporter TelemetryExportManager)
   in out = [(2, 2)] \<and> lost = [(1, 1)] \<and> droppedCount m' = 1 \<and> queueSize m' \<le> 2"
proof -
  let ?ops = "[Push (1, 1), Push (2, 2), Push (3, 3), Pop] :: (u64 \<times> u64) fifo_op list"
  let ?m = "TelemetryExportManager_new 2 :: TelemetryExporter TelemetryExportManager"
  obtain m' out lost where r: "fifo_run export_push export_pop ?ops ?m = (m', out, lost)"
    by (cases "fifo_run export_push export_pop ?ops ?m")
  have "out = [(2, 2)]" "lost = [(1, 1)]"
    using r by (auto simp: export_push_def export_pop_def enqueue_def exportLoop_step_def TelemetryExportManager_new_def
        sample_of_def unstamp_def Let_def numeral_2_eq_2)
  moreover have "droppedCount m' = of_nat (length lost)" "queueSize m' \<le> 2"
    using telemetry_queue_contract [OF r] by blast+
  ultimately show ?thesis unfolding r Let_def prod.case by simp
qed

text \<open>
  Stopping loses no queued sample and a failing exporter harms no other: after \<open>stop\<close> an export
  loop that is awake, or is woken, ends after as many passes as there are queued samples (and one to notice that it is
  done) with an empty queue, and every exporter has received every queued sample in order, whether or
  not any exporter raised (\<open>adv\<close> is the effect of an export call on the exporter).
\<close>

theorem stop_drains_to_all_exporters:
  assumes "\<And>x s e. fst (snd (op x s e)) = adv x s"
  shows "\<exists>e'. drain_loop op (Suc (length (xm_queue m))) (snd (export_stop m)) e =
    Some (m\<lparr>xm_exporters := map (\<lambda>x. fold (\<lambda>s x. adv x s) (xm_queue m) x) (xm_exporters m), xm_queue := [],
            xm_running := False\<rparr>, e')"
  using drain_all [of op adv "snd (export_stop m)" e, OF assms]
  by (cases "xm_running m") (auto simp: export_stop_def)

theorem stop_drains_to_all_exporters_witness:
  "\<exists>m' e'. drain_loop (\<lambda>x s e. (if x = [] then ThrewUnknown else Exported, x @ [rm_tick_count s], e)) 3
     (snd (export_stop \<lparr>xm_exporters = [[], [7]], xm_queue = [sample_of (1, 1), sample_of (2, 2)],
        xm_capacity = 8, xm_dropped_count = 0, xm_running = True, xm_thread_joinable = True\<rparr>)) env_demo = Some (m', e') \<and>
     xm_exporters m' = [[1, 2], [7, 1, 2]]"
proof -
  let ?m = "\<lparr>xm_exporters = [[], [7]], xm_queue = [sample_of (1, 1), sample_of (2, 2)],
        xm_capacity = 8, xm_dropped_count = 0, xm_running = True, xm_thread_joinable = True\<rparr> :: u64 list TelemetryExportManager"
  have "\<exists>e'. drain_loop (\<lambda>x s e. (if x = [] then ThrewUnknown else Exported, x @ [rm_tick_count s], e))
      (Suc (length (xm_queue ?m))) (snd (export_stop ?m)) env_demo =
    Some (?m\<lparr>xm_exporters := map (\<lambda>x. fold (\<lambda>s x. x @ [rm_tick_count s]) (xm_queue ?m) x) (xm_exporters ?m),
       xm_queue := [], xm_running := False\<rparr>, e')"
    by (rule stop_drains_to_all_exporters) simp
  then show ?thesis by (auto simp: numeral_3_eq_3 sample_of_def simp del: drain_loop.simps)
qed

end
