(* ===== verification/Runtime_Status.thy ===== *)
theory Runtime_Status
  imports Rate_Smoother Packet_Stats Runtime_Health Telemetry_Export
begin

text \<open>
  The runtime's status: \<^verbatim>\<open>RuntimeStatus\<close> (runtime/RuntimeStatus.hpp), \<^verbatim>\<open>RuntimeStatusBuilder\<close>, which assembles it
  from the components, and \<^verbatim>\<open>SnapshotPublisher\<close>, through which the main thread hands snapshots to readers
  in other threads. A publication is two atomic steps, taking a version number and storing the
  snapshot; \<open>publisher_step\<close> interleaves them with loads.
\<close>

section \<open>Status\<close>

datatype RuntimeState = Booting | Running | Stopping

fun stateToString :: "RuntimeState \<Rightarrow> string" where
  "stateToString Booting = ''BOOTING''"
| "stateToString Running = ''RUNNING''"
| "stateToString Stopping = ''STOPPING''"

record RuntimeStatus =
  rst_metrics :: RuntimeMetrics
  rst_health :: HealthStatus
  rst_state :: RuntimeState
  rst_snapshot_timestamp_ms :: u64
  rst_snapshot_version :: u64
  rst_packet :: PacketMetrics

record RuntimeStatusBuilder =
  sb_rx_packet_rate :: WindowedEwmaRateSmoother
  sb_rx_bytes_rate :: WindowedEwmaRateSmoother

definition RuntimeStatusBuilder_new :: "RateSmootherConfig \<Rightarrow> RuntimeStatusBuilder" where
  "RuntimeStatusBuilder_new cfg =
     \<lparr>sb_rx_packet_rate = WindowedEwmaRateSmoother_new cfg, sb_rx_bytes_rate = WindowedEwmaRateSmoother_new cfg\<rparr>"

definition build ::
  "drop_order \<Rightarrow> Telemetry \<Rightarrow> HealthMonitor \<Rightarrow> PacketStats \<Rightarrow> RuntimeState \<Rightarrow> u64 \<Rightarrow> RuntimeStatusBuilder \<Rightarrow> env \<Rightarrow>
     RuntimeStatus \<times> RuntimeStatusBuilder \<times> env" where
  "build order telemetry healthMonitor packetStats state now_ms b e =
     (let raw_metrics = snapshotAt order packetStats;
          b = b\<lparr>sb_rx_packet_rate := observe (pm_rx_packets raw_metrics) now_ms (sb_rx_packet_rate b)\<rparr>;
          b = b\<lparr>sb_rx_bytes_rate := observe (pm_rx_bytes raw_metrics) now_ms (sb_rx_bytes_rate b)\<rparr>;
          packet_rate = ew_last_snapshot (sb_rx_packet_rate b);
          byte_rate = ew_last_snapshot (sb_rx_bytes_rate b);
          final_metrics = raw_metrics;
          final_metrics =
            (if rate_valid packet_rate
             then final_metrics\<lparr>pm_rx_packets_per_sec := smoothed_per_sec packet_rate,
                                pm_rx_packets_per_sec_raw := raw_per_sec packet_rate\<rparr>
             else final_metrics\<lparr>pm_rx_packets_per_sec := 0, pm_rx_packets_per_sec_raw := 0\<rparr>);
          final_metrics =
            (if rate_valid byte_rate
             then final_metrics\<lparr>pm_rx_bytes_per_sec := smoothed_per_sec byte_rate,
                                pm_rx_bytes_per_sec_raw := raw_per_sec byte_rate\<rparr>
             else final_metrics\<lparr>pm_rx_bytes_per_sec := 0, pm_rx_bytes_per_sec_raw := 0\<rparr>);
          (metrics, e) = telemetry_snapshot telemetry e;
          (health, e) = currentStatus healthMonitor e
      in (\<lparr>rst_metrics = metrics, rst_health = health, rst_state = state, rst_snapshot_timestamp_ms = now_ms,
           rst_snapshot_version = 0, rst_packet = final_metrics\<rparr>, b, e))"

section \<open>Snapshot publisher\<close>

record SnapshotPublisher =
  sp_version :: u64
  sp_snapshot :: "RuntimeStatus option"

definition SnapshotPublisher_new :: SnapshotPublisher where
  "SnapshotPublisher_new = \<lparr>sp_version = 0, sp_snapshot = None\<rparr>"

text \<open>The two atomic steps of \<open>publish\<close>, and the whole of it.\<close>

definition take_version :: "RuntimeStatus \<Rightarrow> SnapshotPublisher \<Rightarrow> RuntimeStatus \<times> SnapshotPublisher" where
  "take_version status p = (status\<lparr>rst_snapshot_version := sp_version p + 1\<rparr>, p\<lparr>sp_version := sp_version p + 1\<rparr>)"

definition store_snapshot :: "RuntimeStatus \<Rightarrow> SnapshotPublisher \<Rightarrow> SnapshotPublisher" where
  "store_snapshot status p = p\<lparr>sp_snapshot := Some status\<rparr>"

definition publish_snapshot :: "RuntimeStatus \<Rightarrow> SnapshotPublisher \<Rightarrow> u64 \<times> RuntimeStatus \<times> SnapshotPublisher" where
  "publish_snapshot status p =
     (let (status, p) = take_version status p in (rst_snapshot_version status, status, store_snapshot status p))"

definition load_snapshot :: "SnapshotPublisher \<Rightarrow> RuntimeStatus option" where
  "load_snapshot p = sp_snapshot p"

text \<open>The publisher with the snapshot its publishing thread is about to store, the snapshots stored and
  the answers of the loads so far.\<close>

record publishing =
  pb_publisher :: SnapshotPublisher
  pb_pending :: "RuntimeStatus option"
  pb_stored :: "RuntimeStatus list"
  pb_loaded :: "RuntimeStatus option list"

inductive publisher_step :: "publishing \<Rightarrow> publishing \<Rightarrow> bool" where
  step_take: "pb_pending s = None \<Longrightarrow> take_version status (pb_publisher s) = (status', p) \<Longrightarrow>
    publisher_step s (s\<lparr>pb_publisher := p, pb_pending := Some status'\<rparr>)"
| step_store: "pb_pending s = Some status \<Longrightarrow>
    publisher_step s (s\<lparr>pb_publisher := store_snapshot status (pb_publisher s), pb_pending := None,
      pb_stored := pb_stored s @ [status]\<rparr>)"
| step_load: "publisher_step s (s\<lparr>pb_loaded := pb_loaded s @ [load_snapshot (pb_publisher s)]\<rparr>)"

definition publisher_start :: "publishing \<Rightarrow> bool" where
  "publisher_start s \<longleftrightarrow> s = \<lparr>pb_publisher = SnapshotPublisher_new, pb_pending = None, pb_stored = [], pb_loaded = []\<rparr>"

section \<open>Lemmas\<close>

text \<open>The \<open>i\<close>-th snapshot a load can return, 0 standing for none.\<close>

definition nth_stored :: "RuntimeStatus list \<Rightarrow> nat \<Rightarrow> RuntimeStatus option" where
  "nth_stored stored i = (if i = 0 then None else Some (stored ! (i - 1)))"

definition publisher_inv :: "publishing \<Rightarrow> bool" where
  "publisher_inv s \<longleftrightarrow>
     map rst_snapshot_version (pb_stored s) = map of_nat [1..<Suc (length (pb_stored s))] \<and>
     sp_snapshot (pb_publisher s) = nth_stored (pb_stored s) (length (pb_stored s)) \<and>
     (case pb_pending s of
        None \<Rightarrow> sp_version (pb_publisher s) = of_nat (length (pb_stored s))
      | Some status \<Rightarrow> sp_version (pb_publisher s) = of_nat (Suc (length (pb_stored s))) \<and>
          rst_snapshot_version status = of_nat (Suc (length (pb_stored s)))) \<and>
     (\<exists>is. sorted is \<and> (\<forall>i \<in> set is. i \<le> length (pb_stored s)) \<and> pb_loaded s = map (nth_stored (pb_stored s)) is)"

lemma nth_stored_append: "i \<le> length xs \<Longrightarrow> nth_stored (xs @ ys) i = nth_stored xs i"
  by (auto simp: nth_stored_def nth_append)

lemma nth_stored_last: "nth_stored (xs @ [x]) (Suc (length xs)) = Some x"
  by (simp add: nth_stored_def)

lemma publisher_step_inv: "publisher_step s t \<Longrightarrow> publisher_inv s \<Longrightarrow> publisher_inv t"
proof (induction rule: publisher_step.induct)
  case (step_take s status status' p)
  then show ?case by (auto simp: publisher_inv_def take_version_def)
next
  case (step_store s status)
  let ?xs = "pb_stored s"
  from step_store obtain "is" where "is": "sorted is" "\<forall>i \<in> set is. i \<le> length ?xs" "pb_loaded s = map (nth_stored ?xs) is"
    by (auto simp: publisher_inv_def)
  then have "pb_loaded s = map (nth_stored (?xs @ [status])) is" by (simp add: nth_stored_append)
  moreover have "\<forall>i \<in> set is. i \<le> Suc (length ?xs)" using "is"(2) by (simp add: le_SucI)
  ultimately show ?case
    using step_store "is"(1) by (auto simp: publisher_inv_def store_snapshot_def nth_stored_last)
next
  case (step_load s)
  let ?n = "length (pb_stored s)"
  from step_load obtain "is" where "is": "sorted is" "\<forall>i \<in> set is. i \<le> ?n" "pb_loaded s = map (nth_stored (pb_stored s)) is"
    by (auto simp: publisher_inv_def)
  then have "sorted (is @ [?n])" "\<forall>i \<in> set (is @ [?n]). i \<le> ?n" by (auto simp: sorted_append)
  moreover have "pb_loaded s @ [load_snapshot (pb_publisher s)] = map (nth_stored (pb_stored s)) (is @ [?n])"
    using step_load "is"(3) by (simp add: publisher_inv_def load_snapshot_def)
  ultimately have "\<exists>js. sorted js \<and> (\<forall>i \<in> set js. i \<le> ?n) \<and>
      pb_loaded s @ [load_snapshot (pb_publisher s)] = map (nth_stored (pb_stored s)) js" by blast
  then show ?case using step_load by (cases "pb_pending s") (simp_all add: publisher_inv_def del: upt_Suc)
qed

interpretation snapshots: transition_system publisher_start publisher_step publisher_inv
proof
  show "publisher_start s \<Longrightarrow> publisher_inv s" for s
    by (auto simp: publisher_start_def publisher_inv_def SnapshotPublisher_new_def nth_stored_def)
qed (rule publisher_step_inv)

section \<open>Properties\<close>

text \<open>
  \<^bold>\<open>C25\<close> Readers never go back in time: under any interleaving of the publishing thread with loads, the \<open>n\<close>-th
  snapshot stored carries version \<open>n\<close>, every load returns a snapshot that was stored (nothing before the first),
  whole and with its own version, and the snapshots successive loads return are never older ones; the counter
  is at most the one version being published ahead.
\<close>

theorem snapshots_never_go_back:
  assumes "publisher_start s" and "publisher_step\<^sup>*\<^sup>* s t"
  shows "map rst_snapshot_version (pb_stored t) = map of_nat [1..<Suc (length (pb_stored t))] \<and>
    (\<exists>is. sorted is \<and> (\<forall>i \<in> set is. i \<le> length (pb_stored t)) \<and>
       pb_loaded t = map (\<lambda>i. if i = 0 then None else Some (pb_stored t ! (i - 1))) is) \<and>
    load_snapshot (pb_publisher t) = (if pb_stored t = [] then None else Some (last (pb_stored t))) \<and>
    sp_version (pb_publisher t) = of_nat (length (pb_stored t) + (if pb_pending t = None then 0 else 1))"
proof -
  have inv: "publisher_inv t" by (rule snapshots.reachable_invariant [OF assms])
  have "nth_stored xs = (\<lambda>i. if i = 0 then None else Some (xs ! (i - 1)))" for xs
    by (simp add: nth_stored_def fun_eq_iff)
  with inv show ?thesis
    by (auto simp: publisher_inv_def load_snapshot_def last_conv_nth split: option.splits)
qed

definition status_demo :: RuntimeStatus where
  "status_demo =
     \<lparr>rst_metrics = \<lparr>rm_uptime_ms = 100, rm_tick_count = 1, rm_telemetry_queue_size = 0, rm_telemetry_dropped_samples = 0\<rparr>,
      rst_health = \<lparr>hs_uptime_ms = 100, hs_last_heartbeat_ms = 100, hs_silence_duration_ms = 0, hs_is_alive = True\<rparr>,
      rst_state = Running, rst_snapshot_timestamp_ms = 100, rst_snapshot_version = 0,
      rst_packet = snapshotAt (\<lambda>xs. xs) PacketStats_new\<rparr>"

definition publishing_demo :: publishing where
  "publishing_demo = \<lparr>pb_publisher = SnapshotPublisher_new, pb_pending = None, pb_stored = [], pb_loaded = []\<rparr>"

theorem snapshots_never_go_back_witness:
  "let s1 = publishing_demo\<lparr>pb_publisher := \<lparr>sp_version = 1, sp_snapshot = None\<rparr>,
              pb_pending := Some (status_demo\<lparr>rst_snapshot_version := 1\<rparr>)\<rparr>;
       s2 = s1\<lparr>pb_publisher := store_snapshot (status_demo\<lparr>rst_snapshot_version := 1\<rparr>) (pb_publisher s1), pb_pending := None,
               pb_stored := [status_demo\<lparr>rst_snapshot_version := 1\<rparr>]\<rparr>
   in load_snapshot (pb_publisher s2) = Some (status_demo\<lparr>rst_snapshot_version := 1\<rparr>) \<and> sp_version (pb_publisher s2) = 1"
proof -
  let ?st = "status_demo\<lparr>rst_snapshot_version := 1\<rparr>"
  let ?s1 = "publishing_demo\<lparr>pb_publisher := \<lparr>sp_version = 1, sp_snapshot = None\<rparr>, pb_pending := Some ?st\<rparr>"
  let ?s2 = "?s1\<lparr>pb_publisher := store_snapshot ?st (pb_publisher ?s1), pb_pending := None, pb_stored := [?st]\<rparr>"
  have "publisher_step publishing_demo ?s1"
    by (rule step_take [of _ status_demo]) (simp_all add: publishing_demo_def take_version_def SnapshotPublisher_new_def)
  moreover have "publisher_step ?s1 ?s2"
    using step_store [of ?s1 ?st] by (simp add: publishing_demo_def)
  ultimately have "publisher_step\<^sup>*\<^sup>* publishing_demo ?s2"
    by (meson r_into_rtranclp rtranclp.rtrancl_into_rtrancl)
  then have "load_snapshot (pb_publisher ?s2) = Some ?st \<and> sp_version (pb_publisher ?s2) = 1"
    using snapshots_never_go_back [of publishing_demo ?s2] by (simp add: publisher_start_def publishing_demo_def)
  then show ?thesis unfolding Let_def .
qed

text \<open>
  The status reports what the components say: every packet figure except the four rates is the
  one of the statistics' snapshot, the rates are those of the two smoothers after seeing the new counters (zero
  while no window has closed), telemetry and health are read at that moment, and only the smoothers and the
  clock change.
\<close>

theorem build_reports_components:
  "\<exists>b' e'. build order telemetry health stats state now b e =
     (\<lparr>rst_metrics = fst (telemetry_snapshot telemetry e),
       rst_health = fst (currentStatus health (snd (telemetry_snapshot telemetry e))),
       rst_state = state, rst_snapshot_timestamp_ms = now, rst_snapshot_version = 0,
       rst_packet = (snapshotAt order stats)
         \<lparr>pm_rx_packets_per_sec := (if rate_valid (ew_last_snapshot (sb_rx_packet_rate b')) then smoothed_per_sec (ew_last_snapshot (sb_rx_packet_rate b')) else 0),
          pm_rx_packets_per_sec_raw := (if rate_valid (ew_last_snapshot (sb_rx_packet_rate b')) then raw_per_sec (ew_last_snapshot (sb_rx_packet_rate b')) else 0),
          pm_rx_bytes_per_sec := (if rate_valid (ew_last_snapshot (sb_rx_bytes_rate b')) then smoothed_per_sec (ew_last_snapshot (sb_rx_bytes_rate b')) else 0),
          pm_rx_bytes_per_sec_raw := (if rate_valid (ew_last_snapshot (sb_rx_bytes_rate b')) then raw_per_sec (ew_last_snapshot (sb_rx_bytes_rate b')) else 0)\<rparr>\<rparr>, b', e') \<and>
     sb_rx_packet_rate b' = observe (ps_rx_packets stats) now (sb_rx_packet_rate b) \<and>
     sb_rx_bytes_rate b' = observe (ps_rx_bytes stats) now (sb_rx_bytes_rate b) \<and>
     e' = e\<lparr>ms_reads := ms_reads e + 2\<rparr>"
  by (auto simp: build_def Let_def telemetry_snapshot_def currentStatus_def nowMs_def snapshotAt_def)

end
