(* ===== verification/Mac_Table.thy ===== *)
theory Mac_Table
  imports Mac_Address
begin

text \<open>
  \<^verbatim>\<open>MacTable\<close> (switching/MacTable.hpp, MacTable.cpp, MacTableEntry.hpp): the bounded table of learned
  source addresses. The entries are a \<^verbatim>\<open>std::map\<close> keyed by address. \<open>learn\<close> refines an abstract
  learning step on finite maps (\<open>learn_spec\<close>), which evicts the least recently seen entry of a full
  table, the smallest address among ties. The interface the forwarding engine relies on is the
  locale \<open>learning_table\<close>.
\<close>

section \<open>Definitions\<close>

record MacTableEntry =
  mte_mac :: MacAddress
  mte_port_id :: u32
  mte_last_seen_tick :: u64

record MacTable =
  mt_capacity :: nat
  mt_entries :: "(MacAddress, MacTableEntry) omap"

definition MacTable_new :: "nat \<Rightarrow> MacTable" where
  "MacTable_new capacity = \<lparr>mt_capacity = capacity, mt_entries = []\<rparr>"

text \<open>The scan of \<open>learn\<close> for the entry to evict: the first one with the smallest tick.\<close>

fun find_oldest :: "MacAddress \<times> MacTableEntry \<Rightarrow> (MacAddress \<times> MacTableEntry) list
    \<Rightarrow> MacAddress \<times> MacTableEntry" where
  "find_oldest oldest [] = oldest"
| "find_oldest oldest (candidate # rest) =
     find_oldest (if mte_last_seen_tick (snd candidate) < mte_last_seen_tick (snd oldest)
                  then candidate else oldest) rest"

definition evict_oldest :: "(MacAddress, MacTableEntry) omap \<Rightarrow> (MacAddress, MacTableEntry) omap" where
  "evict_oldest es =
     (case es of [] \<Rightarrow> [] | e # _ \<Rightarrow> omap_erase (fst (find_oldest e es)) es)"

definition learn :: "MacAddress \<Rightarrow> u32 \<Rightarrow> u64 \<Rightarrow> MacTable \<Rightarrow> MacTable" where
  "learn mac port_id tick t =
     (if mt_capacity t = 0 then t
      else case map_of (mt_entries t) mac of
        Some e \<Rightarrow>
          t\<lparr>mt_entries := omap_assign mac
              (e\<lparr>mte_port_id := port_id, mte_last_seen_tick := tick\<rparr>) (mt_entries t)\<rparr>
      | None \<Rightarrow>
          let es = (if length (mt_entries t) \<ge> mt_capacity t then evict_oldest (mt_entries t)
                    else mt_entries t)
          in t\<lparr>mt_entries := omap_emplace mac
              \<lparr>mte_mac = mac, mte_port_id = port_id, mte_last_seen_tick = tick\<rparr> es\<rparr>)"

definition lookup :: "MacTable \<Rightarrow> MacAddress \<Rightarrow> u32 option" where
  "lookup t mac = (case map_of (mt_entries t) mac of None \<Rightarrow> None | Some e \<Rightarrow> Some (mte_port_id e))"

text \<open>The age is an unsigned 64-bit difference, so it wraps when the entry is newer than the clock.\<close>

fun ageOut_loop :: "u64 \<Rightarrow> u64 \<Rightarrow> (MacAddress, MacTableEntry) omap \<Rightarrow> (MacAddress, MacTableEntry) omap" where
  "ageOut_loop current_tick max_age [] = []"
| "ageOut_loop current_tick max_age (e # es) =
     (if current_tick - mte_last_seen_tick (snd e) > max_age
      then ageOut_loop current_tick max_age es
      else e # ageOut_loop current_tick max_age es)"

definition ageOut :: "u64 \<Rightarrow> u64 \<Rightarrow> MacTable \<Rightarrow> MacTable" where
  "ageOut current_tick max_age t =
     t\<lparr>mt_entries := ageOut_loop current_tick max_age (mt_entries t)\<rparr>"

definition mt_snapshot :: "MacTable \<Rightarrow> MacTableEntry list" where
  "mt_snapshot t = map snd (mt_entries t)"

definition mt_size :: "MacTable \<Rightarrow> nat" where
  "mt_size t = length (mt_entries t)"

section \<open>Invariant\<close>

definition mt_inv :: "MacTable \<Rightarrow> bool" where
  "mt_inv t \<longleftrightarrow> omap_wf (mt_entries t) \<and> length (mt_entries t) \<le> mt_capacity t
     \<and> (\<forall>(k, e) \<in> set (mt_entries t). mte_mac e = k)"

text \<open>The abstract view: address to port and tick.\<close>

definition mac_view :: "MacTable \<Rightarrow> MacAddress \<rightharpoonup> u32 \<times> u64" where
  "mac_view t = (\<lambda>m. map_option (\<lambda>e. (mte_port_id e, mte_last_seen_tick e)) (map_of (mt_entries t) m))"

text \<open>
  Learning on the abstract view: an unknown address in a full table replaces the entry that is
  first in the order by tick, then address.
\<close>

definition seen_before :: "(MacAddress \<rightharpoonup> u32 \<times> u64) \<Rightarrow> MacAddress \<Rightarrow> bool" where
  "seen_before v victim \<longleftrightarrow> (\<exists>q s. v victim = Some (q, s) \<and>
     (\<forall>m' q' s'. v m' = Some (q', s') \<longrightarrow> s < s' \<or> s = s' \<and> victim \<le> m'))"

definition learn_spec :: "nat \<Rightarrow> MacAddress \<Rightarrow> u32 \<Rightarrow> u64 \<Rightarrow> (MacAddress \<rightharpoonup> u32 \<times> u64)
    \<Rightarrow> (MacAddress \<rightharpoonup> u32 \<times> u64) \<Rightarrow> bool" where
  "learn_spec capacity mac p tick v v' \<longleftrightarrow>
     (if capacity = 0 then v' = v
      else if v mac \<noteq> None \<or> card (dom v) < capacity then v' = v(mac \<mapsto> (p, tick))
      else \<exists>victim. seen_before v victim \<and> v' = v(victim := None, mac \<mapsto> (p, tick)))"

section \<open>The eviction scan\<close>

lemma find_oldest_min:
  assumes "omap_wf (e # es)"
  shows "find_oldest e es \<in> set (e # es) \<and>
    (\<forall>x \<in> set (e # es). mte_last_seen_tick (snd (find_oldest e es)) < mte_last_seen_tick (snd x) \<or>
       mte_last_seen_tick (snd (find_oldest e es)) = mte_last_seen_tick (snd x) \<and>
       fst (find_oldest e es) \<le> fst x)"
  using assms
proof (induction es arbitrary: e)
  case (Cons c cs)
  show ?case
  proof (cases "mte_last_seen_tick (snd c) < mte_last_seen_tick (snd e)")
    case True
    have "omap_wf (c # cs)" using Cons.prems by simp
    from Cons.IH [OF this] True show ?thesis by force
  next
    case False
    have wf: "omap_wf (e # cs)" and "fst e < fst c" using Cons.prems by auto
    with Cons.IH [OF wf] False show ?thesis by force
  qed
qed simp

lemma find_oldest_self: "find_oldest e (e # es) = find_oldest e es"
  by simp

lemma evict_oldest_erases:
  assumes "omap_wf es" and "es \<noteq> []"
  obtains k e where "map_of es k = Some e" "evict_oldest es = omap_erase k es"
    and "\<And>k' e'. map_of es k' = Some e' \<Longrightarrow>
           mte_last_seen_tick e < mte_last_seen_tick e' \<or>
           mte_last_seen_tick e = mte_last_seen_tick e' \<and> k \<le> k'"
proof -
  obtain x xs where es: "es = x # xs" using assms(2) by (cases es) auto
  obtain k e where old: "find_oldest x xs = (k, e)" by (cases "find_oldest x xs") auto
  have min: "(k, e) \<in> set es"
    "\<forall>y \<in> set es. mte_last_seen_tick e < mte_last_seen_tick (snd y) \<or>
       mte_last_seen_tick e = mte_last_seen_tick (snd y) \<and> k \<le> fst y"
    using find_oldest_min [of x xs] assms(1) es old by auto
  have "map_of es k = Some e" using min(1) omap_wf_distinct [OF assms(1)] by simp
  moreover have "evict_oldest es = omap_erase k es"
    using old es by (simp add: evict_oldest_def)
  moreover have "mte_last_seen_tick e < mte_last_seen_tick e' \<or>
      mte_last_seen_tick e = mte_last_seen_tick e' \<and> k \<le> k'" if "map_of es k' = Some e'" for k' e'
    using min(2) map_of_SomeD [OF that] by force
  ultimately show ?thesis by (rule that)
qed

section \<open>Learning\<close>

lemma dom_mac_view: "dom (mac_view t) = dom (map_of (mt_entries t))"
  by (auto simp: mac_view_def)

lemma card_mac_view: "mt_inv t \<Longrightarrow> card (dom (mac_view t)) = length (mt_entries t)"
  by (simp add: dom_mac_view mt_inv_def om.size_card)

lemma mac_view_update:
  "map_of es = (map_of (mt_entries t))(k := None, m \<mapsto> e) \<Longrightarrow>
     mac_view (t\<lparr>mt_entries := es\<rparr>) = (mac_view t)(k := None, m \<mapsto> (mte_port_id e, mte_last_seen_tick e))"
  by (auto simp: mac_view_def fun_eq_iff)

lemma mac_view_update1:
  "map_of es = (map_of (mt_entries t))(m \<mapsto> e) \<Longrightarrow>
     mac_view (t\<lparr>mt_entries := es\<rparr>) = (mac_view t)(m \<mapsto> (mte_port_id e, mte_last_seen_tick e))"
  by (auto simp: mac_view_def fun_eq_iff)

text \<open>The eviction branch of \<open>learn\<close>: the victim, the new entries and their number.\<close>

lemma learn_full:
  assumes "mt_inv t" and "mt_capacity t \<noteq> 0" and "map_of (mt_entries t) mac = None"
    and "mt_capacity t \<le> length (mt_entries t)"
  obtains k es where "seen_before (mac_view t) k"
    and "learn mac p tick t = t\<lparr>mt_entries := es\<rparr>"
    and "map_of es = (map_of (mt_entries t))(k := None, mac \<mapsto> \<lparr>mte_mac = mac, mte_port_id = p, mte_last_seen_tick = tick\<rparr>)"
    and "length es = length (mt_entries t)" and "omap_wf es"
proof -
  have wf: "omap_wf (mt_entries t)" and ne: "mt_entries t \<noteq> []"
    using assms by (auto simp: mt_inv_def)
  obtain k e where k: "map_of (mt_entries t) k = Some e"
    "evict_oldest (mt_entries t) = omap_erase k (mt_entries t)"
    and min: "\<And>k' e'. map_of (mt_entries t) k' = Some e' \<Longrightarrow>
           mte_last_seen_tick e < mte_last_seen_tick e' \<or>
           mte_last_seen_tick e = mte_last_seen_tick e' \<and> k \<le> k'"
    using evict_oldest_erases [OF wf ne] by metis
  let ?n = "\<lparr>mte_mac = mac, mte_port_id = p, mte_last_seen_tick = tick\<rparr>"
  let ?es = "omap_emplace mac ?n (omap_erase k (mt_entries t))"
  have "seen_before (mac_view t) k"
    using k(1) min by (auto simp: seen_before_def mac_view_def)
  moreover have "learn mac p tick t = t\<lparr>mt_entries := ?es\<rparr>"
    using assms k(2) by (simp add: learn_def Let_def)
  moreover have "map_of ?es = (map_of (mt_entries t))(k := None, mac \<mapsto> ?n)"
    using om.evict_then_emplace(2) [OF wf, of k mac ?n] k(1) assms(3) by simp
  moreover have "length ?es = length (mt_entries t)"
    using om.evict_then_emplace(1) [OF wf, of k mac ?n] k(1) assms(3) by simp
  moreover have "omap_wf ?es"
    using wf by (simp add: om.wf_emplace om.wf_erase)
  ultimately show ?thesis by (rule that)
qed

lemma learn_known:
  assumes "map_of (mt_entries t) mac = Some e" and "mt_capacity t \<noteq> 0"
  shows "learn mac p tick t = t\<lparr>mt_entries := omap_assign mac
    (e\<lparr>mte_port_id := p, mte_last_seen_tick := tick\<rparr>) (mt_entries t)\<rparr>"
  using assms by (simp add: learn_def)

lemma learn_room:
  assumes "map_of (mt_entries t) mac = None" and "length (mt_entries t) < mt_capacity t"
  shows "learn mac p tick t = t\<lparr>mt_entries := omap_assign mac
    \<lparr>mte_mac = mac, mte_port_id = p, mte_last_seen_tick = tick\<rparr> (mt_entries t)\<rparr>"
  using assms by (simp add: learn_def omap_emplace_def)

lemma learn_disabled: "mt_capacity t = 0 \<Longrightarrow> learn mac p tick t = t"
  by (simp add: learn_def)

lemma capacity_learn [simp]: "mt_capacity (learn mac p tick t) = mt_capacity t"
  by (simp add: learn_def Let_def split: option.split)

lemma learn_refines: "mt_inv t \<Longrightarrow>
  learn_spec (mt_capacity t) mac p tick (mac_view t) (mac_view (learn mac p tick t))"
proof -
  assume inv: "mt_inv t"
  have wf: "omap_wf (mt_entries t)" using inv by (simp add: mt_inv_def)
  have card: "card (dom (mac_view t)) = length (mt_entries t)" by (rule card_mac_view [OF inv])
  consider "mt_capacity t = 0"
    | e where "mt_capacity t \<noteq> 0" "map_of (mt_entries t) mac = Some e"
    | "length (mt_entries t) < mt_capacity t" "map_of (mt_entries t) mac = None"
    | "mt_capacity t \<noteq> 0" "mt_capacity t \<le> length (mt_entries t)" "map_of (mt_entries t) mac = None"
    by (cases "map_of (mt_entries t) mac") force+
  then show ?thesis
  proof cases
    case 1
    then show ?thesis by (simp add: learn_spec_def learn_disabled)
  next
    case (2 e)
    then have "mac_view t mac \<noteq> None" by (simp add: mac_view_def)
    with 2 wf show ?thesis
      by (simp add: learn_spec_def learn_known [OF 2(2,1)] om.find_assign mac_view_update1)
  next
    case 3
    with wf card show ?thesis
      by (simp add: learn_spec_def learn_room om.find_assign mac_view_update1)
  next
    case 4
    obtain k es where es: "seen_before (mac_view t) k" "learn mac p tick t = t\<lparr>mt_entries := es\<rparr>"
      "map_of es = (map_of (mt_entries t))(k := None, mac \<mapsto> \<lparr>mte_mac = mac, mte_port_id = p, mte_last_seen_tick = tick\<rparr>)"
      by (rule learn_full [OF inv 4(1,3,2)])
    have "mac_view t mac = None" using 4 by (simp add: mac_view_def)
    with 4 card es show ?thesis by (auto simp: learn_spec_def mac_view_update [OF es(3)])
  qed
qed

section \<open>The invariant is kept\<close>

lemma mt_inv_new [inv_intros]: "mt_inv (MacTable_new n)"
  by (simp add: mt_inv_def MacTable_new_def)

lemma mt_inv_alt: "mt_inv t \<longleftrightarrow> omap_wf (mt_entries t) \<and> length (mt_entries t) \<le> mt_capacity t
     \<and> (\<forall>k e. map_of (mt_entries t) k = Some e \<longrightarrow> mte_mac e = k)"
  by (auto simp: mt_inv_def dest: map_of_SomeD omap_wf_distinct)

lemma mt_inv_learn [inv_intros]:
  assumes inv: "mt_inv t"
  shows "mt_inv (learn mac p tick t)"
proof -
  have wf: "omap_wf (mt_entries t)" using inv by (simp add: mt_inv_def)
  consider "mt_capacity t = 0"
    | e where "mt_capacity t \<noteq> 0" "map_of (mt_entries t) mac = Some e"
    | "length (mt_entries t) < mt_capacity t" "map_of (mt_entries t) mac = None"
    | "mt_capacity t \<noteq> 0" "mt_capacity t \<le> length (mt_entries t)" "map_of (mt_entries t) mac = None"
    by (cases "map_of (mt_entries t) mac") force+
  then show ?thesis
  proof cases
    case 1
    then show ?thesis using inv by (simp add: learn_disabled)
  next
    case (2 e)
    then show ?thesis using inv wf
      by (auto simp: learn_known mt_inv_alt om.find_assign om.wf_assign om.size_assign)
  next
    case 3
    then show ?thesis using inv wf
      by (auto simp: learn_room mt_inv_alt om.find_assign om.wf_assign om.size_assign)
  next
    case 4
    obtain k es where "learn mac p tick t = t\<lparr>mt_entries := es\<rparr>"
      "map_of es = (map_of (mt_entries t))(k := None, mac \<mapsto> \<lparr>mte_mac = mac, mte_port_id = p, mte_last_seen_tick = tick\<rparr>)"
      "length es = length (mt_entries t)" "omap_wf es"
      by (rule learn_full [OF inv 4(1,3,2)])
    then show ?thesis using inv by (auto simp: mt_inv_alt)
  qed
qed

lemma ageOut_filter: "ageOut_loop now age es =
    filter (\<lambda>e. now - mte_last_seen_tick (snd e) \<le> age) es"
  by (induction es) auto

lemma mt_inv_ageOut [inv_intros]: "mt_inv t \<Longrightarrow> mt_inv (ageOut now age t)"
  by (auto simp: mt_inv_def ageOut_def ageOut_filter omap_wf_filter intro: le_trans [OF length_filter_le])

lemma map_of_filter_wf:
  assumes "omap_wf m"
  shows "map_of (filter P m) k =
    (case map_of m k of None \<Rightarrow> None | Some v \<Rightarrow> if P (k, v) then Some v else None)"
  using assms
proof (induction m)
  case (Cons e m)
  have "map_of m (fst e) = None"
    using Cons.prems by (auto simp: map_of_eq_None_iff)
  with Cons show ?case by (cases e) (auto split: option.split)
qed simp

lemma ageOut_view: "mt_inv t \<Longrightarrow> mac_view (ageOut now age t) m =
    (case mac_view t m of None \<Rightarrow> None | Some (p, s) \<Rightarrow> if now - s \<le> age then Some (p, s) else None)"
  by (auto simp: mac_view_def ageOut_def ageOut_filter mt_inv_def map_of_filter_wf split: option.split)

lemma lookup_view: "lookup t m = map_option fst (mac_view t m)"
  by (simp add: lookup_def mac_view_def option.map_comp comp_def split: option.split)

section \<open>The interface of a learning table\<close>

text \<open>
  What the forwarding engine relies on: a learned address is found at the port it was learned on,
  and learning one address neither invents nor moves another.
\<close>

locale learning_table =
  fixes inv :: "'t \<Rightarrow> bool"
    and enabled :: "'t \<Rightarrow> bool"
    and learn_at :: "'m \<Rightarrow> 'p \<Rightarrow> 'k \<Rightarrow> 't \<Rightarrow> 't"
    and port_of :: "'t \<Rightarrow> 'm \<Rightarrow> 'p option"
  assumes inv_learn: "inv t \<Longrightarrow> inv (learn_at m p k t)"
    and enabled_learn: "enabled (learn_at m p k t) = enabled t"
    and port_of_learned: "inv t \<Longrightarrow> enabled t \<Longrightarrow> port_of (learn_at m p k t) m = Some p"
    and port_of_other: "inv t \<Longrightarrow> m' \<noteq> m \<Longrightarrow> port_of (learn_at m p k t) m' = Some q \<Longrightarrow>
          port_of t m' = Some q"
    and disabled: "\<not> enabled t \<Longrightarrow> learn_at m p k t = t"
begin

lemma inv_learns: "inv t \<Longrightarrow> inv (fold (\<lambda>(m, p, k). learn_at m p k) ls t)"
  by (induction ls arbitrary: t) (auto simp: inv_learn)

text \<open>After any sequence of learning steps a port that is found is the last one learned.\<close>

lemma last_learned_wins:
  "inv t \<Longrightarrow> enabled t \<Longrightarrow> port_of (fold (\<lambda>(m, p, k). learn_at m p k) ls t) m = Some q \<Longrightarrow>
     map_of (rev (map (\<lambda>(m, p, k). (m, p)) ls)) m = Some q \<or>
     m \<notin> fst ` set ls \<and> port_of t m = Some q"
proof (induction ls arbitrary: q rule: rev_induct)
  case (snoc l ls)
  obtain m' p k where l: "l = (m', p, k)" by (cases l)
  let ?t = "fold (\<lambda>(m, p, k). learn_at m p k) ls t"
  have inv: "inv ?t" by (rule inv_learns [OF snoc.prems(1)])
  have en: "enabled (fold (\<lambda>(m, p, k). learn_at m p k) ls t')" if "enabled t'" for t'
    using that by (induction ls arbitrary: t') (auto simp: enabled_learn)
  show ?case
  proof (cases "m = m'")
    case True
    then have "q = p"
      using snoc.prems(3) l port_of_learned [OF inv en [OF snoc.prems(2)], of m' p k] by simp
    with True l show ?thesis by simp
  next
    case False
    then have "port_of ?t m = Some q"
      using snoc.prems(3) l port_of_other [OF inv False, of p k q] by simp
    from snoc.IH [OF snoc.prems(1,2) this] False l show ?thesis by auto
  qed
qed simp

end

lemma learn_spec_port:
  assumes "learn_spec c m p k v v'" and "c \<noteq> 0"
  shows "v' m = Some (p, k)" and "m' \<noteq> m \<Longrightarrow> v' m' = Some x \<Longrightarrow> v m' = Some x"
  using assms by (auto simp: learn_spec_def split: if_splits)

interpretation mt: learning_table mt_inv "\<lambda>t. mt_capacity t \<noteq> 0" learn lookup
proof unfold_locales
  show "mt_inv t \<Longrightarrow> mt_inv (learn m p k t)" for t m p k by (rule mt_inv_learn)
  show "mt_inv t \<Longrightarrow> mt_capacity t \<noteq> 0 \<Longrightarrow> lookup (learn m p k t) m = Some p" for t m p k
    using learn_spec_port(1) [OF learn_refines] by (simp add: lookup_view)
  show "mt_inv t \<Longrightarrow> m' \<noteq> m \<Longrightarrow> lookup (learn m p k t) m' = Some q \<Longrightarrow> lookup t m' = Some q"
    for t m' m p k q
    using learn_spec_port(2) [OF learn_refines [of t m p k], of m']
    by (cases "mt_capacity t = 0") (auto simp: lookup_view learn_disabled)
qed (simp_all add: learn_disabled)

text \<open>Learning another address does not move a learned one unless it has to evict.\<close>

lemma learned_port_survives:
  assumes inv: "mt_inv t" and cap: "mt_capacity t \<noteq> 0" and ne: "b \<noteq> a"
    and room: "lookup (learn a i tick t) b \<noteq> None \<or> mt_size (learn a i tick t) < mt_capacity (learn a i tick t)"
  shows "lookup (learn b j tick' (learn a i tick t)) a = Some i"
proof -
  let ?t = "learn a i tick t"
  have inv1: "mt_inv ?t" by (rule mt_inv_learn [OF inv])
  have "lookup ?t a = Some i" by (rule mt.port_of_learned [OF inv cap])
  then have view: "map_option fst (mac_view ?t a) = Some i" by (simp add: lookup_view)
  have "mac_view (learn b j tick' ?t) a = mac_view ?t a"
    using learn_refines [OF inv1, of b j tick'] room ne cap card_mac_view [OF inv1]
    by (auto simp: learn_spec_def mt_size_def lookup_view split: if_splits)
  then show ?thesis using view by (simp add: lookup_view)
qed

section \<open>Properties\<close>

text \<open>
  \<^bold>\<open>C34\<close> Learning keeps the table's invariant (entries ordered by address, filed under their own
  address, at most \<open>capacity\<close> of them) and implements the abstract learning step: nothing at
  capacity zero; a known address is rebound; an unknown one is added while there is room; in a full
  table it replaces exactly the entry with the smallest \<open>last_seen_tick\<close>, the smallest address among
  ties.
\<close>

theorem learn_implements_spec:
  assumes "mt_inv t"
  shows "mt_inv (learn mac p tick t) \<and>
    learn_spec (mt_capacity t) mac p tick (mac_view t) (mac_view (learn mac p tick t))"
  using mt_inv_learn [OF assms] learn_refines [OF assms] by simp

definition mac_a :: MacAddress where "mac_a = MacAddress 0xAA 0xAA 0xAA 0xAA 0xAA 0xAA"
definition mac_b :: MacAddress where "mac_b = MacAddress 0xBB 0xBB 0xBB 0xBB 0xBB 0xBB"
definition mac_c :: MacAddress where "mac_c = MacAddress 0xCC 0xCC 0xCC 0xCC 0xCC 0xCC"

definition full_table :: MacTable where
  "full_table = learn mac_b 2 7 (learn mac_a 1 7 (MacTable_new 2))"

theorem learn_implements_spec_witness:
  "mt_inv full_table \<and>
   learn_spec 2 mac_c 3 9 (mac_view full_table) (mac_view (learn mac_c 3 9 full_table)) \<and>
   map fst (mt_entries (learn mac_c 3 9 full_table)) = [mac_b, mac_c]"
proof -
  have inv: "mt_inv full_table"
    unfolding full_table_def by (intro inv_intros)
  have "mt_capacity full_table = 2" by (simp add: full_table_def MacTable_new_def)
  moreover have "map fst (mt_entries (learn mac_c 3 9 full_table)) = [mac_b, mac_c]"
    by code_simp
  ultimately show ?thesis
    using inv learn_implements_spec [OF inv, of mac_c 3 9] by simp
qed

text \<open>
  No stale or invented route: whatever sequence of source addresses a non-empty-capacity table
  has learned, a lookup that succeeds returns the port on which that very address was learned most
  recently.
\<close>

theorem lookup_latest_port:
  assumes "0 < n"
    and "lookup (fold (\<lambda>(m, p, k). learn m p k) ls (MacTable_new n)) m = Some q"
  shows "map_of (rev (map (\<lambda>(m, p, k). (m, p)) ls)) m = Some q"
proof -
  have "lookup (MacTable_new n) m \<noteq> Some q" by (simp add: lookup_def MacTable_new_def)
  then show ?thesis
    using mt.last_learned_wins [OF mt_inv_new _ assms(2)] assms(1) by (simp add: MacTable_new_def)
qed

theorem lookup_latest_port_witness:
  "lookup (fold (\<lambda>(m, p, k). learn m p k) [(mac_a, 1, 10), (mac_b, 2, 11), (mac_a, 3, 12)] (MacTable_new 4)) mac_a
     = Some 3 \<and>
   map_of (rev (map (\<lambda>(m, p, k). (m, p)) [(mac_a, 1 :: u32, 10 :: u64), (mac_b, 2, 11), (mac_a, 3, 12)])) mac_a = Some 3"
proof -
  have found: "lookup (fold (\<lambda>(m, p, k). learn m p k) [(mac_a, 1, 10), (mac_b, 2, 11), (mac_a, 3, 12)] (MacTable_new 4)) mac_a
     = Some 3"
    by code_simp
  show ?thesis using found lookup_latest_port [OF _ found] by simp
qed

text \<open>
  Ageing keeps an entry exactly when its age does not exceed \<open>max_age\<close>, where the age is the
  64-bit difference: \<open>now - s\<close> for an entry seen at \<open>s \<le> now\<close> (the limit itself is retained), and
  \<open>2\<^sup>6\<^sup>4 - (s - now)\<close> for an entry whose tick lies ahead of the clock. Ports and ticks of kept entries do not
  change.
\<close>

theorem ageOut_keeps_iff_young:
  assumes "mt_inv t"
  shows "mac_view (ageOut now max_age t) m =
    (case mac_view t m of
       None \<Rightarrow> None
     | Some (p, s) \<Rightarrow>
         if (if s \<le> now then unat now - unat s else 2 ^ 64 - (unat s - unat now)) \<le> unat max_age
         then Some (p, s) else None)"
proof -
  have age: "(now - s \<le> max_age) =
      ((if s \<le> now then unat now - unat s else 2 ^ 64 - (unat s - unat now)) \<le> unat max_age)" for s
    using u64_bound [of s] by (auto simp: word_le_nat_alt unat_sub_if')
  show ?thesis
    by (simp add: ageOut_view [OF assms] age split: option.split prod.split)
qed

theorem ageOut_keeps_iff_young_witness:
  "mac_view (ageOut 100 20 (learn mac_b 2 79 (learn mac_a 1 80 (MacTable_new 4)))) mac_a = Some (1, 80) \<and>
   mac_view (ageOut 100 20 (learn mac_b 2 79 (learn mac_a 1 80 (MacTable_new 4)))) mac_b = None"
proof -
  let ?t = "learn mac_b 2 79 (learn mac_a 1 80 (MacTable_new 4))"
  have inv: "mt_inv ?t" by (intro inv_intros)
  have "mac_view ?t mac_a = Some (1, 80)" "mac_view ?t mac_b = Some (2, 79)"
    by code_simp+
  then show ?thesis
    using ageOut_keeps_iff_young [OF inv, of 100 20 mac_a] ageOut_keeps_iff_young [OF inv, of 100 20 mac_b]
    by simp
qed

end
