(* ===== verification/Interface_Registry.thy ===== *)
theory Interface_Registry
  imports Ens_Prelude
begin

text \<open>
  \<^verbatim>\<open>SwitchPort\<close> and \<^verbatim>\<open>InterfaceRegistry\<close> (switching/SwitchPort, InterfaceRegistry): the ports of the
  switch by number with their operational state. The locale \<open>port_registry\<close> is what flooding relies
  on: the active ports are the ports that are up, in ascending order.
\<close>

section \<open>Definitions\<close>

datatype PortState = Down | Up

record SwitchPort =
  sp_id :: u32
  sp_name :: string
  sp_state :: PortState

definition SwitchPort_new :: "u32 \<Rightarrow> string \<Rightarrow> SwitchPort" where
  "SwitchPort_new i name = \<lparr>sp_id = i, sp_name = name, sp_state = Down\<rparr>"

definition port_setState :: "PortState \<Rightarrow> SwitchPort \<Rightarrow> SwitchPort" where
  "port_setState s p = p\<lparr>sp_state := s\<rparr>"

type_synonym InterfaceRegistry = "(u32, SwitchPort) omap"

definition addPort :: "SwitchPort \<Rightarrow> InterfaceRegistry \<Rightarrow> InterfaceRegistry" where
  "addPort port ports = omap_emplace (sp_id port) port ports"

definition findPort :: "InterfaceRegistry \<Rightarrow> u32 \<Rightarrow> SwitchPort option" where
  "findPort ports port_id = map_of ports port_id"

definition isUp :: "InterfaceRegistry \<Rightarrow> u32 \<Rightarrow> bool" where
  "isUp ports port_id =
     (case findPort ports port_id of None \<Rightarrow> False | Some port \<Rightarrow> sp_state port = Up)"

definition setState :: "u32 \<Rightarrow> PortState \<Rightarrow> InterfaceRegistry \<Rightarrow> InterfaceRegistry" where
  "setState port_id state ports =
     (case map_of ports port_id of
        None \<Rightarrow> ports
      | Some port \<Rightarrow> omap_assign port_id (port_setState state port) ports)"

fun activePortIds :: "InterfaceRegistry \<Rightarrow> u32 list" where
  "activePortIds [] = []"
| "activePortIds ((i, port) # rest) =
     (if sp_state port = Up then i # activePortIds rest else activePortIds rest)"

definition ports_snapshot :: "InterfaceRegistry \<Rightarrow> SwitchPort list" where
  "ports_snapshot ports = map snd ports"

section \<open>Invariant\<close>

definition ports_inv :: "InterfaceRegistry \<Rightarrow> bool" where
  "ports_inv ports \<longleftrightarrow> omap_wf ports \<and> (\<forall>k p. map_of ports k = Some p \<longrightarrow> sp_id p = k)"

lemma ports_inv_empty [inv_intros]: "ports_inv []"
  by (simp add: ports_inv_def)

lemma ports_inv_addPort [inv_intros]: "ports_inv ports \<Longrightarrow> ports_inv (addPort p ports)"
  by (auto simp: ports_inv_def addPort_def om.wf_emplace om.find_emplace split: option.splits if_splits)

lemma ports_inv_setState [inv_intros]: "ports_inv ports \<Longrightarrow> ports_inv (setState i s ports)"
  by (auto simp: ports_inv_def setState_def port_setState_def om.wf_assign om.find_assign
      split: option.split)

lemma findPort_addPort: "ports_inv ports \<Longrightarrow> findPort (addPort p ports) i =
    (if i = sp_id p \<and> findPort ports i = None then Some p else findPort ports i)"
  by (auto simp: findPort_def addPort_def ports_inv_def om.find_emplace split: option.split)

lemma findPort_setState: "ports_inv ports \<Longrightarrow> findPort (setState i s ports) j =
    (if j = i then map_option (port_setState s) (findPort ports i) else findPort ports j)"
  by (auto simp: findPort_def setState_def ports_inv_def om.find_assign split: option.split)

section \<open>The interface of a port registry\<close>

locale port_registry =
  fixes reg_inv :: "'r \<Rightarrow> bool"
    and up :: "'r \<Rightarrow> 'p::linorder \<Rightarrow> bool"
    and active :: "'r \<Rightarrow> 'p list"
  assumes active_up: "reg_inv r \<Longrightarrow> set (active r) = {p. up r p}"
    and active_ascending: "reg_inv r \<Longrightarrow> sorted_wrt (<) (active r)"
begin

lemma flood_ports:
  assumes "reg_inv r"
  shows "set (filter (\<lambda>p. p \<noteq> ingress) (active r)) = {p. up r p \<and> p \<noteq> ingress}"
    and "sorted_wrt (<) (filter (\<lambda>p. p \<noteq> ingress) (active r))"
  using active_up [OF assms] active_ascending [OF assms] by (auto simp: sorted_wrt_filter)

text \<open>The set of ports up and the ascending order determine the list.\<close>

lemma flood_unique:
  assumes "reg_inv r" and "set ps = {p. up r p \<and> p \<noteq> ingress}" and "sorted_wrt (<) ps"
  shows "ps = filter (\<lambda>p. p \<noteq> ingress) (active r)"
proof (rule sorted_distinct_set_unique)
  show "sorted ps" "distinct ps"
    using assms(3) by (auto simp: strict_sorted_iff)
  show "sorted (filter (\<lambda>p. p \<noteq> ingress) (active r))" "distinct (filter (\<lambda>p. p \<noteq> ingress) (active r))"
    using flood_ports(2) [OF assms(1)] by (auto simp: strict_sorted_iff)
  show "set ps = set (filter (\<lambda>p. p \<noteq> ingress) (active r))"
    using flood_ports(1) [OF assms(1)] assms(2) by simp
qed

end

lemma activePortIds_filter: "activePortIds ports = map fst (filter (\<lambda>e. sp_state (snd e) = Up) ports)"
  by (induction ports rule: activePortIds.induct) auto

lemma set_activePortIds: "omap_wf ports \<Longrightarrow> set (activePortIds ports) = {i. isUp ports i}"
  by (auto simp: activePortIds_filter isUp_def findPort_def image_iff
      dest!: omap_wf_distinct split: option.splits)

interpretation ir: port_registry ports_inv isUp activePortIds
proof unfold_locales
  fix r assume inv: "ports_inv r"
  then show "set (activePortIds r) = {p. isUp r p}"
    by (simp add: ports_inv_def set_activePortIds)
  have "omap_wf (filter (\<lambda>e. sp_state (snd e) = Up) r)"
    using inv by (simp add: ports_inv_def omap_wf_filter)
  then show "sorted_wrt (<) (activePortIds r)"
    by (simp add: activePortIds_filter omap_wf_def)
qed

section \<open>Properties\<close>

text \<open>
  The registry after \<open>addPort\<close> and \<open>setState\<close>: the first registration of a port number wins, a
  state change affects that port only and is ignored for an unknown number, and the active ports
  are at all times exactly the ports that are up, listed in strictly ascending order.
\<close>

theorem registry_operations:
  assumes "ports_inv ports"
  shows "findPort (addPort p ports) i =
           (if i = sp_id p \<and> findPort ports i = None then Some p else findPort ports i)
    \<and> isUp (setState j s ports) i =
           (if i = j then s = Up \<and> findPort ports i \<noteq> None else isUp ports i)
    \<and> set (activePortIds (setState j s (addPort p ports))) = {i. isUp (setState j s (addPort p ports)) i}
    \<and> sorted_wrt (<) (activePortIds (setState j s (addPort p ports)))"
proof -
  have inv: "ports_inv (setState j s (addPort p ports))" by (intro inv_intros assms)
  show ?thesis
    using findPort_addPort [OF assms] findPort_setState [OF assms] ir.active_up [OF inv]
      ir.active_ascending [OF inv]
    by (auto simp: isUp_def port_setState_def split: option.split)
qed

theorem registry_operations_witness:
  "isUp (setState 2 Up (addPort (SwitchPort_new 2 ''eth2'') [])) 2 \<and>
   activePortIds (setState 2 Up (addPort (SwitchPort_new 1 ''eth1'')
     (setState 3 Up (addPort (SwitchPort_new 3 ''eth3'') (addPort (SwitchPort_new 2 ''eth2'') []))))) = [2, 3]"
proof -
  have inv: "ports_inv (addPort (SwitchPort_new 2 ''eth2'') [])" by (intro inv_intros)
  have "findPort (addPort (SwitchPort_new 2 ''eth2'') []) 2 = Some (SwitchPort_new 2 ''eth2'')"
    by code_simp
  then have "isUp (setState 2 Up (addPort (SwitchPort_new 2 ''eth2'') [])) 2"
    using registry_operations [OF inv, where i = 2 and j = 2 and s = Up] by simp
  moreover have "activePortIds (setState 2 Up (addPort (SwitchPort_new 1 ''eth1'')
     (setState 3 Up (addPort (SwitchPort_new 3 ''eth3'') (addPort (SwitchPort_new 2 ''eth2'') []))))) = [2, 3]"
    by code_simp
  ultimately show ?thesis by simp
qed

end
