(* ===== verification/Forwarding_Engine.thy ===== *)
theory Forwarding_Engine
  imports Packet_Types Mac_Table Interface_Registry
begin

text \<open>
  \<^verbatim>\<open>SwitchForwardingEngine\<close> (switching/SwitchForwardingEngine): learn the source address on the
  ingress port, then decide where the packet goes. The decision is proved equal to the abstract
  decision of a learning switch (\<open>decision_spec\<close>), stated on the view of the MAC table and the set of
  ports that are up.
\<close>

section \<open>Definitions\<close>

record SwitchForwardingEngine =
  eng_mac_table :: MacTable
  eng_interfaces :: InterfaceRegistry

text \<open>The loop over \<open>activePortIds()\<close> that skips the ingress port.\<close>

fun flood_loop :: "u32 \<Rightarrow> u32 list \<Rightarrow> u32 list" where
  "flood_loop ingress_port [] = []"
| "flood_loop ingress_port (port # ports) =
     (if port = ingress_port then flood_loop ingress_port ports
      else port # flood_loop ingress_port ports)"

definition flood_decision :: "u32 \<Rightarrow> InterfaceRegistry \<Rightarrow> ForwardingDecision" where
  "flood_decision ingress_port interfaces =
     \<lparr>fd_action = Flood, fd_egress_ports = flood_loop ingress_port (activePortIds interfaces)\<rparr>"

definition engine_processPacket :: "Packet \<Rightarrow> u32 \<Rightarrow> u64 \<Rightarrow> SwitchForwardingEngine
    \<Rightarrow> ForwardingDecision \<times> SwitchForwardingEngine" where
  "engine_processPacket packet ingress_port tick e =
     (case (pk_source_mac packet, pk_destination_mac packet) of
        (Some src, Some dst) \<Rightarrow>
          let e' = e\<lparr>eng_mac_table := learn src ingress_port tick (eng_mac_table e)\<rparr>
          in if isBroadcast dst then (flood_decision ingress_port (eng_interfaces e'), e')
             else (case lookup (eng_mac_table e') dst of
                     Some destination_port \<Rightarrow>
                       if \<not> isUp (eng_interfaces e') destination_port
                       then (\<lparr>fd_action = Drop, fd_egress_ports = []\<rparr>, e')
                       else (\<lparr>fd_action = ForwardToPorts, fd_egress_ports = [destination_port]\<rparr>, e')
                   | None \<Rightarrow> (flood_decision ingress_port (eng_interfaces e'), e'))
      | _ \<Rightarrow> (ForwardingDecision_default, e))"

definition engine_inv :: "SwitchForwardingEngine \<Rightarrow> bool" where
  "engine_inv e \<longleftrightarrow> mt_inv (eng_mac_table e) \<and> ports_inv (eng_interfaces e)"

section \<open>The abstract decision\<close>

text \<open>
  A learning switch, on the port that a known destination was seen on (\<open>None\<close> for broadcast and
  unknown destinations) and the predicate \<open>up\<close>: the set of egress ports.
\<close>

fun decision_spec :: "u32 option \<Rightarrow> (u32 \<Rightarrow> bool) \<Rightarrow> u32 \<Rightarrow> ForwardingAction \<times> u32 set" where
  "decision_spec None up ingress = (Flood, {p. up p \<and> p \<noteq> ingress})"
| "decision_spec (Some q) up ingress = (if up q then (ForwardToPorts, {q}) else (Drop, {}))"

definition known_port :: "MacTable \<Rightarrow> MacAddress \<Rightarrow> u32 option" where
  "known_port t dst = (if isBroadcast dst then None else lookup t dst)"

section \<open>Lemmas\<close>

lemma flood_loop_filter: "flood_loop ingress ports = filter (\<lambda>p. p \<noteq> ingress) ports"
  by (induction ports) auto

lemma flood_decision_spec:
  assumes "ports_inv interfaces"
  shows "set (fd_egress_ports (flood_decision ingress interfaces)) = {p. isUp interfaces p \<and> p \<noteq> ingress}"
    and "sorted_wrt (<) (fd_egress_ports (flood_decision ingress interfaces))"
  using ir.flood_ports [OF assms, of ingress] by (simp_all add: flood_decision_def flood_loop_filter)

lemma engine_state:
  "snd (engine_processPacket p ingress tick e) =
     (case (pk_source_mac p, pk_destination_mac p) of
        (Some src, Some dst) \<Rightarrow> e\<lparr>eng_mac_table := learn src ingress tick (eng_mac_table e)\<rparr>
      | _ \<Rightarrow> e)"
  by (auto simp: engine_processPacket_def Let_def split: option.split)

lemma engine_inv_processPacket [inv_intros]:
  "engine_inv e \<Longrightarrow> engine_inv (snd (engine_processPacket p ingress tick e))"
  by (auto simp: engine_state engine_inv_def mt_inv_learn split: option.split)

lemma engine_branches:
  assumes "pk_source_mac p = Some src" and "pk_destination_mac p = Some dst"
  shows "engine_processPacket p ingress tick e =
    ((case known_port (learn src ingress tick (eng_mac_table e)) dst of
        None \<Rightarrow> flood_decision ingress (eng_interfaces e)
      | Some q \<Rightarrow> if isUp (eng_interfaces e) q
                   then \<lparr>fd_action = ForwardToPorts, fd_egress_ports = [q]\<rparr>
                   else \<lparr>fd_action = Drop, fd_egress_ports = []\<rparr>),
     e\<lparr>eng_mac_table := learn src ingress tick (eng_mac_table e)\<rparr>)"
  using assms by (simp add: engine_processPacket_def Let_def known_port_def split: option.split)

lemma engine_decision:
  assumes "engine_inv e" and "pk_source_mac p = Some src" and "pk_destination_mac p = Some dst"
    and "engine_processPacket p ingress tick e = (d, e')"
  shows "(fd_action d, set (fd_egress_ports d)) =
      decision_spec (known_port (eng_mac_table e') dst) (isUp (eng_interfaces e')) ingress"
    and "sorted_wrt (<) (fd_egress_ports d)"
    and "e' = e\<lparr>eng_mac_table := learn src ingress tick (eng_mac_table e)\<rparr>"
proof -
  have ports: "ports_inv (eng_interfaces e)" using assms(1) by (simp add: engine_inv_def)
  note eq = assms(4) [unfolded engine_branches [OF assms(2,3)]]
  show e': "e' = e\<lparr>eng_mac_table := learn src ingress tick (eng_mac_table e)\<rparr>"
    using eq by simp
  let ?k = "known_port (learn src ingress tick (eng_mac_table e)) dst"
  have d: "d = (case ?k of
      None \<Rightarrow> flood_decision ingress (eng_interfaces e)
    | Some q \<Rightarrow> if isUp (eng_interfaces e) q
                 then \<lparr>fd_action = ForwardToPorts, fd_egress_ports = [q]\<rparr>
                 else \<lparr>fd_action = Drop, fd_egress_ports = []\<rparr>)"
    using eq by simp
  have "fd_action (flood_decision ingress (eng_interfaces e)) = Flood"
    by (simp add: flood_decision_def)
  then show "(fd_action d, set (fd_egress_ports d)) =
      decision_spec (known_port (eng_mac_table e') dst) (isUp (eng_interfaces e')) ingress"
    unfolding d e' using flood_decision_spec(1) [OF ports, of ingress] by (cases ?k) simp_all
  show "sorted_wrt (<) (fd_egress_ports d)"
    unfolding d using flood_decision_spec(2) [OF ports, of ingress] by (cases ?k) simp_all
qed

lemma engine_missing_mac:
  "pk_source_mac p = None \<or> pk_destination_mac p = None \<Longrightarrow>
     engine_processPacket p ingress tick e = (ForwardingDecision_default, e)"
  by (auto simp: engine_processPacket_def split: option.split)

lemma engine_egress_up:
  assumes "engine_inv e" and "engine_processPacket p ingress tick e = (d, e')"
    and "port \<in> set (fd_egress_ports d)"
  shows "isUp (eng_interfaces e) port"
proof (cases "pk_source_mac p = None \<or> pk_destination_mac p = None")
  case True
  with assms show ?thesis by (auto simp: engine_missing_mac ForwardingDecision_default_def)
next
  case False
  then obtain src dst where mac: "pk_source_mac p = Some src" "pk_destination_mac p = Some dst" by auto
  show ?thesis
    using engine_decision(1,3) [OF assms(1) mac assms(2)] assms(3)
    by (cases "known_port (eng_mac_table e') dst") (auto split: if_splits)
qed

section \<open>Properties\<close>

text \<open>
  \<^bold>\<open>C5\<close> Forwarding on every branch. A packet without both addresses is dropped and changes nothing.
  Otherwise the source is learned on the ingress port first, as the abstract address table \<open>learn_spec\<close> learns it; then
  the action and the egress ports are those of a learning switch on the abstract table after learning: broadcast and unknown destinations flood to exactly the ports that
  are up except the ingress port, a known destination goes to its port when that port is up and is
  dropped (not flooded) when it is not. Egress ports are listed in strictly ascending order, and the
  engine's invariant is kept.
\<close>

theorem engine_implements_learning_switch:
  assumes "engine_inv e" and "engine_processPacket p ingress tick e = (d, e')"
  shows "engine_inv e' \<and> eng_interfaces e' = eng_interfaces e \<and> sorted_wrt (<) (fd_egress_ports d) \<and>
    (case (pk_source_mac p, pk_destination_mac p) of
       (Some src, Some dst) \<Rightarrow>
         eng_mac_table e' = learn src ingress tick (eng_mac_table e) \<and>
         (let v = mac_view (eng_mac_table e); v' = mac_view (eng_mac_table e') in
          learn_spec (mt_capacity (eng_mac_table e)) src ingress tick v v' \<and>
          (fd_action d, set (fd_egress_ports d)) =
            decision_spec (if isBroadcast dst then None else map_option fst (v' dst)) (isUp (eng_interfaces e)) ingress)
     | _ \<Rightarrow> e' = e \<and> d = \<lparr>fd_action = Drop, fd_egress_ports = []\<rparr>)"
proof (cases "pk_source_mac p = None \<or> pk_destination_mac p = None")
  case True
  with assms show ?thesis
    by (auto simp: engine_missing_mac ForwardingDecision_default_def split: option.split)
next
  case False
  then obtain src dst where mac: "pk_source_mac p = Some src" "pk_destination_mac p = Some dst" by auto
  have "engine_inv e'" using engine_inv_processPacket [OF assms(1), of p ingress tick] assms(2) by simp
  moreover have "learn_spec (mt_capacity (eng_mac_table e)) src ingress tick (mac_view (eng_mac_table e))
      (mac_view (learn src ingress tick (eng_mac_table e)))"
    using assms(1) by (intro learn_refines) (simp add: engine_inv_def)
  ultimately show ?thesis
    using mac engine_decision [OF assms(1) mac assms(2)] by (simp add: known_port_def lookup_view Let_def)
qed

definition demo_ports :: InterfaceRegistry where
  "demo_ports = setState 1 Up (setState 2 Up (setState 3 Up
     (fold (\<lambda>i. addPort (SwitchPort_new i ''eth'')) [1, 2, 3, 4] [])))"

definition demo_engine :: SwitchForwardingEngine where
  "demo_engine = \<lparr>eng_mac_table = MacTable_new 4, eng_interfaces = demo_ports\<rparr>"

definition demo_packet :: Packet where
  "demo_packet = Packet_default\<lparr>pk_source_mac := Some mac_a,
     pk_destination_mac := Some (MacAddress 0xFF 0xFF 0xFF 0xFF 0xFF 0xFF)\<rparr>"

lemma demo_engine_inv: "engine_inv demo_engine"
  by (auto simp: engine_inv_def demo_engine_def demo_ports_def intro!: inv_intros)

theorem engine_implements_learning_switch_witness:
  "engine_inv demo_engine \<and>
   fst (engine_processPacket demo_packet 2 5 demo_engine) = \<lparr>fd_action = Flood, fd_egress_ports = [1, 3]\<rparr> \<and>
   sorted_wrt (<) (fd_egress_ports (fst (engine_processPacket demo_packet 2 5 demo_engine)))"
proof -
  have "fst (engine_processPacket demo_packet 2 5 demo_engine) = \<lparr>fd_action = Flood, fd_egress_ports = [1, 3]\<rparr>"
    by code_simp
  then show ?thesis
    using demo_engine_inv
      engine_implements_learning_switch [OF demo_engine_inv, of demo_packet 2 5
        "fst (engine_processPacket demo_packet 2 5 demo_engine)" "snd (engine_processPacket demo_packet 2 5 demo_engine)"]
    by simp
qed


definition demo_reply :: Packet where
  "demo_reply = Packet_default\<lparr>pk_source_mac := Some mac_b, pk_destination_mac := Some mac_a\<rparr>"


end
