(* ===== verification/Failure_Injector.thy ===== *)
theory Failure_Injector
  imports Packet_Types
begin

text \<open>
  \<^verbatim>\<open>FailureInjector\<close> (failure/FailureInjector): deterministic faults, by lifecycle identity or on every
  \<open>n\<close>-th packet. The delay is a \<^verbatim>\<open>double\<close> that the code only stores and compares with zero; it is
  kept as a rational number.
\<close>

section \<open>Definitions\<close>

datatype FailureType =
    NoFailure
  | MalformedPacket
  | InjectedValidationError
  | InjectedLoss
  | ArtificialDelay
  | ProcessingRejection

record FailureResult =
  fr_type :: FailureType
  fr_is_terminal :: bool
  fr_delay_ms :: rat

record FailureRule =
  rule_lifecycle_id :: u64
  rule_type :: FailureType

record FailureConfig =
  fc_type :: FailureType
  fc_enabled :: bool
  fc_every_n_packets :: u64
  fc_delay_ms :: rat
  fc_lifecycle_rules :: "FailureRule list"

definition FailureConfig_default :: FailureConfig where
  "FailureConfig_default = \<lparr>fc_type = NoFailure, fc_enabled = False, fc_every_n_packets = 0,
     fc_delay_ms = 0, fc_lifecycle_rules = []\<rparr>"

record FailureInjector =
  fi_config :: FailureConfig
  fi_seen_packets :: u64

definition no_failure :: FailureResult where
  "no_failure = \<lparr>fr_type = NoFailure, fr_is_terminal = False, fr_delay_ms = 0\<rparr>"

definition makeFailureResult :: "FailureType \<Rightarrow> rat \<Rightarrow> FailureResult" where
  "makeFailureResult type delay_ms =
     (if type = NoFailure then no_failure
      else let result = \<lparr>fr_type = type, fr_is_terminal = (type \<noteq> ArtificialDelay), fr_delay_ms = 0\<rparr>
           in if type = ArtificialDelay then result\<lparr>fr_delay_ms := delay_ms\<rparr> else result)"

definition FailureInjector_new :: "FailureConfig \<Rightarrow> FailureInjector" where
  "FailureInjector_new cfg = \<lparr>fi_config = cfg, fi_seen_packets = 0\<rparr>"

text \<open>The loop over the lifecycle rules: the first rule for this identity decides.\<close>

fun match_rule :: "FailureRule list \<Rightarrow> u64 \<Rightarrow> FailureRule option" where
  "match_rule [] lifecycle_id = None"
| "match_rule (rule # rules) lifecycle_id =
     (if rule_lifecycle_id rule = lifecycle_id then Some rule else match_rule rules lifecycle_id)"

definition inject :: "Packet \<Rightarrow> FailureInjector \<Rightarrow> FailureResult \<times> FailureInjector" where
  "inject pkt fi =
     (let config = fi_config fi in
      if \<not> fc_enabled config then (no_failure, fi)
      else case match_rule (fc_lifecycle_rules config) (pk_lifecycle_id pkt) of
        Some rule \<Rightarrow> (makeFailureResult (rule_type rule) (fc_delay_ms config), fi)
      | None \<Rightarrow>
        if fc_every_n_packets config = 0 then (no_failure, fi)
        else if fc_type config = NoFailure then (no_failure, fi)
        else let fi = fi\<lparr>fi_seen_packets := fi_seen_packets fi + 1\<rparr> in
             if fi_seen_packets fi mod fc_every_n_packets config \<noteq> 0 then (no_failure, fi)
             else (makeFailureResult (fc_type config) (fc_delay_ms config), fi))"

fun inject_all :: "Packet list \<Rightarrow> FailureInjector \<Rightarrow> FailureResult list" where
  "inject_all [] fi = []"
| "inject_all (p # ps) fi = (let (r, fi') = inject p fi in r # inject_all ps fi')"

section \<open>Lemmas\<close>

lemma config_inject [simp]: "fi_config (snd (inject p fi)) = fi_config fi"
  by (simp add: inject_def Let_def split: option.split)

lemma terminal_makeFailureResult:
  "fr_is_terminal (makeFailureResult t d) \<longleftrightarrow> t \<noteq> NoFailure \<and> t \<noteq> ArtificialDelay"
  by (auto simp: makeFailureResult_def no_failure_def Let_def)

lemma type_makeFailureResult [simp]: "fr_type (makeFailureResult t d) = t"
  by (auto simp: makeFailureResult_def no_failure_def Let_def)

lemma terminal_inject:
  "fr_is_terminal (fst (inject p fi)) \<longleftrightarrow>
     fr_type (fst (inject p fi)) \<noteq> NoFailure \<and> fr_type (fst (inject p fi)) \<noteq> ArtificialDelay"
  by (auto simp: inject_def Let_def terminal_makeFailureResult no_failure_def split: option.split)

lemma inject_disabled: "\<not> fc_enabled (fi_config fi) \<Longrightarrow> inject p fi = (no_failure, fi)"
  by (simp add: inject_def Let_def)

lemma inject_rule:
  "fc_enabled (fi_config fi) \<Longrightarrow> match_rule (fc_lifecycle_rules (fi_config fi)) (pk_lifecycle_id p) = Some rule \<Longrightarrow>
     inject p fi = (makeFailureResult (rule_type rule) (fc_delay_ms (fi_config fi)), fi)"
  by (simp add: inject_def Let_def)

lemma inject_periodic:
  assumes "fc_enabled (fi_config fi)" and "fc_every_n_packets (fi_config fi) \<noteq> 0"
    and "fc_type (fi_config fi) \<noteq> NoFailure"
    and "match_rule (fc_lifecycle_rules (fi_config fi)) (pk_lifecycle_id p) = None"
  shows "inject p fi =
    ((if (fi_seen_packets fi + 1) mod fc_every_n_packets (fi_config fi) \<noteq> 0 then no_failure
      else makeFailureResult (fc_type (fi_config fi)) (fc_delay_ms (fi_config fi))),
     fi\<lparr>fi_seen_packets := fi_seen_packets fi + 1\<rparr>)"
  using assms by (simp add: inject_def Let_def)

text \<open>How many packets of a list no lifecycle rule names.\<close>

definition unnamed :: "FailureConfig \<Rightarrow> Packet list \<Rightarrow> nat" where
  "unnamed cfg ps = length (filter (\<lambda>p. match_rule (fc_lifecycle_rules cfg) (pk_lifecycle_id p) = None) ps)"

lemma inject_all_periodic:
  assumes "fc_enabled (fi_config fi)" and "fc_every_n_packets (fi_config fi) \<noteq> 0"
    and "fc_type (fi_config fi) \<noteq> NoFailure"
    and "unat (fi_seen_packets fi) + length ps < 2 ^ 64" and "i < length ps"
  shows "fr_type (inject_all ps fi ! i) =
    (case match_rule (fc_lifecycle_rules (fi_config fi)) (pk_lifecycle_id (ps ! i)) of
       Some rule \<Rightarrow> rule_type rule
     | None \<Rightarrow> if unat (fc_every_n_packets (fi_config fi)) dvd unat (fi_seen_packets fi) + unnamed (fi_config fi) (take (Suc i) ps)
               then fc_type (fi_config fi) else NoFailure)"
  using assms
proof (induction ps arbitrary: fi i)
  case (Cons p ps)
  let ?n = "fc_every_n_packets (fi_config fi)" and ?s = "fi_seen_packets fi"
  show ?case
  proof (cases "match_rule (fc_lifecycle_rules (fi_config fi)) (pk_lifecycle_id p)")
    case (Some rule)
    then have step: "inject p fi = (makeFailureResult (rule_type rule) (fc_delay_ms (fi_config fi)), fi)"
      using Cons.prems(1) by (rule inject_rule [rotated])
    show ?thesis
    proof (cases i)
      case (Suc j)
      then show ?thesis using Some step Cons.prems Cons.IH [of fi j] by (simp add: unnamed_def)
    qed (simp add: Some step)
  next
    case None
    have seen: "unat (?s + 1) = Suc (unat ?s)"
    proof -
      have "Suc (unat ?s) < 2 ^ 64" using Cons.prems(4) by simp
      then show ?thesis by (simp add: unat_word_ariths)
    qed
    note step = inject_periodic [OF Cons.prems(1-3) None]
    show ?thesis
    proof (cases i)
      case 0
      have "(?s + 1) mod ?n = 0 \<longleftrightarrow> unat ?n dvd Suc (unat ?s)"
        using seen by (simp add: word_unat_eq_iff unat_mod dvd_eq_mod_eq_0)
      then show ?thesis using 0 None step by (auto simp: no_failure_def unnamed_def)
    next
      case (Suc j)
      then show ?thesis
        using None step seen Cons.prems Cons.IH [of "fi\<lparr>fi_seen_packets := ?s + 1\<rparr>" j] by (simp add: unnamed_def cong: option.case_cong)
    qed
  qed
qed simp

section \<open>Properties\<close>

text \<open>
  \<^bold>\<open>C38\<close> Scheduled faults are deterministic: with an enabled injector of period \<open>n\<close> and a configured fault, in
  any stream shorter than \<open>2\<^sup>6\<^sup>4\<close> packets, a packet that a lifecycle rule names receives the fault of the first such
  rule; the others are counted, the named ones not, and exactly those with the numbers \<open>n\<close>, \<open>2n\<close>, \<open>3n\<close>, ...
  in this count receive the configured fault, the rest none.
\<close>

theorem every_nth_packet_fails:
  assumes "fc_enabled cfg" and "fc_every_n_packets cfg \<noteq> 0" and "fc_type cfg \<noteq> NoFailure"
    and "length ps < 2 ^ 64" and "i < length ps"
  shows "fr_type (inject_all ps (FailureInjector_new cfg) ! i) =
    (case match_rule (fc_lifecycle_rules cfg) (pk_lifecycle_id (ps ! i)) of
       Some rule \<Rightarrow> rule_type rule
     | None \<Rightarrow> if unat (fc_every_n_packets cfg) dvd unnamed cfg (take (Suc i) ps) then fc_type cfg else NoFailure)"
  using inject_all_periodic [of "FailureInjector_new cfg" ps i] assms
  by (simp add: FailureInjector_new_def cong: option.case_cong)

text \<open>Period 2 and a rule for the identity 7: the third packet is the second one counted.\<close>

definition period_demo :: FailureConfig where
  "period_demo = \<lparr>fc_type = InjectedLoss, fc_enabled = True, fc_every_n_packets = 2, fc_delay_ms = 0,
     fc_lifecycle_rules = [\<lparr>rule_lifecycle_id = 7, rule_type = MalformedPacket\<rparr>]\<rparr>"

theorem every_nth_packet_fails_witness:
  "let rs = inject_all [Packet_default, Packet_default\<lparr>pk_lifecycle_id := 7\<rparr>, Packet_default] (FailureInjector_new period_demo)
   in fr_type (rs ! 0) = NoFailure \<and> fr_type (rs ! 1) = MalformedPacket \<and> fr_type (rs ! 2) = InjectedLoss"
proof -
  let ?ps = "[Packet_default, Packet_default\<lparr>pk_lifecycle_id := 7\<rparr>, Packet_default]"
  note at = every_nth_packet_fails [of period_demo ?ps]
  show ?thesis
    using at [of 0] at [of 1] at [of 2] by (simp add: period_demo_def unnamed_def Packet_default_def)
qed

end
