(* ===== verification/Fd_Registry.thy ===== *)
theory Fd_Registry
  imports Runtime_Env
begin

text \<open>
  Ownership of file descriptors: \<^verbatim>\<open>FdRegistry\<close> and the owning handle \<^verbatim>\<open>FileDescriptor\<close> (system/fd),
  with the leak report of the daemon (daemon/main.cpp). The program has one registry, so a handle's
  registry pointer is a Boolean: it points to that registry or is null. The operating system is
  represented by the set of descriptors that are open and by a count of the \<^verbatim>\<open>close\<close> calls made on a
  descriptor that is not open. A transition system interleaves all operations on any number of handles;
  its invariant is single ownership.
\<close>

section \<open>Definitions\<close>

datatype FdState = Invalid | Active | Released | Closed

datatype FdType = UnknownFd | UdpSocket | UnixSocket | Epoll | Pipe | EventFd

record FdRecord =
  fdr_fd :: int
  fdr_state :: FdState
  fdr_type :: FdType

type_synonym FdRegistry = "(int, FdRecord) hmap"

definition registerFd :: "int \<Rightarrow> FdState \<Rightarrow> FdType \<Rightarrow> FdRegistry \<Rightarrow> FdRegistry" where
  "registerFd fd state fdType records =
     hmap_assign fd \<lparr>fdr_fd = fd, fdr_state = state, fdr_type = fdType\<rparr> records"

definition updateState :: "int \<Rightarrow> FdState \<Rightarrow> FdRegistry \<Rightarrow> FdRegistry" where
  "updateState fd state records =
     (case map_of records fd of
        None \<Rightarrow> records
      | Some r \<Rightarrow> hmap_assign fd (r\<lparr>fdr_state := state\<rparr>) records)"

definition unregisterFd :: "int \<Rightarrow> FdRegistry \<Rightarrow> FdRegistry" where
  "unregisterFd fd records = hmap_erase fd records"

definition fd_snapshot ::
  "((int \<times> FdRecord) list \<Rightarrow> (int \<times> FdRecord) list) \<Rightarrow> FdRegistry \<Rightarrow> FdRecord list" where
  "fd_snapshot order records = map snd (order records)"

subsection \<open>The owning handle\<close>

record FileDescriptor =
  d_fd :: int
  d_registry :: bool
  d_type :: FdType

record fd_world =
  fw_registry :: FdRegistry
  fw_open :: "int list"
  fw_bad_closes :: nat

definition sys_close :: "int \<Rightarrow> fd_world \<Rightarrow> fd_world" where
  "sys_close fd w =
     (if fd \<in> set (fw_open w) then w\<lparr>fw_open := removeAll fd (fw_open w)\<rparr>
      else w\<lparr>fw_bad_closes := Suc (fw_bad_closes w)\<rparr>)"

definition FileDescriptor_default :: FileDescriptor where
  "FileDescriptor_default = \<lparr>d_fd = -1, d_registry = False, d_type = UnknownFd\<rparr>"

definition FileDescriptor_of_fd :: "int \<Rightarrow> FileDescriptor" where
  "FileDescriptor_of_fd fd = FileDescriptor_default\<lparr>d_fd := fd\<rparr>"

definition fd_valid :: "FileDescriptor \<Rightarrow> bool" where
  "fd_valid d = (d_fd d \<ge> 0)"

definition FileDescriptor_new ::
  "int \<Rightarrow> bool \<Rightarrow> FdType \<Rightarrow> fd_world \<Rightarrow> FileDescriptor \<times> fd_world" where
  "FileDescriptor_new fd registry fdType w =
     (let d = \<lparr>d_fd = fd, d_registry = registry, d_type = fdType\<rparr>
      in (d, if registry \<and> fd_valid d
             then w\<lparr>fw_registry := registerFd fd Active fdType (fw_registry w)\<rparr> else w))"

definition fd_move :: "FileDescriptor \<Rightarrow> FileDescriptor \<times> FileDescriptor" where
  "fd_move other = (other, other\<lparr>d_fd := -1, d_registry := False\<rparr>)"

definition fd_reset :: "int \<Rightarrow> FdType \<Rightarrow> FileDescriptor \<Rightarrow> fd_world \<Rightarrow> FileDescriptor \<times> fd_world" where
  "fd_reset fd type d w =
     (let w = (if d_fd d \<ge> 0
               then sys_close (d_fd d)
                 (if d_registry d
                  then w\<lparr>fw_registry := unregisterFd (d_fd d) (updateState (d_fd d) Closed (fw_registry w))\<rparr>
                  else w)
               else w);
          d = d\<lparr>d_fd := fd\<rparr>
      in (d, if d_registry d \<and> d_fd d \<ge> 0
             then w\<lparr>fw_registry := registerFd (d_fd d) Active type (fw_registry w)\<rparr> else w))"

definition fd_destroy :: "FileDescriptor \<Rightarrow> fd_world \<Rightarrow> FileDescriptor \<times> fd_world" where
  "fd_destroy d w = fd_reset (-1) UnknownFd d w"

definition fd_move_assign ::
  "FileDescriptor \<Rightarrow> FileDescriptor \<Rightarrow> fd_world \<Rightarrow> FileDescriptor \<times> FileDescriptor \<times> fd_world" where
  "fd_move_assign this other w =
     (let (this, w) = fd_reset (-1) UnknownFd this w
      in (this\<lparr>d_fd := d_fd other, d_registry := d_registry other\<rparr>,
          other\<lparr>d_fd := -1, d_registry := False\<rparr>, w))"

definition fd_release :: "FileDescriptor \<Rightarrow> fd_world \<Rightarrow> int \<times> FileDescriptor \<times> fd_world" where
  "fd_release d w =
     (let old_fd = d_fd d
      in (old_fd, d\<lparr>d_fd := -1\<rparr>,
          if d_registry d \<and> old_fd \<ge> 0
          then w\<lparr>fw_registry := updateState old_fd Released (fw_registry w)\<rparr> else w))"

subsection \<open>The leak report at shutdown\<close>

fun leak_loop :: "FdRecord list \<Rightarrow> bool \<Rightarrow> env \<Rightarrow> bool \<times> env" where
  "leak_loop [] leak_detected e = (leak_detected, e)"
| "leak_loop (r # remaining) leak_detected e =
     (if fdr_state r = Active
      then leak_loop remaining True
             (log_error (''[FD][LEAK] active descriptor detected during shutdown: fd='' @ int_to_string (fdr_fd r)) e)
      else leak_loop remaining leak_detected e)"

definition report_leaks ::
  "((int \<times> FdRecord) list \<Rightarrow> (int \<times> FdRecord) list) \<Rightarrow> FdRegistry \<Rightarrow> env \<Rightarrow> bool \<times> env" where
  "report_leaks order records e =
     (let (leak_detected, e) = leak_loop (fd_snapshot order records) False e
      in (leak_detected,
          if \<not> leak_detected then log_info ''[FD] all descriptors released cleanly'' e else e))"

section \<open>Registry lookups\<close>

definition active_fds :: "FdRegistry \<Rightarrow> int set" where
  "active_fds records = {fd. \<exists>r. map_of records fd = Some r \<and> fdr_state r = Active}"

lemma map_of_updateState [container_simps]:
  "map_of (updateState fd st records) =
     (case map_of records fd of None \<Rightarrow> map_of records | Some r \<Rightarrow> (map_of records)(fd \<mapsto> r\<lparr>fdr_state := st\<rparr>))"
  by (simp add: updateState_def container_simps split: option.split)

lemma active_fds_ops [simp]:
  "active_fds (registerFd fd Active ty records) = insert fd (active_fds records)"
  "active_fds (unregisterFd fd records) = active_fds records - {fd}"
  "st \<noteq> Active \<Longrightarrow> active_fds (updateState fd st records) = active_fds records - {fd}"
  by (auto simp: active_fds_def registerFd_def unregisterFd_def container_simps hmap_erase_def
      map_of_filter_key split: if_splits option.splits)

definition reg_inv :: "FdRegistry \<Rightarrow> bool" where
  "reg_inv records \<longleftrightarrow> hmap_wf records \<and> (\<forall>(fd, r) \<in> set records. fdr_fd r = fd)"

lemma set_hmap_assign: "set (hmap_assign k v m) \<subseteq> insert (k, v) (set m)"
  by (induction m) auto

lemma reg_inv_ops [inv_intros]:
  "reg_inv records \<Longrightarrow> reg_inv (registerFd fd st ty records)"
  "reg_inv records \<Longrightarrow> reg_inv (unregisterFd fd records)"
  "reg_inv records \<Longrightarrow> reg_inv (updateState fd st records)"
  using set_hmap_assign map_of_SomeD [of records fd]
  by (fastforce simp: reg_inv_def registerFd_def unregisterFd_def updateState_def hmap_erase_def
      hmap_wf_assign hmap_wf_filter split: option.split)+

lemma leak_loop_detects: "fst (leak_loop rs b e) \<longleftrightarrow> b \<or> (\<exists>r \<in> set rs. fdr_state r = Active)"
  by (induction rs b e rule: leak_loop.induct) auto

lemma report_leaks_detects:
  assumes "hash_order order" and "reg_inv records"
  shows "fst (report_leaks order records e) \<longleftrightarrow> active_fds records \<noteq> {}"
proof -
  have "(\<exists>r \<in> set (fd_snapshot order records). fdr_state r = Active) \<longleftrightarrow>
      (\<exists>fd r. (fd, r) \<in> set records \<and> fdr_state r = Active)"
    using hash_order_set [OF assms(1)] by (force simp: fd_snapshot_def)
  also have "\<dots> \<longleftrightarrow> active_fds records \<noteq> {}"
    using assms(2) map_of_SomeD [of records]
    by (force simp: active_fds_def reg_inv_def hmap_wf_def dest: map_of_is_SomeI)
  finally show ?thesis
    by (simp add: report_leaks_def leak_loop_detects split_beta)
qed

section \<open>Ownership as a transition system\<close>

text \<open>
  The handles live in numbered slots; an unused slot holds a default handle. A destroyed handle
  stays in its slot as its destructor left it. Descriptors come from the operating system (a number
  that is not open) or are raw descriptors the program holds outside any handle.
\<close>

record fd_system =
  handles :: "nat \<Rightarrow> FileDescriptor"
  world :: fd_world

definition unowned :: "int \<Rightarrow> fd_system \<Rightarrow> bool" where
  "unowned fd s \<longleftrightarrow> (\<forall>i. d_fd (handles s i) \<noteq> fd)"

definition empty_slot :: "nat \<Rightarrow> fd_system \<Rightarrow> bool" where
  "empty_slot i s \<longleftrightarrow> \<not> fd_valid (handles s i)"

inductive fd_step :: "fd_system \<Rightarrow> fd_system \<Rightarrow> bool" where
  step_open: "fd \<ge> 0 \<Longrightarrow> fd \<notin> set (fw_open (world s)) \<Longrightarrow>
     fd_step s (s\<lparr>world := (world s)\<lparr>fw_open := fd # fw_open (world s)\<rparr>\<rparr>)"
| step_raw_close: "fd \<in> set (fw_open (world s)) \<Longrightarrow> unowned fd s \<Longrightarrow>
     fd_step s (s\<lparr>world := sys_close fd (world s)\<rparr>)"
| step_construct: "empty_slot i s \<Longrightarrow> fd = -1 \<or> fd \<in> set (fw_open (world s)) \<and> unowned fd s \<Longrightarrow>
     FileDescriptor_new fd registry ty (world s) = (d, w) \<Longrightarrow>
     fd_step s (s\<lparr>handles := (handles s)(i := d), world := w\<rparr>)"
| step_construct_plain: "empty_slot i s \<Longrightarrow> fd = -1 \<or> fd \<in> set (fw_open (world s)) \<and> unowned fd s \<Longrightarrow>
     fd_step s (s\<lparr>handles := (handles s)(i := FileDescriptor_of_fd fd)\<rparr>)"
| step_move: "empty_slot i s \<Longrightarrow> i \<noteq> j \<Longrightarrow> fd_move (handles s j) = (d, other) \<Longrightarrow>
     fd_step s (s\<lparr>handles := (handles s)(i := d, j := other)\<rparr>)"
| step_move_assign: "i \<noteq> j \<Longrightarrow> fd_move_assign (handles s i) (handles s j) (world s) = (this, other, w) \<Longrightarrow>
     fd_step s (s\<lparr>handles := (handles s)(i := this, j := other), world := w\<rparr>)"
| step_reset: "fd = -1 \<or> fd \<in> set (fw_open (world s)) \<and> unowned fd s \<Longrightarrow>
     fd_reset fd ty (handles s i) (world s) = (d, w) \<Longrightarrow>
     fd_step s (s\<lparr>handles := (handles s)(i := d), world := w\<rparr>)"
| step_release: "fd_release (handles s i) (world s) = (raw, d, w) \<Longrightarrow>
     fd_step s (s\<lparr>handles := (handles s)(i := d), world := w\<rparr>)"
| step_destroy: "fd_destroy (handles s i) (world s) = (d, w) \<Longrightarrow>
     fd_step s (s\<lparr>handles := (handles s)(i := d), world := w\<rparr>)"

definition fd_start :: "fd_system \<Rightarrow> bool" where
  "fd_start s \<longleftrightarrow> handles s = (\<lambda>_. FileDescriptor_default) \<and>
     world s = \<lparr>fw_registry = [], fw_open = [], fw_bad_closes = 0\<rparr>"

text \<open>Registered descriptors that a handle still owns.\<close>

definition owned_registered :: "fd_system \<Rightarrow> int set" where
  "owned_registered s = {fd. \<exists>i. d_fd (handles s i) = fd \<and> fd \<ge> 0 \<and> d_registry (handles s i)}"

definition single_owner :: "fd_system \<Rightarrow> bool" where
  "single_owner s \<longleftrightarrow> (\<forall>i j. fd_valid (handles s i) \<and> d_fd (handles s i) = d_fd (handles s j) \<longrightarrow> i = j)"

definition fd_inv :: "fd_system \<Rightarrow> bool" where
  "fd_inv s \<longleftrightarrow>
     single_owner s \<and>
     (\<forall>i. fd_valid (handles s i) \<longrightarrow> d_fd (handles s i) \<in> set (fw_open (world s))) \<and>
     (\<forall>fd \<in> set (fw_open (world s)). fd \<ge> 0) \<and>
     active_fds (fw_registry (world s)) = owned_registered s \<and>
     reg_inv (fw_registry (world s)) \<and>
     fw_bad_closes (world s) = 0"

lemmas fd_inv_defs = fd_inv_def single_owner_def owned_registered_def unowned_def empty_slot_def fd_valid_def

lemma fd_inv_cong:
  "fd_inv s \<Longrightarrow> handles t = handles s \<Longrightarrow> world t = world s \<Longrightarrow> fd_inv t"
  by (simp add: fd_inv_defs)

lemma fd_inv_close_unowned:
  assumes "fd_inv s" and "fd \<in> set (fw_open (world s))" and "unowned fd s"
  shows "fd_inv (s\<lparr>world := sys_close fd (world s)\<rparr>)"
  using assms by (auto simp: fd_inv_defs sys_close_def)

text \<open>Giving up a descriptor (release) and adopting an unowned open one are the elementary moves.\<close>

lemma fd_inv_drop:
  assumes "fd_inv s" and "fd_release (handles s i) (world s) = (raw, d, w)"
  shows "fd_inv (s\<lparr>handles := (handles s)(i := d), world := w\<rparr>)"
    and "fd_valid (handles s i) \<Longrightarrow> unowned raw (s\<lparr>handles := (handles s)(i := d), world := w\<rparr>)"
proof -
  have d: "d = (handles s i)\<lparr>d_fd := -1\<rparr>" "raw = d_fd (handles s i)"
    and w: "w = (if d_registry (handles s i) \<and> fd_valid (handles s i)
      then (world s)\<lparr>fw_registry := updateState (d_fd (handles s i)) Released (fw_registry (world s))\<rparr> else world s)"
    using assms(2) by (auto simp: fd_release_def fd_valid_def Let_def)
  have active: "active_fds (fw_registry w) = owned_registered (s\<lparr>handles := (handles s)(i := d), world := w\<rparr>)"
    using assms(1) by (auto simp: fd_inv_defs d w)
  show "fd_inv (s\<lparr>handles := (handles s)(i := d), world := w\<rparr>)"
    using assms(1) active by (auto simp: fd_inv_def single_owner_def fd_valid_def d w inv_intros)
  show "unowned raw (s\<lparr>handles := (handles s)(i := d), world := w\<rparr>)" if "fd_valid (handles s i)"
    using assms(1) that by (auto simp: fd_inv_defs d)
qed

lemma fd_inv_adopt:
  assumes "fd_inv s" and "empty_slot i s" and "fd = -1 \<or> fd \<in> set (fw_open (world s)) \<and> unowned fd s"
    and "d_fd d = fd"
  shows "fd_inv (s\<lparr>handles := (handles s)(i := d),
     world := (if d_registry d \<and> fd \<ge> 0
       then (world s)\<lparr>fw_registry := registerFd fd Active ty (fw_registry (world s))\<rparr> else world s)\<rparr>)"
    (is "fd_inv ?t")
proof -
  have active: "active_fds (fw_registry (world ?t)) = owned_registered ?t"
    using assms by (auto simp: fd_inv_defs)
  have own: "single_owner ?t" using assms by (auto simp: fd_inv_defs)
  show ?thesis using assms active own by (auto simp: fd_inv_def empty_slot_def fd_valid_def inv_intros)
qed

text \<open>Clearing a handle (\<open>reset()\<close>) closes what it owns; the descriptor was open and has no other owner.\<close>

lemma fd_inv_clear:
  assumes "fd_inv s" and "fd_reset (-1) ty (handles s i) (world s) = (d, w)"
  shows "fd_inv (s\<lparr>handles := (handles s)(i := d), world := w\<rparr>)"
    and "d_fd d = -1" and "d_registry d = d_registry (handles s i)"
    and "set (fw_open w) = set (fw_open (world s)) - {d_fd (handles s i)}"
proof -
  let ?d = "handles s i"
  have op: "fd_valid ?d \<Longrightarrow> d_fd ?d \<in> set (fw_open (world s))" using assms(1) by (simp add: fd_inv_def)
  have d: "d = ?d\<lparr>d_fd := -1\<rparr>"
    and w: "w = (if fd_valid ?d
      then sys_close (d_fd ?d) (if d_registry ?d
        then (world s)\<lparr>fw_registry := unregisterFd (d_fd ?d) (updateState (d_fd ?d) Closed (fw_registry (world s)))\<rparr>
        else world s) else world s)"
    using assms(2) by (auto simp: fd_reset_def fd_valid_def Let_def)
  let ?t = "s\<lparr>handles := (handles s)(i := d), world := w\<rparr>"
  have reg: "fw_registry w = (if fd_valid ?d \<and> d_registry ?d
      then unregisterFd (d_fd ?d) (updateState (d_fd ?d) Closed (fw_registry (world s))) else fw_registry (world s))"
    and bad: "fw_bad_closes w = fw_bad_closes (world s)"
    and opn: "fw_open w = (if fd_valid ?d then removeAll (d_fd ?d) (fw_open (world s)) else fw_open (world s))"
    using op by (auto simp: w sys_close_def)
  have active: "active_fds (fw_registry (world ?t)) = owned_registered ?t"
    using assms(1) by (auto simp: fd_inv_defs d reg)
  have own: "single_owner ?t" using assms(1) by (auto simp: fd_inv_defs d)
  have keep: "d_fd (handles ?t j) \<in> set (fw_open w)" if "fd_valid (handles ?t j)" for j
    using assms(1) that unfolding fd_inv_def single_owner_def by (auto simp: d opn fd_valid_def split: if_splits)
  show "fd_inv ?t"
    using assms(1) active own keep unfolding fd_inv_def by (auto simp: bad opn reg inv_intros)
  show "d_fd d = -1" "d_registry d = d_registry ?d" by (simp_all add: d)
  show "set (fw_open w) = set (fw_open (world s)) - {d_fd ?d}"
    using assms(1) unfolding fd_inv_def by (auto simp: opn fd_valid_def)
qed

lemma fd_reset_split:
  "fd_reset fd ty d w =
     (let (d1, w1) = fd_reset (-1) UnknownFd d w
      in (d1\<lparr>d_fd := fd\<rparr>, if d_registry d1 \<and> fd \<ge> 0
            then w1\<lparr>fw_registry := registerFd fd Active ty (fw_registry w1)\<rparr> else w1))"
  by (simp add: fd_reset_def Let_def)

lemma fd_inv_reset:
  assumes "fd_inv s" and "fd = -1 \<or> fd \<in> set (fw_open (world s)) \<and> unowned fd s"
    and "fd_reset fd ty (handles s i) (world s) = (d, w)"
  shows "fd_inv (s\<lparr>handles := (handles s)(i := d), world := w\<rparr>)"
proof -
  obtain d1 w1 where c: "fd_reset (-1) UnknownFd (handles s i) (world s) = (d1, w1)" by fastforce
  let ?s1 = "s\<lparr>handles := (handles s)(i := d1), world := w1\<rparr>"
  note clear = fd_inv_clear [OF assms(1) c]
  have "fd = -1 \<or> fd \<in> set (fw_open (world ?s1)) \<and> unowned fd ?s1"
    using assms(2) clear(2,4) assms(1) by (auto simp: unowned_def fd_inv_def)
  moreover have "empty_slot i ?s1" using clear(2) by (simp add: empty_slot_def fd_valid_def)
  ultimately have inv: "fd_inv (?s1\<lparr>handles := (handles ?s1)(i := d1\<lparr>d_fd := fd\<rparr>),
     world := (if d_registry d1 \<and> fd \<ge> 0
       then (world ?s1)\<lparr>fw_registry := registerFd fd Active ty (fw_registry (world ?s1))\<rparr> else world ?s1)\<rparr>)"
    using fd_inv_adopt [OF clear(1), of i fd "d1\<lparr>d_fd := fd\<rparr>" ty] by simp
  have "d = d1\<lparr>d_fd := fd\<rparr>" "w = (if d_registry d1 \<and> fd \<ge> 0
       then w1\<lparr>fw_registry := registerFd fd Active ty (fw_registry w1)\<rparr> else w1)"
    using assms(3) by (simp_all add: fd_reset_split [of fd] c)
  then show ?thesis by (intro fd_inv_cong [OF inv]) simp_all
qed

lemma fd_inv_swap:
  assumes "fd_inv s" and "empty_slot i s" and "i \<noteq> j"
    and "d_fd d = d_fd (handles s j)" and "d_registry d = d_registry (handles s j)"
    and "other = (handles s j)\<lparr>d_fd := -1, d_registry := False\<rparr>"
  shows "fd_inv (s\<lparr>handles := (handles s)(i := d, j := other)\<rparr>)" (is "fd_inv ?t")
proof -
  have "\<exists>k'. d_fd (handles ?t k') = d_fd (handles s k) \<and> d_registry (handles ?t k')"
    if "d_fd (handles s k) \<ge> 0" "d_registry (handles s k)" for k
    by (rule exI [of _ "if k = j then i else k"]) (use that assms in \<open>auto simp: empty_slot_def fd_valid_def\<close>)
  then have "owned_registered ?t = owned_registered s"
    using assms(3-6) by (force simp: owned_registered_def split: if_splits)
  moreover have "single_owner ?t" using assms by (auto simp: fd_inv_defs)
  ultimately show ?thesis using assms by (auto simp: fd_inv_def fd_valid_def)
qed

lemma fd_inv_move_assign:
  assumes "fd_inv s" and "i \<noteq> j"
    and "fd_move_assign (handles s i) (handles s j) (world s) = (this, other, w)"
  shows "fd_inv (s\<lparr>handles := (handles s)(i := this, j := other), world := w\<rparr>)"
proof -
  obtain d1 where c: "fd_reset (-1) UnknownFd (handles s i) (world s) = (d1, w)"
    and t: "this = d1\<lparr>d_fd := d_fd (handles s j), d_registry := d_registry (handles s j)\<rparr>"
    and o: "other = (handles s j)\<lparr>d_fd := -1, d_registry := False\<rparr>"
    using assms(3) by (auto simp: fd_move_assign_def split: prod.splits)
  note clear = fd_inv_clear [OF assms(1) c]
  let ?s1 = "s\<lparr>handles := (handles s)(i := d1), world := w\<rparr>"
  have "empty_slot i ?s1" using clear(2) by (simp add: empty_slot_def fd_valid_def)
  from fd_inv_swap [OF clear(1) this assms(2), of this other]
  have "fd_inv (?s1\<lparr>handles := (handles ?s1)(i := this, j := other)\<rparr>)"
    using assms(2) by (simp add: t o)
  then show ?thesis by (rule fd_inv_cong) simp_all
qed

lemma fd_step_inv: "fd_step s t \<Longrightarrow> fd_inv s \<Longrightarrow> fd_inv t"
proof (induction rule: fd_step.induct)
  case (step_open fd s)
  then show ?case by (auto simp: fd_inv_defs)
next
  case (step_construct i s fd registry ty d w)
  have "d_fd d = fd" "d_registry d = registry"
    "w = (if d_registry d \<and> fd \<ge> 0
       then (world s)\<lparr>fw_registry := registerFd fd Active ty (fw_registry (world s))\<rparr> else world s)"
    using step_construct.hyps(3) by (auto simp: FileDescriptor_new_def fd_valid_def Let_def)
  with fd_inv_adopt [OF step_construct.prems step_construct.hyps(1,2), of d ty] show ?case by simp
next
  case (step_construct_plain i s fd)
  from fd_inv_adopt [OF step_construct_plain.prems step_construct_plain.hyps(1,2), of "FileDescriptor_of_fd fd" UnknownFd]
  show ?case by (simp add: FileDescriptor_of_fd_def FileDescriptor_default_def)
next
  case (step_move i s j d other)
  then show ?case by (intro fd_inv_swap) (auto simp: fd_move_def)
qed (auto intro: fd_inv_close_unowned fd_inv_move_assign fd_inv_reset fd_inv_drop(1) fd_inv_clear(1)
    simp: fd_destroy_def)

interpretation fds: transition_system fd_start fd_step fd_inv
proof unfold_locales
  show "fd_start s \<Longrightarrow> fd_inv s" for s
    by (auto simp: fd_start_def fd_inv_defs FileDescriptor_default_def active_fds_def reg_inv_def hmap_wf_def)
qed (rule fd_step_inv)

section \<open>Properties\<close>

text \<open>
  \<^bold>\<open>C16\<close> Single ownership of descriptors: however constructors, moves, move assignments, resets, releases and
  destructors of handles are interleaved, no \<^verbatim>\<open>close\<close> is ever called on a descriptor that is not open
  (no double close), no descriptor has two owners, every owned descriptor is open, and the registry
  marks as Active exactly the descriptors some registered handle owns; so the shutdown report of
  the daemon finds a leak exactly when a registered handle still owns a descriptor.
\<close>

theorem fd_single_ownership:
  assumes "fd_start s" and "fd_step\<^sup>*\<^sup>* s t" and "hash_order order"
  shows "fw_bad_closes (world t) = 0 \<and> single_owner t \<and>
    (\<forall>i. fd_valid (handles t i) \<longrightarrow> d_fd (handles t i) \<in> set (fw_open (world t))) \<and>
    active_fds (fw_registry (world t)) = owned_registered t \<and>
    (fst (report_leaks order (fw_registry (world t)) e) \<longleftrightarrow>
       (\<exists>i. fd_valid (handles t i) \<and> d_registry (handles t i)))"
proof -
  have inv: "fd_inv t" by (rule fds.reachable_invariant [OF assms(1,2)])
  have "owned_registered t \<noteq> {} \<longleftrightarrow> (\<exists>i. fd_valid (handles t i) \<and> d_registry (handles t i))"
    by (auto simp: owned_registered_def fd_valid_def)
  with inv report_leaks_detects [OF assms(3)] show ?thesis by (simp add: fd_inv_def)
qed

definition fd_demo_start :: fd_system where
  "fd_demo_start = \<lparr>handles = (\<lambda>_. FileDescriptor_default),
     world = \<lparr>fw_registry = [], fw_open = [], fw_bad_closes = 0\<rparr>\<rparr>"

definition fd_demo_open :: fd_system where
  "fd_demo_open = fd_demo_start\<lparr>world := (world fd_demo_start)\<lparr>fw_open := [5]\<rparr>\<rparr>"

definition fd_demo_leak :: fd_system where
  "fd_demo_leak = (let (d, w) = FileDescriptor_new 5 True UdpSocket (world fd_demo_open)
     in fd_demo_open\<lparr>handles := (handles fd_demo_open)(0 := d), world := w\<rparr>)"

theorem fd_single_ownership_witness:
  "fw_bad_closes (world fd_demo_leak) = 0 \<and>
   fst (report_leaks id (fw_registry (world fd_demo_leak)) env_demo)"
proof -
  have s: "fd_start fd_demo_start" by (simp add: fd_start_def fd_demo_start_def)
  have "fd_step fd_demo_start (fd_demo_start\<lparr>world := (world fd_demo_start)\<lparr>fw_open := 5 # fw_open (world fd_demo_start)\<rparr>\<rparr>)"
    by (rule step_open) (simp_all add: fd_demo_start_def)
  then have 1: "fd_step fd_demo_start fd_demo_open" by (simp add: fd_demo_open_def fd_demo_start_def)
  obtain d w where n: "FileDescriptor_new 5 True UdpSocket (world fd_demo_open) = (d, w)" by fastforce
  have "fd_step fd_demo_open (fd_demo_open\<lparr>handles := (handles fd_demo_open)(0 := d), world := w\<rparr>)"
    by (rule step_construct [OF _ _ n])
      (simp_all add: fd_demo_open_def fd_demo_start_def empty_slot_def unowned_def fd_valid_def FileDescriptor_default_def)
  then have 2: "fd_step fd_demo_open fd_demo_leak" by (simp add: fd_demo_leak_def n)
  have "fd_step\<^sup>*\<^sup>* fd_demo_start fd_demo_leak" using 1 2 by (meson rtranclp.simps)
  moreover have "fd_valid (handles fd_demo_leak 0) \<and> d_registry (handles fd_demo_leak 0)"
    by (simp add: fd_demo_leak_def FileDescriptor_new_def fd_valid_def Let_def)
  ultimately show ?thesis
    using fd_single_ownership [OF s, of fd_demo_leak id] by (auto simp: hash_order_def)
qed

end
