(* ===== verification/Transport.thy ===== *)
theory Transport
  imports Fd_Registry Packet_Types
begin

text \<open>
  Transmission (transport/): the virtual and the UDP port backend behind the interface
  \<^verbatim>\<open>PortBackend\<close>, and \<^verbatim>\<open>TransportManager\<close>, which finds the backend of a port, calls it and keeps the
  counters. What the operating system answers (\<^verbatim>\<open>socket\<close>, \<^verbatim>\<open>inet_pton\<close>, \<^verbatim>\<open>sendto\<close>) is a parameter; a socket
  is a \<open>FileDescriptor\<close> of \<open>Fd_Registry\<close>. The manager is defined over any backend operation, as the C++
  code is over the abstract class; \<open>port_backend\<close> states what every backend guarantees.
\<close>

section \<open>Definitions\<close>

datatype TransmitStatus = Success | PortDown | BackendUnavailable | InvalidPacket | SendFailed

record TransmitResult =
  tr_status :: TransmitStatus
  tr_port_id :: u32
  tr_bytes_transmitted :: u64
  tr_native_error :: int

definition TransmitResult_default :: TransmitResult where
  "TransmitResult_default =
     \<lparr>tr_status = Success, tr_port_id = 0, tr_bytes_transmitted = 0, tr_native_error = 0\<rparr>"

record UdpEndpoint =
  ue_ip :: string
  ue_port :: u16

record UdpPortBackend =
  ub_port_id :: u32
  ub_endpoint :: UdpEndpoint
  ub_socket :: FileDescriptor
  ub_sin_addr :: u32

datatype PortBackend = VirtualPortBackend | UdpBackend UdpPortBackend

subsection \<open>The backends\<close>

text \<open>
  The constructor: \<open>sock\<close> and \<open>errno\<close> are the answer of \<^verbatim>\<open>socket\<close>, \<open>inet_pton\<close> gives the address of a
  dotted text or nothing. When it raises after the socket was opened, the destructor of the member
  \<open>socket_\<close> closes it.
\<close>

definition UdpPortBackend_new ::
  "int \<times> int \<Rightarrow> (string \<Rightarrow> u32 option) \<Rightarrow> u32 \<Rightarrow> UdpEndpoint \<Rightarrow> bool \<Rightarrow> fd_world \<Rightarrow>
     (exn + UdpPortBackend) \<times> fd_world" where
  "UdpPortBackend_new os_socket inet_pton port_id endpoint fd_registry w =
     (let (sock, errno) = os_socket;
          (socket, w) = FileDescriptor_new sock fd_registry UdpSocket w in
      if \<not> fd_valid socket
      then (Inl (SystemError errno ''Failed to create UDP socket''), snd (fd_destroy socket w))
      else case inet_pton (ue_ip endpoint) of
        None \<Rightarrow> (Inl (InvalidArgument (''Invalid IPv4 address: '' @ ue_ip endpoint)), snd (fd_destroy socket w))
      | Some addr \<Rightarrow>
          (Inr \<lparr>ub_port_id = port_id, ub_endpoint = endpoint, ub_socket = socket, ub_sin_addr = addr\<rparr>, w))"

definition udp_transmit :: "UdpPortBackend \<Rightarrow> Packet \<Rightarrow> env \<Rightarrow> TransmitResult \<times> env" where
  "udp_transmit b packet e =
     (if pk_payload packet = []
      then (TransmitResult_default\<lparr>tr_port_id := ub_port_id b\<rparr>, e)
      else
        let (bytes_sent, errno, e) = sys_sendto
              \<lparr>dg_fd = d_fd (ub_socket b), dg_payload = pk_payload packet, dg_addr = ub_sin_addr b,
               dg_port = ue_port (ub_endpoint b)\<rparr> e in
        if bytes_sent < 0
        then (TransmitResult_default\<lparr>tr_status := SendFailed, tr_native_error := errno\<rparr>, e)
        else
          (TransmitResult_default\<lparr>tr_port_id := ub_port_id b,
             tr_bytes_transmitted := ucast (word_of_int bytes_sent :: u32)\<rparr>,
           log_info (''UdpPortBackend: transmitted '' @ int_to_string bytes_sent @ '' bytes to '' @
             ue_ip (ub_endpoint b) @ '':'' @ to_string (ue_port (ub_endpoint b))) e))"

definition virtual_transmit :: "Packet \<Rightarrow> env \<Rightarrow> TransmitResult \<times> env" where
  "virtual_transmit packet e =
     (TransmitResult_default, log_debug ''VirtualPortBackend: transmit() called'' e)"

fun backend_transmit :: "PortBackend \<Rightarrow> Packet \<Rightarrow> env \<Rightarrow> TransmitResult \<times> env" where
  "backend_transmit VirtualPortBackend packet e = virtual_transmit packet e"
| "backend_transmit (UdpBackend b) packet e = udp_transmit b packet e"

fun backend_destroy :: "PortBackend \<Rightarrow> fd_world \<Rightarrow> fd_world" where
  "backend_destroy VirtualPortBackend w = w"
| "backend_destroy (UdpBackend b) w = snd (fd_destroy (ub_socket b) w)"

subsection \<open>The manager\<close>

record TransportCounters =
  tc_tx_packets :: u64
  tc_tx_bytes :: u64
  tc_tx_failed :: u64
  tc_backend_unavailable :: u64
  tc_port_down :: u64
  tc_invalid_packet :: u64

definition TransportCounters_default :: TransportCounters where
  "TransportCounters_default = \<lparr>tc_tx_packets = 0, tc_tx_bytes = 0, tc_tx_failed = 0,
     tc_backend_unavailable = 0, tc_port_down = 0, tc_invalid_packet = 0\<rparr>"

record 'b TransportManager =
  tm_backends :: "(u32, 'b) hmap"
  tm_counters :: TransportCounters

definition TransportManager_new :: "'b TransportManager" where
  "TransportManager_new = \<lparr>tm_backends = [], tm_counters = TransportCounters_default\<rparr>"

text \<open>Replacing the backend of a port destroys the old one.\<close>

definition registerBackend ::
  "u32 \<Rightarrow> PortBackend \<Rightarrow> PortBackend TransportManager \<times> fd_world \<Rightarrow> PortBackend TransportManager \<times> fd_world" where
  "registerBackend port_id backend = (\<lambda>(tm, w).
     (tm\<lparr>tm_backends := hmap_assign port_id backend (tm_backends tm)\<rparr>,
      case map_of (tm_backends tm) port_id of None \<Rightarrow> w | Some old \<Rightarrow> backend_destroy old w))"

definition count_unavailable :: "TransportCounters \<Rightarrow> TransportCounters" where
  "count_unavailable c = c\<lparr>tc_backend_unavailable := tc_backend_unavailable c + 1,
                           tc_tx_failed := tc_tx_failed c + 1\<rparr>"

definition count_result :: "TransmitResult \<Rightarrow> TransportCounters \<Rightarrow> TransportCounters" where
  "count_result result c =
     (case tr_status result of
        Success \<Rightarrow> c\<lparr>tc_tx_packets := tc_tx_packets c + 1,
                     tc_tx_bytes := tc_tx_bytes c + tr_bytes_transmitted result\<rparr>
      | PortDown \<Rightarrow> c\<lparr>tc_tx_failed := tc_tx_failed c + 1, tc_port_down := tc_port_down c + 1\<rparr>
      | BackendUnavailable \<Rightarrow> c\<lparr>tc_tx_failed := tc_tx_failed c + 1,
                                tc_backend_unavailable := tc_backend_unavailable c + 1\<rparr>
      | InvalidPacket \<Rightarrow> c\<lparr>tc_tx_failed := tc_tx_failed c + 1, tc_invalid_packet := tc_invalid_packet c + 1\<rparr>
      | SendFailed \<Rightarrow> c\<lparr>tc_tx_failed := tc_tx_failed c + 1\<rparr>)"

definition transmit_with ::
  "('b \<Rightarrow> Packet \<Rightarrow> env \<Rightarrow> TransmitResult \<times> env) \<Rightarrow> u32 \<Rightarrow> Packet \<Rightarrow> 'b TransportManager \<Rightarrow> env \<Rightarrow>
     TransmitResult \<times> 'b TransportManager \<times> env" where
  "transmit_with send port_id packet tm e =
     (case map_of (tm_backends tm) port_id of
        None \<Rightarrow>
          (TransmitResult_default\<lparr>tr_status := BackendUnavailable, tr_port_id := port_id\<rparr>,
           tm\<lparr>tm_counters := count_unavailable (tm_counters tm)\<rparr>, e)
      | Some backend \<Rightarrow>
          let (result, e) = send backend packet e
          in (result, tm\<lparr>tm_counters := count_result result (tm_counters tm)\<rparr>, e))"

definition transmit ::
  "u32 \<Rightarrow> Packet \<Rightarrow> PortBackend TransportManager \<Rightarrow> env \<Rightarrow> TransmitResult \<times> PortBackend TransportManager \<times> env" where
  "transmit = transmit_with backend_transmit"

definition resetCounters :: "'b TransportManager \<Rightarrow> 'b TransportManager" where
  "resetCounters tm = tm\<lparr>tm_counters := TransportCounters_default\<rparr>"

text \<open>A sequence of transmissions, with the results in order.\<close>

fun transmit_all ::
  "('b \<Rightarrow> Packet \<Rightarrow> env \<Rightarrow> TransmitResult \<times> env) \<Rightarrow> (u32 \<times> Packet) list \<Rightarrow> 'b TransportManager \<Rightarrow> env \<Rightarrow>
     TransmitResult list \<times> 'b TransportManager \<times> env" where
  "transmit_all send [] tm e = ([], tm, e)"
| "transmit_all send ((port, packet) # rest) tm e =
     (let (r, tm, e) = transmit_with send port packet tm e;
          (rs, tm, e) = transmit_all send rest tm e
      in (r # rs, tm, e))"

section \<open>Counters\<close>

definition with_status :: "TransmitStatus \<Rightarrow> TransmitResult list \<Rightarrow> nat" where
  "with_status st rs = length (filter (\<lambda>r. tr_status r = st) rs)"

definition bytes_of :: "TransmitResult list \<Rightarrow> u64" where
  "bytes_of rs = sum_list (map tr_bytes_transmitted (filter (\<lambda>r. tr_status r = Success) rs))"

text \<open>What the counters should be after the results \<open>rs\<close>.\<close>

definition account :: "TransmitResult list \<Rightarrow> TransportCounters \<Rightarrow> TransportCounters" where
  "account rs c = \<lparr>
     tc_tx_packets = tc_tx_packets c + of_nat (with_status Success rs),
     tc_tx_bytes = tc_tx_bytes c + bytes_of rs,
     tc_tx_failed = tc_tx_failed c + of_nat (length rs - with_status Success rs),
     tc_backend_unavailable = tc_backend_unavailable c + of_nat (with_status BackendUnavailable rs),
     tc_port_down = tc_port_down c + of_nat (with_status PortDown rs),
     tc_invalid_packet = tc_invalid_packet c + of_nat (with_status InvalidPacket rs)\<rparr>"

lemma with_status_le: "with_status st rs \<le> length rs"
  by (simp add: with_status_def)

lemma account_Nil [simp]: "account [] c = c"
  by (simp add: account_def with_status_def bytes_of_def)

lemma account_Cons: "account (r # rs) c = account rs (count_result r c)"
proof -
  have "length rs \<ge> with_status Success rs" by (rule with_status_le)
  then show ?thesis
    by (cases "tr_status r")
      (simp_all add: account_def count_result_def with_status_def bytes_of_def Suc_diff_le add.assoc)
qed

lemma transmit_with_counts:
  "transmit_with send p pkt tm e = (r, tm', e') \<Longrightarrow>
     tm_backends tm' = tm_backends tm \<and> tm_counters tm' = count_result r (tm_counters tm)"
  by (auto simp: transmit_with_def count_result_def count_unavailable_def TransmitResult_default_def
      split: option.splits prod.splits)

lemma transmit_all_counts:
  "transmit_all send ps tm e = (rs, tm', e') \<Longrightarrow>
     length rs = length ps \<and> tm_backends tm' = tm_backends tm \<and> tm_counters tm' = account rs (tm_counters tm)"
proof (induction ps arbitrary: tm e rs)
  case (Cons p ps)
  obtain port pkt where p: "p = (port, pkt)" by (cases p)
  obtain r tm1 e1 where 1: "transmit_with send port pkt tm e = (r, tm1, e1)" by (cases "transmit_with send port pkt tm e")
  obtain rs1 where 2: "transmit_all send ps tm1 e1 = (rs1, tm', e')" and rs: "rs = r # rs1"
    using Cons.prems by (auto simp: p 1 split: prod.splits)
  show ?case using Cons.IH [OF 2] transmit_with_counts [OF 1] by (simp add: rs account_Cons)
qed simp

section \<open>What a backend guarantees\<close>

text \<open>
  A transmission succeeds or fails in the operating system's send; it hands the system at most one
  datagram, with exactly the payload of the packet; it reports no bytes unless it succeeded; and
  it leaves the clocks and the logger alone.
\<close>

locale port_backend =
  fixes send :: "'b \<Rightarrow> Packet \<Rightarrow> env \<Rightarrow> TransmitResult \<times> env"
  assumes status_cases: "send b p e = (r, e') \<Longrightarrow> tr_status r = Success \<or> tr_status r = SendFailed"
    and failed_bytes: "send b p e = (r, e') \<Longrightarrow> tr_status r \<noteq> Success \<Longrightarrow> tr_bytes_transmitted r = 0"
    and datagrams: "send b p e = (r, e') \<Longrightarrow>
      \<exists>ds. send_calls e' = send_calls e @ ds \<and> length ds \<le> 1 \<and> (\<forall>d \<in> set ds. dg_payload d = pk_payload p)"
    and send_frame: "send b p e = (r, e') \<Longrightarrow>
      ms_clock e' = ms_clock e \<and> ms_reads e' = ms_reads e \<and> ns_clock e' = ns_clock e \<and>
      ns_reads e' = ns_reads e \<and> logger_instance e' = logger_instance e"
begin

text \<open>The manager reports an unavailable backend exactly for the ports without one.\<close>

lemma unavailable_iff:
  "transmit_with send port pkt tm e = (r, tm', e') \<Longrightarrow>
     tr_status r = BackendUnavailable \<longleftrightarrow> map_of (tm_backends tm) port = None"
  using status_cases by (fastforce simp: transmit_with_def split: option.splits prod.splits)

lemma transmit_status_cases:
  "transmit_with send port pkt tm e = (r, tm', e') \<Longrightarrow>
     tr_status r = Success \<or> tr_status r = SendFailed \<or> tr_status r = BackendUnavailable"
  using status_cases by (fastforce simp: transmit_with_def split: option.splits prod.splits)

lemma transmit_frame:
  "transmit_with send port pkt tm e = (r, tm', e') \<Longrightarrow>
      ms_clock e' = ms_clock e \<and> ms_reads e' = ms_reads e \<and> ns_clock e' = ns_clock e \<and>
      ns_reads e' = ns_reads e \<and> logger_instance e' = logger_instance e"
  using send_frame by (fastforce simp: transmit_with_def split: option.splits prod.splits)

lemma transmit_all_results:
  "transmit_all send ps tm e = (rs, tm', e') \<Longrightarrow> i < length ps \<Longrightarrow>
     (tr_status (rs ! i) = BackendUnavailable \<longleftrightarrow> map_of (tm_backends tm) (fst (ps ! i)) = None) \<and>
     tr_status (rs ! i) \<in> {Success, SendFailed, BackendUnavailable}"
proof (induction ps arbitrary: tm e rs i)
  case (Cons p ps)
  obtain port pkt where p: "p = (port, pkt)" by (cases p)
  obtain r tm1 e1 where 1: "transmit_with send port pkt tm e = (r, tm1, e1)"
    by (cases "transmit_with send port pkt tm e")
  obtain rs1 where 2: "transmit_all send ps tm1 e1 = (rs1, tm', e')" and rs: "rs = r # rs1"
    using Cons.prems by (auto simp: p 1 split: prod.splits)
  show ?case
  proof (cases i)
    case 0
    then show ?thesis using unavailable_iff [OF 1] transmit_status_cases [OF 1] by (auto simp: rs p)
  next
    case (Suc j)
    then show ?thesis using Cons.IH [OF 2, of j] Cons.prems(2) transmit_with_counts [OF 1] by (auto simp: rs)
  qed
qed simp

end

lemma udp_transmit_empty:
  "pk_payload p = [] \<Longrightarrow> udp_transmit b p e = (TransmitResult_default\<lparr>tr_port_id := ub_port_id b\<rparr>, e)"
  by (simp add: udp_transmit_def)

interpretation pb: port_backend backend_transmit
proof unfold_locales
  fix b p e r e'
  assume t: "backend_transmit b p e = (r, e')"
  show "tr_status r = Success \<or> tr_status r = SendFailed"
    using t by (cases b) (auto simp: virtual_transmit_def udp_transmit_def TransmitResult_default_def
        Let_def split: if_splits prod.splits)
  show "tr_status r \<noteq> Success \<Longrightarrow> tr_bytes_transmitted r = 0"
    using t by (cases b) (auto simp: virtual_transmit_def udp_transmit_def TransmitResult_default_def
        Let_def split: if_splits prod.splits)
  show "\<exists>ds. send_calls e' = send_calls e @ ds \<and> length ds \<le> 1 \<and> (\<forall>d \<in> set ds. dg_payload d = pk_payload p)"
    using t by (cases b) (auto simp: virtual_transmit_def udp_transmit_def sys_sendto_def log_defs frame_simps
        Let_def split: if_splits prod.splits)
  show "ms_clock e' = ms_clock e \<and> ms_reads e' = ms_reads e \<and> ns_clock e' = ns_clock e \<and>
      ns_reads e' = ns_reads e \<and> logger_instance e' = logger_instance e"
    using t by (cases b) (auto simp: virtual_transmit_def udp_transmit_def sys_sendto_def log_defs frame_simps
        Let_def split: if_splits prod.splits)
qed

lemma status_partition:
  assumes "\<forall>i < length rs. tr_status (rs ! i) \<in> {Success, SendFailed, BackendUnavailable}"
  shows "length rs = with_status Success rs + with_status SendFailed rs + with_status BackendUnavailable rs"
proof -
  have "\<forall>r \<in> set rs. tr_status r \<in> {Success, SendFailed, BackendUnavailable}"
    using assms by (metis in_set_conv_nth)
  then show ?thesis by (induction rs) (auto simp: with_status_def)
qed

section \<open>Properties\<close>

text \<open>
  \<^bold>\<open>C31\<close> The transport counters account for every transmission since the last reset: each call counts
  once, as transmitted when its result is a success and as failed otherwise; failed transmissions are exactly those
  to a port without a backend, which are also counted as such, and those for which the backend reports a failure;
  a call reports an unavailable backend exactly when its port has none; and \<open>tx_bytes\<close> is the sum of the bytes of the
  successful results (all counters modulo \<open>2\<^sup>6\<^sup>4\<close>).
\<close>

theorem transmissions_accounted:
  assumes "transmit_all backend_transmit ps (resetCounters tm) e = (rs, tm', e')"
  shows "tc_tx_packets (tm_counters tm') + tc_tx_failed (tm_counters tm') = of_nat (length ps) \<and>
    tc_tx_packets (tm_counters tm') = of_nat (with_status Success rs) \<and>
    tc_tx_failed (tm_counters tm') =
      tc_backend_unavailable (tm_counters tm') + of_nat (with_status SendFailed rs) \<and>
    tc_tx_bytes (tm_counters tm') = bytes_of rs \<and>
    (\<forall>i < length ps. tr_status (rs ! i) = BackendUnavailable \<longleftrightarrow> map_of (tm_backends tm) (fst (ps ! i)) = None)"
proof -
  have len: "length rs = length ps" and c: "tm_counters tm' = account rs TransportCounters_default"
    using transmit_all_counts [OF assms] by (simp_all add: resetCounters_def)
  have part: "length rs = with_status Success rs + with_status SendFailed rs + with_status BackendUnavailable rs"
    using pb.transmit_all_results [OF assms, THEN conjunct2] len by (intro status_partition) simp
  show ?thesis
    using pb.transmit_all_results [OF assms, THEN conjunct1] part
    by (auto simp: c account_def TransportCounters_default_def len [symmetric] resetCounters_def)
qed

definition tm_demo :: "PortBackend TransportManager" where
  "tm_demo = fst (registerBackend 1 VirtualPortBackend
     (TransportManager_new, \<lparr>fw_registry = [], fw_open = [], fw_bad_closes = 0\<rparr>))"

theorem transmissions_accounted_witness:
  "let (rs, tm', e') = transmit_all backend_transmit [(1, Packet_default), (2, Packet_default)]
     (resetCounters tm_demo) env_demo
   in tc_tx_packets (tm_counters tm') + tc_tx_failed (tm_counters tm') = 2 \<and>
      map tr_status rs = [Success, BackendUnavailable]"
proof -
  obtain rs tm' e' where run: "transmit_all backend_transmit [(1, Packet_default), (2, Packet_default)]
     (resetCounters tm_demo) env_demo = (rs, tm', e')"
    by (cases "transmit_all backend_transmit [(1, Packet_default), (2, Packet_default)] (resetCounters tm_demo) env_demo")
  have "map tr_status rs = [Success, BackendUnavailable]"
    using run by (auto simp: tm_demo_def registerBackend_def TransportManager_new_def resetCounters_def
        transmit_with_def virtual_transmit_def TransmitResult_default_def)
  moreover have "tc_tx_packets (tm_counters tm') + tc_tx_failed (tm_counters tm') = 2"
    using transmissions_accounted [OF run, THEN conjunct1] by simp
  ultimately show ?thesis unfolding run Let_def prod.case by blast
qed

text \<open>
  The constructor of the UDP backend is exception safe: given a socket descriptor the system just
  opened (not yet active in the registry), when construction raises the descriptor is closed again,
  exactly once, and the registry lists no new active descriptor; when it succeeds the
  descriptor is open, registered and owned by the backend.
\<close>

theorem udp_backend_construction:
  assumes "UdpPortBackend_new (sock, errno) inet_pton port endpoint True w = (res, w')"
    and "sock \<ge> 0 \<longrightarrow> sock \<in> set (fw_open w)" and "sock \<notin> active_fds (fw_registry w)"
  shows "(case res of
      Inl ex \<Rightarrow> set (fw_open w') = set (fw_open w) - (if sock \<ge> 0 then {sock} else {}) \<and>
                active_fds (fw_registry w') = active_fds (fw_registry w) \<and>
                ex = (if sock < 0 then SystemError errno ''Failed to create UDP socket''
                      else InvalidArgument (''Invalid IPv4 address: '' @ ue_ip endpoint))
    | Inr b \<Rightarrow> sock \<ge> 0 \<and> d_fd (ub_socket b) = sock \<and> fw_open w' = fw_open w \<and>
               active_fds (fw_registry w') = insert sock (active_fds (fw_registry w)) \<and>
               inet_pton (ue_ip endpoint) = Some (ub_sin_addr b)) \<and>
    fw_bad_closes w' = fw_bad_closes w"
  using assms
  by (auto simp: UdpPortBackend_new_def FileDescriptor_new_def fd_destroy_def fd_reset_def fd_valid_def
      sys_close_def Let_def split: if_splits option.splits)

theorem udp_backend_construction_witness:
  "let (res, w') = UdpPortBackend_new (7, 0) (\<lambda>_. None) 1 \<lparr>ue_ip = ''nowhere'', ue_port = 9\<rparr> True
      \<lparr>fw_registry = [], fw_open = [7], fw_bad_closes = 0\<rparr>
   in set (fw_open w') = {} \<and> active_fds (fw_registry w') = {} \<and>
      res = Inl (InvalidArgument ''Invalid IPv4 address: nowhere'')"
proof -
  let ?w = "\<lparr>fw_registry = [], fw_open = [7], fw_bad_closes = 0\<rparr>"
  obtain res w' where run: "UdpPortBackend_new (7, 0) (\<lambda>_. None) 1 \<lparr>ue_ip = ''nowhere'', ue_port = 9\<rparr> True ?w = (res, w')"
    by fastforce
  moreover have "active_fds [] = {}" by (simp add: active_fds_def)
  ultimately show ?thesis
    using udp_backend_construction [OF run] by (auto split: sum.splits)
qed

end
