(* ===== verification/Packet_Processor.thy ===== *)
theory Packet_Processor
  imports Forwarding_Engine Failure_Injector Transport Telemetry_Export
begin

text \<open>
  \<^verbatim>\<open>PacketProcessor\<close> (packet/PacketProcessor): the callback on received packets (fault injection, then
  admission to a queue of at most 1024 packets that drops the newest) and the worker that takes packets
  from the queue, forwards and transmits them and publishes the outcome. Each operation returns the messages it
  publishes. The engine and the transport manager are optional, as the pointers of the code.
\<close>

section \<open>Definitions\<close>

record PacketProcessor =
  pp_queue :: "Packet list"
  pp_running :: bool
  pp_injector :: FailureInjector
  pp_forwarding_engine :: "SwitchForwardingEngine option"
  pp_transport_manager :: "PortBackend TransportManager option"

definition MAX_QUEUE_SIZE :: nat where
  "MAX_QUEUE_SIZE = 1024"

definition PROCESSOR_MAX_PAYLOAD_SIZE :: nat where
  "PROCESSOR_MAX_PAYLOAD_SIZE = 512"

definition PacketProcessor_new ::
  "SwitchForwardingEngine option \<Rightarrow> PortBackend TransportManager option \<Rightarrow> FailureInjector \<Rightarrow> PacketProcessor" where
  "PacketProcessor_new engine transport injector =
     \<lparr>pp_queue = [], pp_running = True, pp_injector = injector, pp_forwarding_engine = engine,
      pp_transport_manager = transport\<rparr>"

subsection \<open>Logging of transmissions\<close>

fun status_toString :: "TransmitStatus \<Rightarrow> string" where
  "status_toString Success = ''success''"
| "status_toString PortDown = ''port_down''"
| "status_toString BackendUnavailable = ''backend_unavailable''"
| "status_toString InvalidPacket = ''invalid_packet''"
| "status_toString SendFailed = ''send_failed''"

definition logTransmitResult :: "TransmitResult \<Rightarrow> env \<Rightarrow> env" where
  "logTransmitResult result =
     (let port = ''port='' @ to_string (tr_port_id result) @ '' status='' @ status_toString (tr_status result) in
      case tr_status result of
        Success \<Rightarrow> log_info (''Transport transmit: '' @ port @ '' bytes='' @ to_string (tr_bytes_transmitted result))
      | PortDown \<Rightarrow> log_warn (''Transport transmit skipped: '' @ port)
      | BackendUnavailable \<Rightarrow> log_warn (''Transport backend unavailable: '' @ port)
      | InvalidPacket \<Rightarrow> log_warn (''Transport transmit rejected: '' @ port)
      | SendFailed \<Rightarrow> log_error (''Transport transmit failed: '' @ port @ '' errno='' @ int_to_string (tr_native_error result)))"

subsection \<open>Reception\<close>

fun injected_reason :: "FailureType \<Rightarrow> PacketDropReason" where
  "injected_reason MalformedPacket = ParseError"
| "injected_reason InjectedValidationError = ValidationError"
| "injected_reason InjectedLoss = SimulatedLoss"
| "injected_reason ProcessingRejection = ProcessingError"
| "injected_reason _ = InternalError"

definition handleInjectedFailure :: "Packet \<Rightarrow> FailureResult \<Rightarrow> u64 \<Rightarrow> Message list" where
  "handleInjectedFailure pkt failure now_ms =
     [drop_message (injected_reason (fr_type failure)) now_ms (pk_id pkt) (pk_lifecycle_id pkt)]"

text \<open>Admission under the queue's lock: the queue after it and the packet, if it was refused.\<close>

definition admit :: "Packet \<Rightarrow> Packet list \<Rightarrow> Packet list \<times> Packet list" where
  "admit packet queue =
     (if length queue \<ge> MAX_QUEUE_SIZE then (queue, [packet]) else (queue @ [packet], []))"

definition processor_onPacketRx ::
  "Message \<Rightarrow> PacketProcessor \<times> env \<Rightarrow> (PacketProcessor \<times> env) \<times> Message list" where
  "processor_onPacketRx msg = (\<lambda>(p, e).
     case get_if_packet (m_payload msg) of
       None \<Rightarrow> ((p, e), [])
     | Some packet \<Rightarrow>
         let (now_ms, e) = nowMs e;
             (failure, injector) = inject packet (pp_injector p);
             p = p\<lparr>pp_injector := injector\<rparr> in
         if fr_is_terminal failure then ((p, e), handleInjectedFailure packet failure now_ms)
         else
           let e = (if fr_type failure = ArtificialDelay \<and> fr_delay_ms failure > 0
                    then sleep_ms \<lfloor>fr_delay_ms failure\<rfloor> e else e);
               (queue, refused) = admit packet (pp_queue p);
               p = p\<lparr>pp_queue := queue\<rparr> in
           if refused \<noteq> []
           then ((p, e), [drop_message QueueOverflow now_ms (pk_id packet) (pk_lifecycle_id packet)])
           else ((p, e), []))"

subsection \<open>The worker\<close>

definition processLoop_step :: "PacketProcessor \<Rightarrow> (Packet, PacketProcessor) loop_step" where
  "processLoop_step p =
     (case pp_queue p of
        [] \<Rightarrow> if pp_running p then Waiting else Stopped
      | packet # rest \<Rightarrow> Took packet (p\<lparr>pp_queue := rest\<rparr>))"

fun transmit_loop ::
  "u32 list \<Rightarrow> Packet \<Rightarrow> PortBackend TransportManager \<Rightarrow> env \<Rightarrow> PortBackend TransportManager \<times> env" where
  "transmit_loop [] packet tm e = (tm, e)"
| "transmit_loop (port # ports) packet tm e =
     (let (result, tm, e) = transmit port packet tm e
      in transmit_loop ports packet tm (logTransmitResult result e))"

definition dispatch_transmit ::
  "ForwardingDecision \<Rightarrow> Packet \<Rightarrow> PortBackend TransportManager option \<Rightarrow> env \<Rightarrow>
     PortBackend TransportManager option \<times> env" where
  "dispatch_transmit decision packet transport e =
     (case transport of
        None \<Rightarrow> (None, e)
      | Some tm \<Rightarrow>
          if fd_egress_ports decision \<noteq> []
          then let (tm, e) = transmit_loop (fd_egress_ports decision) packet tm e in (Some tm, e)
          else (Some tm, log_debug ''Transport dispatch skipped: no egress ports'' e))"

definition processed_message :: "Packet \<Rightarrow> Message" where
  "processed_message packet =
     \<lparr>m_type = T_PacketProcessed, m_timestamp_ms = pk_timestamp_ms packet, m_payload = P_Packet packet\<rparr>"

definition forwarding_message :: "Packet \<Rightarrow> ForwardingDecision \<Rightarrow> Message" where
  "forwarding_message packet decision =
     \<lparr>m_type = T_ForwardingDecisionMade, m_timestamp_ms = pk_timestamp_ms packet,
      m_payload = P_Forwarding \<lparr>fe_lifecycle_id = pk_lifecycle_id packet, fe_action = fd_action decision,
                                fe_egress_ports = fd_egress_ports decision\<rparr>\<rparr>"

definition processPacket ::
  "Packet \<Rightarrow> PacketProcessor \<times> env \<Rightarrow> (PacketProcessor \<times> env) \<times> Message list" where
  "processPacket packet = (\<lambda>(p, e).
     if length (pk_payload packet) > PROCESSOR_MAX_PAYLOAD_SIZE
     then ((p, e), [drop_message ValidationError (pk_timestamp_ms packet) (pk_id packet) (pk_lifecycle_id packet)])
     else if pk_timestamp_ms packet = 0
     then let (now_ms, e) = nowMs e
          in ((p, e), [drop_message ValidationError now_ms (pk_id packet) (pk_lifecycle_id packet)])
     else
       let packet = packet\<lparr>pk_payload_size := of_nat (length (pk_payload packet))\<rparr> in
       case (pp_forwarding_engine p, pk_ingress_port packet) of
         (Some engine, Some ingress_port) \<Rightarrow>
           let (decision, engine) = engine_processPacket packet ingress_port (pk_timestamp_ms packet) engine;
               (transport, e) = dispatch_transmit decision packet (pp_transport_manager p) e
           in ((p\<lparr>pp_forwarding_engine := Some engine, pp_transport_manager := transport\<rparr>, e),
               [forwarding_message packet decision, processed_message packet])
       | _ \<Rightarrow> ((p, e), [processed_message packet]))"

definition processor_stop :: "PacketProcessor \<Rightarrow> PacketProcessor" where
  "processor_stop p = p\<lparr>pp_running := False\<rparr>"

section \<open>Admission as a bounded first-in first-out hand-off\<close>

definition queue_inv :: "Packet list \<Rightarrow> bool" where
  "queue_inv q = (length q \<le> MAX_QUEUE_SIZE)"

definition take_front :: "Packet list \<Rightarrow> (Packet \<times> Packet list) option" where
  "take_front q = (case q of [] \<Rightarrow> None | packet # rest \<Rightarrow> Some (packet, rest))"

interpretation pq: bounded_fifo queue_inv "\<lambda>q. q" "\<lambda>_. MAX_QUEUE_SIZE" admit take_front
  by unfold_locales (auto simp: queue_inv_def admit_def take_front_def split: if_splits list.splits)

lemma queue_inv_admit: "queue_inv q \<Longrightarrow> queue_inv (fst (admit x q))"
  using pq.invar_push by (metis prod.collapse)

section \<open>Outcomes\<close>

lemma rx_not_packet:
  "get_if_packet (m_payload msg) = None \<Longrightarrow> processor_onPacketRx msg (p, e) = ((p, e), [])"
  by (simp add: processor_onPacketRx_def)

lemma rx_outcome:
  assumes "get_if_packet (m_payload msg) = Some packet"
  shows "\<exists>p' e' ms. processor_onPacketRx msg (p, e) = ((p', e'), ms) \<and> pp_running p' = pp_running p \<and>
    pp_forwarding_engine p' = pp_forwarding_engine p \<and> pp_transport_manager p' = pp_transport_manager p \<and>
    (ms = [] \<and> length (pp_queue p) < MAX_QUEUE_SIZE \<and> pp_queue p' = pp_queue p @ [packet] \<or>
     pp_queue p' = pp_queue p \<and> (\<exists>reason ts. ms = [drop_message reason ts (pk_id packet) (pk_lifecycle_id packet)]))"
proof -
  obtain failure injector where i: "inject packet (pp_injector p) = (failure, injector)"
    by (cases "inject packet (pp_injector p)")
  obtain now e1 where n: "nowMs e = (now, e1)" by (cases "nowMs e")
  show ?thesis
    using assms
    by (cases "fr_is_terminal failure"; cases "length (pp_queue p) \<ge> MAX_QUEUE_SIZE")
      (auto simp: processor_onPacketRx_def handleInjectedFailure_def admit_def i n Let_def)
qed

text \<open>Overflow is reported only when the queue is full.\<close>

lemma rx_overflow:
  assumes "get_if_packet (m_payload msg) = Some packet"
    and "processor_onPacketRx msg (p, e) = ((p', e'), [drop_message QueueOverflow ts i l])"
  shows "length (pp_queue p) \<ge> MAX_QUEUE_SIZE"
proof -
  have "injected_reason t \<noteq> QueueOverflow" for t by (cases t) auto
  then show ?thesis
    using assms
    by (auto simp: processor_onPacketRx_def handleInjectedFailure_def admit_def drop_message_def Let_def
        split: if_splits prod.splits)
qed

definition is_terminal_for :: "u64 \<Rightarrow> Message \<Rightarrow> bool" where
  "is_terminal_for l m =
     (m_type m = T_PacketProcessed \<and> (\<exists>p. m_payload m = P_Packet p \<and> pk_lifecycle_id p = l) \<or>
      m_type m = T_PacketDropped \<and> (\<exists>d. m_payload m = P_Dropped d \<and> pd_lifecycle_id d = l))"

lemma drop_is_terminal [simp]: "is_terminal_for l (drop_message r ts i l') \<longleftrightarrow> l' = l"
  by (auto simp: is_terminal_for_def)

lemma process_outcome:
  "\<exists>p' e' fwd t. processPacket packet (p, e) = ((p', e'), fwd @ [t]) \<and>
     pp_queue p' = pp_queue p \<and> pp_running p' = pp_running p \<and> pp_injector p' = pp_injector p \<and>
     is_terminal_for (pk_lifecycle_id packet) t \<and> well_typed t \<and>
     length fwd \<le> 1 \<and> (\<forall>m \<in> set fwd. m_type m = T_ForwardingDecisionMade \<and> well_typed m)"
proof -
  have proc: "is_terminal_for (pk_lifecycle_id packet) (processed_message (packet\<lparr>pk_payload_size := n\<rparr>))"
    "well_typed (processed_message q)" for n q
    by (auto simp: is_terminal_for_def processed_message_def well_typed_def)
  have fwd: "m_type (forwarding_message q d) = T_ForwardingDecisionMade" "well_typed (forwarding_message q d)" for q d
    by (simp_all add: forwarding_message_def well_typed_def)
  consider (big) "length (pk_payload packet) > PROCESSOR_MAX_PAYLOAD_SIZE"
    | (early) "\<not> length (pk_payload packet) > PROCESSOR_MAX_PAYLOAD_SIZE" "pk_timestamp_ms packet = 0"
    | (plain) "\<not> length (pk_payload packet) > PROCESSOR_MAX_PAYLOAD_SIZE" "pk_timestamp_ms packet \<noteq> 0"
        "pp_forwarding_engine p = None \<or> pk_ingress_port packet = None"
    | (forwarded) engine port where "\<not> length (pk_payload packet) > PROCESSOR_MAX_PAYLOAD_SIZE"
        "pk_timestamp_ms packet \<noteq> 0" "pp_forwarding_engine p = Some engine" "pk_ingress_port packet = Some port"
    by (cases "pp_forwarding_engine p"; cases "pk_ingress_port packet"; blast)
  then show ?thesis
  proof cases
    case big
    then show ?thesis by (simp add: processPacket_def exI [of _ "[]"])
  next
    case early
    then show ?thesis by (simp add: processPacket_def split_beta exI [of _ "[]"])
  next
    case plain
    then show ?thesis
      using proc by (auto simp: processPacket_def Let_def split: option.split intro!: exI [of _ "[]"])
  next
    case forwarded
    then show ?thesis
      using proc fwd by (auto simp: processPacket_def Let_def split_beta intro!: exI [of _ "[forwarding_message _ _]"])
  qed
qed

section \<open>Transmission\<close>

definition udp_datagram :: "Packet \<Rightarrow> UdpPortBackend \<Rightarrow> datagram" where
  "udp_datagram packet b = \<lparr>dg_fd = d_fd (ub_socket b), dg_payload = pk_payload packet, dg_addr = ub_sin_addr b,
     dg_port = ue_port (ub_endpoint b)\<rparr>"

definition udp_backends :: "PortBackend TransportManager \<Rightarrow> u32 list \<Rightarrow> UdpPortBackend list" where
  "udp_backends tm ports = List.map_filter (\<lambda>port. case map_of (tm_backends tm) port of
     Some (UdpBackend b) \<Rightarrow> Some b | _ \<Rightarrow> None) ports"

lemma send_calls_log [simp]: "send_calls (logTransmitResult r e) = send_calls e"
  by (simp add: logTransmitResult_def log_defs frame_simps Let_def split: TransmitStatus.split)

lemma transmit_datagrams:
  assumes "pk_payload packet \<noteq> []" and "transmit port packet tm e = (r, tm', e')"
  shows "send_calls e' = send_calls e @ map (udp_datagram packet) (udp_backends tm [port]) \<and>
    tm_backends tm' = tm_backends tm"
  using assms
  by (auto simp: transmit_def transmit_with_def udp_backends_def map_filter_simps virtual_transmit_def udp_transmit_def
      sys_sendto_def udp_datagram_def log_defs frame_simps Let_def
      split: option.splits prod.splits PortBackend.splits if_splits)

lemma transmit_loop_datagrams:
  "pk_payload packet \<noteq> [] \<Longrightarrow> transmit_loop ports packet tm e = (tm', e') \<Longrightarrow>
     send_calls e' = send_calls e @ map (udp_datagram packet) (udp_backends tm ports)"
proof (induction ports packet tm e rule: transmit_loop.induct)
  case (2 port ports packet tm e)
  obtain r tm1 e1 where t: "transmit port packet tm e = (r, tm1, e1)" by (cases "transmit port packet tm e")
  have b: "udp_backends tm1 ports = udp_backends tm ports" "send_calls e1 = send_calls e @ map (udp_datagram packet) (udp_backends tm [port])"
    using transmit_datagrams [OF "2.prems"(1) t] by (simp_all add: udp_backends_def)
  have "udp_backends tm (port # ports) = udp_backends tm [port] @ udp_backends tm ports"
    by (simp add: udp_backends_def map_filter_simps split: option.split)
  moreover have "send_calls e' = send_calls (logTransmitResult r e1) @ map (udp_datagram packet) (udp_backends tm1 ports)"
    using "2.IH" [OF t [symmetric] refl refl] "2.prems" t by simp
  ultimately show ?case using b by simp
qed (simp add: udp_backends_def map_filter_simps)

section \<open>Properties\<close>

text \<open>
  Admission under load: for any interleaving of arriving packets and the worker, the processor's queue
  never holds more than 1024 packets, the worker gets packets in arrival order, and every arriving packet is
  taken by the worker, refused (the newest is dropped when the queue is full) or still queued,
  exactly once.
\<close>

theorem admission_bounded_fifo:
  assumes "fifo_run admit take_front ops [] = (queue, taken, refused)"
  shows "length queue \<le> 1024 \<and> mset (fifo_fed ops) = mset taken + mset refused + mset queue \<and>
    subseq (taken @ queue) (fifo_fed ops)"
proof -
  have inv: "queue_inv []" by (simp add: queue_inv_def)
  show ?thesis
    using pq.run_bounded [OF assms inv] pq.run_conserve [OF assms inv] pq.run_order [OF assms inv]
    by (simp add: MAX_QUEUE_SIZE_def)
qed

theorem admission_bounded_fifo_witness:
  "let (queue, taken, refused) = fifo_run admit take_front [Push Packet_default, Pop, Pop] []
   in length queue \<le> 1024 \<and> taken = [Packet_default] \<and> refused = []"
  using admission_bounded_fifo [of "[Push Packet_default, Pop, Pop]"]
  by (simp add: admit_def take_front_def MAX_QUEUE_SIZE_def)

text \<open>
  \<^bold>\<open>C9\<close> One outcome per packet. Receiving a packet either queues it (only below 1024 queued packets) and
  publishes nothing, or drops it with exactly one drop message of its lifecycle identity; processing a packet
  from the queue publishes, after at most one forwarding event, exactly one terminal message (processed or
  dropped) of its lifecycle identity; and all published messages carry the payload their type
  promises.
\<close>

theorem one_outcome_per_packet:
  "(\<exists>p' e' ms. processor_onPacketRx \<lparr>m_type = T_PacketRx, m_timestamp_ms = ts, m_payload = P_Packet packet\<rparr> (p, e) = ((p', e'), ms) \<and>
      (ms = [] \<and> length (pp_queue p) < 1024 \<and> pp_queue p' = pp_queue p @ [packet] \<or>
       pp_queue p' = pp_queue p \<and> (\<exists>m. ms = [m] \<and> m_type m = T_PacketDropped \<and> is_terminal_for (pk_lifecycle_id packet) m \<and> well_typed m))) \<and>
   (\<exists>p' e' fwd t. processPacket packet (p, e) = ((p', e'), fwd @ [t]) \<and> pp_queue p' = pp_queue p \<and>
      length fwd \<le> 1 \<and> (\<forall>m \<in> set fwd. m_type m = T_ForwardingDecisionMade \<and> well_typed m) \<and>
      is_terminal_for (pk_lifecycle_id packet) t \<and> well_typed t)"
proof
  let ?msg = "\<lparr>m_type = T_PacketRx, m_timestamp_ms = ts, m_payload = P_Packet packet\<rparr>"
  have "get_if_packet (m_payload ?msg) = Some packet" by simp
  from rx_outcome [OF this, of p e]
  show "\<exists>p' e' ms. processor_onPacketRx ?msg (p, e) = ((p', e'), ms) \<and>
      (ms = [] \<and> length (pp_queue p) < 1024 \<and> pp_queue p' = pp_queue p @ [packet] \<or>
       pp_queue p' = pp_queue p \<and> (\<exists>m. ms = [m] \<and> m_type m = T_PacketDropped \<and> is_terminal_for (pk_lifecycle_id packet) m \<and> well_typed m))"
    by (auto simp: MAX_QUEUE_SIZE_def)
  show "\<exists>p' e' fwd t. processPacket packet (p, e) = ((p', e'), fwd @ [t]) \<and> pp_queue p' = pp_queue p \<and>
      length fwd \<le> 1 \<and> (\<forall>m \<in> set fwd. m_type m = T_ForwardingDecisionMade \<and> well_typed m) \<and>
      is_terminal_for (pk_lifecycle_id packet) t \<and> well_typed t"
    using process_outcome [of packet p e] by blast
qed

theorem one_outcome_per_packet_witness:
  "\<exists>p' e' fwd t. processPacket Packet_default (PacketProcessor_new None None (FailureInjector_new FailureConfig_default), env_demo)
     = ((p', e'), fwd @ [t]) \<and> is_terminal_for 0 t"
  using one_outcome_per_packet [of 0 Packet_default "PacketProcessor_new None None (FailureInjector_new FailureConfig_default)" env_demo]
  by (auto simp: Packet_default_def)

text \<open>
  \<^bold>\<open>C12\<close> From decision to datagram: processing a packet with a non-empty payload of at most 512
  bytes, a timestamp and an ingress port hands the operating system exactly one datagram with its payload for
  each egress port of the engine's decision that has a UDP backend, in the order of the
  decision, to that backend's socket and address; and it publishes the engine's decision.
\<close>

theorem forwarding_sends_datagrams:
  assumes "pk_payload packet \<noteq> []" and "length (pk_payload packet) \<le> 512" and "pk_timestamp_ms packet \<noteq> 0"
    and "pk_ingress_port packet = Some port" and "pp_forwarding_engine p = Some engine"
    and "pp_transport_manager p = Some tm"
    and "engine_processPacket (packet\<lparr>pk_payload_size := of_nat (length (pk_payload packet))\<rparr>) port (pk_timestamp_ms packet) engine
      = (decision, engine')"
    and "processPacket packet (p, e) = ((p', e'), ms)"
  shows "send_calls e' = send_calls e @ map (udp_datagram packet) (udp_backends tm (fd_egress_ports decision)) \<and>
    pp_forwarding_engine p' = Some engine' \<and>
    hd ms = forwarding_message packet decision"
proof -
  let ?packet = "packet\<lparr>pk_payload_size := of_nat (length (pk_payload packet))\<rparr>"
  have d: "udp_datagram ?packet = udp_datagram packet" "forwarding_message ?packet = forwarding_message packet"
    by (simp_all add: udp_datagram_def forwarding_message_def fun_eq_iff)
  obtain tr e1 where dis: "dispatch_transmit decision ?packet (Some tm) e = (tr, e1)"
    by (cases "dispatch_transmit decision ?packet (Some tm) e")
  have e': "e' = e1" "pp_forwarding_engine p' = Some engine'" "hd ms = forwarding_message ?packet decision"
    using assms dis by (auto simp: processPacket_def PROCESSOR_MAX_PAYLOAD_SIZE_def Let_def)
  have "send_calls e1 = send_calls e @ map (udp_datagram ?packet) (udp_backends tm (fd_egress_ports decision))"
  proof (cases "fd_egress_ports decision = []")
    case True
    then show ?thesis
      using dis by (auto simp: dispatch_transmit_def udp_backends_def map_filter_simps log_defs frame_simps)
  next
    case False
    then obtain tm' where "transmit_loop (fd_egress_ports decision) ?packet tm e = (tm', e1)"
      using dis by (auto simp: dispatch_transmit_def split: prod.splits)
    from transmit_loop_datagrams [OF _ this] assms(1) show ?thesis by simp
  qed
  with e' d show ?thesis by simp
qed

definition tx_packet :: Packet where
  "tx_packet = demo_packet\<lparr>pk_payload := ''hi'', pk_timestamp_ms := 5, pk_ingress_port := Some 2\<rparr>"

definition tx_backend :: UdpPortBackend where
  "tx_backend = \<lparr>ub_port_id = 1, ub_endpoint = \<lparr>ue_ip = ''127.0.0.1'', ue_port = 9101\<rparr>,
     ub_socket = \<lparr>d_fd = 4, d_registry = True, d_type = UdpSocket\<rparr>, ub_sin_addr = 0x7F000001\<rparr>"

definition tx_transport :: "PortBackend TransportManager" where
  "tx_transport = \<lparr>tm_backends = [(1, UdpBackend tx_backend)], tm_counters = TransportCounters_default\<rparr>"

definition tx_processor :: PacketProcessor where
  "tx_processor = PacketProcessor_new (Some demo_engine) (Some tx_transport) (FailureInjector_new FailureConfig_default)"

theorem forwarding_sends_datagrams_witness:
  "send_calls (snd (fst (processPacket tx_packet (tx_processor, env_demo)))) = [udp_datagram tx_packet tx_backend]"
proof -
  let ?d = "engine_processPacket (tx_packet\<lparr>pk_payload_size := of_nat (length (pk_payload tx_packet))\<rparr>) 2
     (pk_timestamp_ms tx_packet) demo_engine"
  obtain decision engine' where d: "?d = (decision, engine')" by (cases ?d)
  have "fd_egress_ports (fst ?d) = [1, 3]" by code_simp
  then have ports: "fd_egress_ports decision = [1, 3]" by (simp add: d)
  obtain p' e' ms where run: "processPacket tx_packet (tx_processor, env_demo) = ((p', e'), ms)"
    by (metis prod.exhaust)
  have "send_calls e' = send_calls env_demo @ map (udp_datagram tx_packet) (udp_backends tx_transport [1, 3])"
    using forwarding_sends_datagrams [OF _ _ _ _ _ _ d run, of tx_transport] ports
    by (simp add: tx_packet_def tx_processor_def PacketProcessor_new_def)
  moreover have "send_calls env_demo = []" by (simp add: env_demo_def)
  ultimately show ?thesis
    by (simp add: run udp_backends_def tx_transport_def map_filter_simps)
qed

end
