(* ===== verification/Replay.thy ===== *)
theory Replay
  imports Packet_Types
begin

text \<open>
  Recording and replaying of ingress traffic (replay/): \<^verbatim>\<open>ReplayRecorder\<close> stores every received packet with
  a sequence number, \<^verbatim>\<open>ReplayPlayer\<close> publishes stored packets again, \<^verbatim>\<open>ReplayOutcomeCollector\<close> stores
  the outcome of every packet. Recorder and collector draw the sequence number from an atomic counter before they
  take the lock, so calls on different threads may store in another order than they numbered; the transition
  system \<open>collector_step\<close> has these two steps apart.
\<close>

section \<open>Definitions\<close>

record ReplayRecord =
  rr_sequence :: u64
  rr_packet :: Packet

record ReplayRecorder =
  rec_records :: "ReplayRecord list"
  rec_next_sequence :: u64

definition ReplayRecorder_new :: ReplayRecorder where
  "ReplayRecorder_new = \<lparr>rec_records = [], rec_next_sequence = 0\<rparr>"

definition recorder_onPacketRx :: "Message \<Rightarrow> ReplayRecorder \<Rightarrow> ReplayRecorder" where
  "recorder_onPacketRx msg r =
     (case get_if_packet (m_payload msg) of
        None \<Rightarrow> r
      | Some packet \<Rightarrow>
          let sequence = rec_next_sequence r;
              r = r\<lparr>rec_next_sequence := rec_next_sequence r + 1\<rparr>
          in r\<lparr>rec_records := rec_records r @ [\<lparr>rr_sequence = sequence, rr_packet = packet\<rparr>]\<rparr>)"

definition recorder_snapshot :: "ReplayRecorder \<Rightarrow> ReplayRecord list" where
  "recorder_snapshot r = rec_records r"

text \<open>The messages \<open>replay\<close> publishes, in order.\<close>

definition replay_message :: "ReplayRecord \<Rightarrow> Message" where
  "replay_message r = \<lparr>m_type = T_PacketRx, m_timestamp_ms = pk_timestamp_ms (rr_packet r),
     m_payload = P_Packet (rr_packet r)\<rparr>"

definition replay :: "ReplayRecord list \<Rightarrow> Message list" where
  "replay records = map replay_message records"

subsection \<open>Outcomes\<close>

datatype ReplayOutcomeType = OutcomeProcessed | OutcomeDropped

record ReplayOutcome =
  ro_sequence :: u64
  ro_type :: ReplayOutcomeType
  ro_lifecycle_id :: u64
  ro_drop_reason :: PacketDropReason

record ReplayOutcomeCollector =
  col_outcomes :: "ReplayOutcome list"
  col_next_sequence :: u64

definition ReplayOutcomeCollector_new :: ReplayOutcomeCollector where
  "ReplayOutcomeCollector_new = \<lparr>col_outcomes = [], col_next_sequence = 0\<rparr>"

definition collector_ticket :: "ReplayOutcomeCollector \<Rightarrow> u64 \<times> ReplayOutcomeCollector" where
  "collector_ticket c = (col_next_sequence c, c\<lparr>col_next_sequence := col_next_sequence c + 1\<rparr>)"

definition collector_push :: "ReplayOutcome \<Rightarrow> ReplayOutcomeCollector \<Rightarrow> ReplayOutcomeCollector" where
  "collector_push outcome c = c\<lparr>col_outcomes := col_outcomes c @ [outcome]\<rparr>"

definition recordProcessed :: "u64 \<Rightarrow> ReplayOutcomeCollector \<Rightarrow> ReplayOutcomeCollector" where
  "recordProcessed lifecycle_id c =
     (let (seq, c) = collector_ticket c
      in collector_push \<lparr>ro_sequence = seq, ro_type = OutcomeProcessed, ro_lifecycle_id = lifecycle_id,
                         ro_drop_reason = Unknown\<rparr> c)"

definition recordDropped :: "u64 \<Rightarrow> PacketDropReason \<Rightarrow> ReplayOutcomeCollector \<Rightarrow> ReplayOutcomeCollector" where
  "recordDropped lifecycle_id reason c =
     (let (seq, c) = collector_ticket c
      in collector_push \<lparr>ro_sequence = seq, ro_type = OutcomeDropped, ro_lifecycle_id = lifecycle_id,
                         ro_drop_reason = reason\<rparr> c)"

definition collector_onPacketProcessed :: "Message \<Rightarrow> ReplayOutcomeCollector \<Rightarrow> ReplayOutcomeCollector" where
  "collector_onPacketProcessed msg c =
     (case get_if_packet (m_payload msg) of
        None \<Rightarrow> c
      | Some processed \<Rightarrow> recordProcessed (pk_lifecycle_id processed) c)"

definition collector_onPacketDropped :: "Message \<Rightarrow> ReplayOutcomeCollector \<Rightarrow> ReplayOutcomeCollector" where
  "collector_onPacketDropped msg c =
     (case get_if_dropped (m_payload msg) of
        None \<Rightarrow> c
      | Some dropped \<Rightarrow> recordDropped (pd_lifecycle_id dropped) (pd_reason dropped) c)"

section \<open>Recording\<close>

definition packets_in :: "Message list \<Rightarrow> Packet list" where
  "packets_in ms = List.map_filter (\<lambda>m. get_if_packet (m_payload m)) ms"

lemma packets_in_simps [simp]:
  "packets_in [] = []"
  "packets_in (m # ms) = (case get_if_packet (m_payload m) of None \<Rightarrow> packets_in ms | Some p \<Rightarrow> p # packets_in ms)"
  by (simp_all add: packets_in_def map_filter_simps split: option.split)

text \<open>The records of a stream: its packets, numbered from \<open>n\<close> on.\<close>

fun numbered :: "u64 \<Rightarrow> Packet list \<Rightarrow> ReplayRecord list" where
  "numbered n [] = []"
| "numbered n (p # ps) = \<lparr>rr_sequence = n, rr_packet = p\<rparr> # numbered (n + 1) ps"

lemma recorder_run:
  "fold recorder_onPacketRx ms r =
     r\<lparr>rec_records := rec_records r @ numbered (rec_next_sequence r) (packets_in ms),
       rec_next_sequence := rec_next_sequence r + of_nat (length (packets_in ms))\<rparr>"
  by (induction ms arbitrary: r) (auto simp: recorder_onPacketRx_def split: option.split)

lemma packets_in_replay: "packets_in (replay rs) = map rr_packet rs"
  by (induction rs) (simp_all add: replay_def replay_message_def)

lemma replay_typed: "m \<in> set (replay rs) \<Longrightarrow> well_typed m \<and> m_type m = T_PacketRx"
  by (auto simp: replay_def replay_message_def well_typed_def)

lemma packets_numbered [simp]: "map rr_packet (numbered n ps) = ps"
  by (induction n ps rule: numbered.induct) simp_all

lemma length_numbered [simp]: "length (numbered n ps) = length ps"
  by (induction n ps rule: numbered.induct) simp_all

lemma sequence_numbered: "i < length ps \<Longrightarrow> rr_sequence (numbered n ps ! i) = n + of_nat i"
proof (induction n ps arbitrary: i rule: numbered.induct)
  case (2 n p ps)
  then show ?case by (cases i) simp_all
qed simp

section \<open>Outcomes recorded by interleaved threads\<close>

text \<open>
  Between drawing its number and storing its outcome a thread holds the outcome; \<open>held\<close> lists
  the outcomes of all threads in this situation.
\<close>

record collecting =
  collector :: ReplayOutcomeCollector
  held :: "ReplayOutcome list"

inductive collector_step :: "collecting \<Rightarrow> collecting \<Rightarrow> bool" where
  draw: "collector_ticket (collector s) = (seq, c) \<Longrightarrow> ro_sequence outcome = seq \<Longrightarrow>
    collector_step s (s\<lparr>collector := c, held := outcome # held s\<rparr>)"
| store: "held s = before @ outcome # after \<Longrightarrow>
    collector_step s (s\<lparr>collector := collector_push outcome (collector s), held := before @ after\<rparr>)"

definition collecting_start :: "collecting \<Rightarrow> bool" where
  "collecting_start s \<longleftrightarrow> collector s = ReplayOutcomeCollector_new \<and> held s = []"

text \<open>The numbers drawn so far are those stored and those held, each once.\<close>

definition tickets_ok :: "collecting \<Rightarrow> bool" where
  "tickets_ok s \<longleftrightarrow>
     (let n = length (col_outcomes (collector s)) + length (held s)
      in col_next_sequence (collector s) = of_nat n \<and>
         mset (map ro_sequence (col_outcomes (collector s))) + mset (map ro_sequence (held s)) =
           mset (map of_nat [0..<n]))"

lemma tickets_ok_step: "collector_step s t \<Longrightarrow> tickets_ok s \<Longrightarrow> tickets_ok t"
  by (induction rule: collector_step.induct)
    (auto simp: tickets_ok_def collector_ticket_def collector_push_def Let_def atLeastLessThanSuc)

interpretation outcomes: transition_system collecting_start collector_step tickets_ok
proof unfold_locales
  show "collecting_start s \<Longrightarrow> tickets_ok s" for s
    by (simp add: collecting_start_def tickets_ok_def ReplayOutcomeCollector_new_def)
qed (rule tickets_ok_step)

lemma distinct_of_nat_upt:
  assumes "n \<le> 2 ^ 64"
  shows "distinct (map of_nat [0..<n] :: u64 list)"
proof -
  have "inj_on (of_nat :: nat \<Rightarrow> u64) {0..<n}"
  proof (rule inj_onI)
    fix i j assume ij: "i \<in> {0..<n}" "j \<in> {0..<n}" "(of_nat i :: u64) = of_nat j"
    have "i < 2 ^ LENGTH(64)" "j < 2 ^ LENGTH(64)" using ij(1,2) assms by simp_all
    then show "i = j" using ij(3) unat_of_nat_id by metis
  qed
  then show ?thesis by (simp add: distinct_map)
qed

section \<open>Properties\<close>

text \<open>
  Record and replay: the recorder stores the packets of the received messages in order with the
  numbers \<open>0, 1, 2, ...\<close>; replaying a recording publishes well-typed packet messages with
  exactly these packets in this order; and recording the replay gives the same recording again.
\<close>

theorem record_replay_round_trip:
  "map rr_packet (recorder_snapshot (fold recorder_onPacketRx ms ReplayRecorder_new)) = packets_in ms \<and>
   (\<forall>i < length (packets_in ms).
      rr_sequence (recorder_snapshot (fold recorder_onPacketRx ms ReplayRecorder_new) ! i) = of_nat i) \<and>
   (let recording = recorder_snapshot (fold recorder_onPacketRx ms ReplayRecorder_new)
    in packets_in (replay recording) = packets_in ms \<and> (\<forall>m \<in> set (replay recording). well_typed m \<and> m_type m = T_PacketRx) \<and>
       recorder_snapshot (fold recorder_onPacketRx (replay recording) ReplayRecorder_new) = recording)"
  using replay_typed
  by (simp add: recorder_run recorder_snapshot_def ReplayRecorder_new_def packets_in_replay sequence_numbered Let_def)

theorem record_replay_round_trip_witness:
  "let m = \<lparr>m_type = T_PacketRx, m_timestamp_ms = 4, m_payload = P_Packet (Packet_default\<lparr>pk_id := 9\<rparr>)\<rparr>;
       recording = recorder_snapshot (fold recorder_onPacketRx [m, m] ReplayRecorder_new)
   in rr_sequence (recording ! 1) = 1 \<and> length (packets_in (replay recording)) = 2"
proof -
  let ?m = "\<lparr>m_type = T_PacketRx, m_timestamp_ms = 4, m_payload = P_Packet (Packet_default\<lparr>pk_id := 9\<rparr>)\<rparr>"
  let ?r = "recorder_snapshot (fold recorder_onPacketRx [?m, ?m] ReplayRecorder_new)"
  have p: "packets_in [?m, ?m] = [Packet_default\<lparr>pk_id := 9\<rparr>, Packet_default\<lparr>pk_id := 9\<rparr>]" by simp
  note rt = record_replay_round_trip [of "[?m, ?m]", unfolded p Let_def]
  have "rr_sequence (?r ! 1) = of_nat 1" using rt [THEN conjunct2, THEN conjunct1] by simp
  moreover have "length (packets_in (replay ?r)) = 2" using rt [THEN conjunct2, THEN conjunct2, THEN conjunct1] by simp
  ultimately show ?thesis unfolding Let_def by simp
qed

text \<open>
  Outcome numbers are unique and gap-free under any interleaving: however the threads that record
  processed and dropped packets are scheduled between drawing a number and storing the outcome, once no
  thread is in between, the stored outcomes carry exactly the numbers \<open>0 .. n-1\<close>, each once.
\<close>

theorem outcome_numbers_unique:
  assumes "collecting_start s" and "collector_step\<^sup>*\<^sup>* s t" and "held t = []"
    and "length (col_outcomes (collector t)) \<le> 2 ^ 64"
  shows "distinct (map ro_sequence (col_outcomes (collector t))) \<and>
    mset (map ro_sequence (col_outcomes (collector t))) =
      mset (map of_nat [0..<length (col_outcomes (collector t))])"
proof -
  have "mset (map ro_sequence (col_outcomes (collector t))) =
      mset (map of_nat [0..<length (col_outcomes (collector t))])"
    using outcomes.reachable_invariant [OF assms(1,2)] assms(3) by (simp add: tickets_ok_def Let_def)
  then show ?thesis
    using distinct_of_nat_upt [OF assms(4)] mset_eq_imp_distinct_iff by blast
qed

definition demo_outcome :: "u64 \<Rightarrow> ReplayOutcome" where
  "demo_outcome seq = \<lparr>ro_sequence = seq, ro_type = OutcomeProcessed, ro_lifecycle_id = 7, ro_drop_reason = Unknown\<rparr>"

text \<open>Two threads draw 0 and 1; the second one stores first.\<close>

theorem outcome_numbers_unique_witness:
  "let t = \<lparr>collector = \<lparr>col_outcomes = [demo_outcome 1, demo_outcome 0], col_next_sequence = 2\<rparr>, held = []\<rparr>
   in distinct (map ro_sequence (col_outcomes (collector t)))"
proof -
  let ?s0 = "\<lparr>collector = ReplayOutcomeCollector_new, held = []\<rparr>"
  let ?s1 = "\<lparr>collector = \<lparr>col_outcomes = [], col_next_sequence = 1\<rparr>, held = [demo_outcome 0]\<rparr>"
  let ?s2 = "\<lparr>collector = \<lparr>col_outcomes = [], col_next_sequence = 2\<rparr>, held = [demo_outcome 1, demo_outcome 0]\<rparr>"
  let ?s3 = "\<lparr>collector = \<lparr>col_outcomes = [demo_outcome 1], col_next_sequence = 2\<rparr>, held = [demo_outcome 0]\<rparr>"
  let ?s4 = "\<lparr>collector = \<lparr>col_outcomes = [demo_outcome 1, demo_outcome 0], col_next_sequence = 2\<rparr>, held = []\<rparr>"
  have 1: "collector_step ?s0 ?s1"
    using draw [of ?s0 0 "\<lparr>col_outcomes = [], col_next_sequence = 1\<rparr>" "demo_outcome 0"]
    by (simp add: collector_ticket_def ReplayOutcomeCollector_new_def demo_outcome_def)
  have 2: "collector_step ?s1 ?s2"
    using draw [of ?s1 1 "\<lparr>col_outcomes = [], col_next_sequence = 2\<rparr>" "demo_outcome 1"]
    by (simp add: collector_ticket_def demo_outcome_def)
  have 3: "collector_step ?s2 ?s3"
    using store [of ?s2 "[]" "demo_outcome 1" "[demo_outcome 0]"] by (simp add: collector_push_def)
  have 4: "collector_step ?s3 ?s4"
    using store [of ?s3 "[]" "demo_outcome 0" "[]"] by (simp add: collector_push_def)
  have "collector_step\<^sup>*\<^sup>* ?s0 ?s1" using 1 by (rule r_into_rtranclp)
  then have "collector_step\<^sup>*\<^sup>* ?s0 ?s2" using 2 by (rule rtranclp.rtrancl_into_rtrancl)
  then have "collector_step\<^sup>*\<^sup>* ?s0 ?s3" using 3 by (rule rtranclp.rtrancl_into_rtrancl)
  then have "collector_step\<^sup>*\<^sup>* ?s0 ?s4" using 4 by (rule rtranclp.rtrancl_into_rtrancl)
  then show ?thesis
    using outcome_numbers_unique [of ?s0 ?s4] by (simp add: collecting_start_def)
qed

end
