(* ===== verification/Runtime_Pipeline.thy ===== *)
theory Runtime_Pipeline
  imports Packet_Processor Packet_Stats Messaging_Bus Replay Runtime_Health Telemetry_Export
begin

text \<open>
  The wired runtime (daemon/main.cpp): the state of the components behind the bus, the code of every
  subscriber, and the bus with the subscriptions in the order the daemon makes them. The bus is shown
  to satisfy \<open>reliable_bus\<close>: every well-typed message is delivered to all its subscribers, nested
  publications included, without an exception.
\<close>

section \<open>State and subscribers\<close>

record node =
  n_env :: env
  n_processor :: PacketProcessor
  n_stats :: PacketStats
  n_health :: HealthMonitor
  n_export :: "TelemetryExporter TelemetryExportManager"
  n_recorder :: ReplayRecorder
  n_collector :: ReplayOutcomeCollector

datatype handler =
    ProcessorRx
  | StatsProcessed
  | StatsDropped
  | StatsRx
  | StatsIdle
  | DaemonStart
  | DaemonShutdown
  | DaemonTelemetry
  | DaemonHealth
  | DaemonRx
  | DaemonForwarding
  | DaemonProcessed
  | RecorderRx
  | CollectorProcessed
  | CollectorDropped

abbreviation with_env :: "node \<Rightarrow> env \<Rightarrow> node" where
  "with_env w e \<equiv> w\<lparr>n_env := e\<rparr>"

subsection \<open>The callbacks of the daemon\<close>

definition daemon_onStart :: "env \<Rightarrow> env" where
  "daemon_onStart e = log_info ''SystemStart received by daemon'' e"

definition daemon_onShutdown :: "env \<Rightarrow> env" where
  "daemon_onShutdown e = log_info ''SystemShutdown received by daemon'' e"

definition daemon_onTelemetry ::
  "Message \<Rightarrow> HealthMonitor \<Rightarrow> TelemetryExporter TelemetryExportManager \<Rightarrow> env \<Rightarrow>
     HealthMonitor \<times> TelemetryExporter TelemetryExportManager \<times> env" where
  "daemon_onTelemetry msg h x e =
     (let (h, e) = onHeartbeat h e in
      case m_payload msg of
        P_Telemetry d \<Rightarrow>
          (h, enqueue \<lparr>rm_uptime_ms = td_uptime_ms d, rm_tick_count = td_tick_count d,
                       rm_telemetry_queue_size = 0, rm_telemetry_dropped_samples = 0\<rparr> x, e)
      | _ \<Rightarrow> (h, x, e))"

definition daemon_onHealth :: "Message \<Rightarrow> env \<Rightarrow> env" where
  "daemon_onHealth msg e =
     (case m_payload msg of
        P_Health hs \<Rightarrow>
          if \<not> hs_is_alive hs then log_warn ''HealthStatus: NOT ALIVE (timeout exceeded)'' e
          else log_debug ''HealthStatus: alive'' e
      | _ \<Rightarrow> e)"

definition daemon_onPacketRx :: "Message \<Rightarrow> env \<Rightarrow> exn + env" where
  "daemon_onPacketRx msg e =
     (case variant_get (get_if_packet (m_payload msg)) of
        Inl ex \<Rightarrow> Inl ex
      | Inr p \<Rightarrow> Inr (log_info (''Packet received: id='' @ to_string (pk_id p) @ '' payload='' @ pk_payload p @
          '' timestamp='' @ formatTimestamp e (pk_timestamp_ms p) @ '' source_ip='' @ pk_source_ip p @
          '' source_port='' @ to_string (pk_source_port p)) e))"

fun join_ports :: "u32 list \<Rightarrow> string" where
  "join_ports [] = []"
| "join_ports [p] = to_string p"
| "join_ports (p # ps) = to_string p @ '','' @ join_ports ps"

definition daemon_onForwarding :: "Message \<Rightarrow> env \<Rightarrow> env" where
  "daemon_onForwarding msg e =
     (case m_payload msg of
        P_Forwarding event \<Rightarrow>
          let action = (if fe_action event = Flood then ''Flood''
                        else if fe_action event = ForwardToPorts then ''ForwardToPorts''
                        else ''Drop'')
          in log_info (''ForwardingDecisionMade: lifecycle_id='' @ to_string (fe_lifecycle_id event) @
               '' action='' @ action @ '' egress_ports=['' @ join_ports (fe_egress_ports event) @ '']'') e
      | _ \<Rightarrow> e)"

definition daemon_onProcessed :: "Message \<Rightarrow> env \<Rightarrow> exn + env" where
  "daemon_onProcessed msg e =
     (case variant_get (get_if_packet (m_payload msg)) of
        Inl ex \<Rightarrow> Inl ex
      | Inr p \<Rightarrow> Inr (log_info (''PacketProcessed: lifecycle_id='' @ to_string (pk_lifecycle_id p) @
          '' packet_id='' @ to_string (pk_id p)) e))"

subsection \<open>What each subscriber does\<close>

definition on_stats ::
  "(Message \<Rightarrow> PacketStats \<times> env \<Rightarrow> exn + PacketStats \<times> env) \<Rightarrow> Message \<Rightarrow> node \<Rightarrow> exn + node \<times> Message list" where
  "on_stats f m w =
     (case f m (n_stats w, n_env w) of
        Inl ex \<Rightarrow> Inl ex
      | Inr (s, e) \<Rightarrow> Inr (w\<lparr>n_stats := s, n_env := e\<rparr>, []))"

definition on_env :: "(env \<Rightarrow> exn + env) \<Rightarrow> node \<Rightarrow> exn + node \<times> Message list" where
  "on_env f w = (case f (n_env w) of Inl ex \<Rightarrow> Inl ex | Inr e \<Rightarrow> Inr (w\<lparr>n_env := e\<rparr>, []))"

fun run_handler :: "handler \<Rightarrow> Message \<Rightarrow> node \<Rightarrow> exn + node \<times> Message list" where
  "run_handler ProcessorRx m w =
     (let ((p, e), ms) = processor_onPacketRx m (n_processor w, n_env w)
      in Inr (w\<lparr>n_processor := p, n_env := e\<rparr>, ms))"
| "run_handler StatsProcessed m w = on_stats onPacketProcessed m w"
| "run_handler StatsDropped m w = on_stats onPacketDropped m w"
| "run_handler StatsRx m w = on_stats onPacketRx m w"
| "run_handler StatsIdle m w = on_stats onIngressIdlePoll m w"
| "run_handler DaemonStart m w = on_env (\<lambda>e. Inr (daemon_onStart e)) w"
| "run_handler DaemonShutdown m w = on_env (\<lambda>e. Inr (daemon_onShutdown e)) w"
| "run_handler DaemonTelemetry m w =
     (let (h, x, e) = daemon_onTelemetry m (n_health w) (n_export w) (n_env w)
      in Inr (w\<lparr>n_health := h, n_export := x, n_env := e\<rparr>, []))"
| "run_handler DaemonHealth m w = on_env (\<lambda>e. Inr (daemon_onHealth m e)) w"
| "run_handler DaemonRx m w = on_env (daemon_onPacketRx m) w"
| "run_handler DaemonForwarding m w = on_env (\<lambda>e. Inr (daemon_onForwarding m e)) w"
| "run_handler DaemonProcessed m w = on_env (daemon_onProcessed m) w"
| "run_handler RecorderRx m w = Inr (w\<lparr>n_recorder := recorder_onPacketRx m (n_recorder w)\<rparr>, [])"
| "run_handler CollectorProcessed m w = Inr (w\<lparr>n_collector := collector_onPacketProcessed m (n_collector w)\<rparr>, [])"
| "run_handler CollectorDropped m w = Inr (w\<lparr>n_collector := collector_onPacketDropped m (n_collector w)\<rparr>, [])"

section \<open>The wiring\<close>

text \<open>The subscriptions of the daemon, in the order \<open>main\<close> makes them.\<close>

definition processor_subscriptions :: "(MessageType \<times> handler) list" where
  "processor_subscriptions = [(T_PacketRx, ProcessorRx)]"

definition stats_subscriptions :: "(MessageType \<times> handler) list" where
  "stats_subscriptions =
     [(T_PacketProcessed, StatsProcessed), (T_PacketDropped, StatsDropped), (T_PacketRx, StatsRx),
      (T_IngressIdlePoll, StatsIdle)]"

definition main_subscriptions :: "(MessageType \<times> handler) list" where
  "main_subscriptions =
     [(SystemStart, DaemonStart), (SystemShutdown, DaemonShutdown), (T_Telemetry, DaemonTelemetry),
      (T_HealthStatus, DaemonHealth), (T_PacketRx, DaemonRx), (T_ForwardingDecisionMade, DaemonForwarding),
      (T_PacketProcessed, DaemonProcessed)]"

definition wire :: "(MessageType \<times> handler) list \<Rightarrow> handler bus" where
  "wire subs = fold (\<lambda>(t, h). subscribe t h) subs []"

definition daemon_bus :: "handler bus" where
  "daemon_bus = wire (processor_subscriptions @ stats_subscriptions @ main_subscriptions)"

lemma callbacks_wire: "callbacks (fold (\<lambda>(t, h). subscribe t h) subs bus) t =
    callbacks bus t @ map snd (filter (\<lambda>s. fst s = t) subs)"
  by (induction subs arbitrary: bus) auto

lemma daemon_callbacks:
  "callbacks daemon_bus t =
     (case t of
        T_PacketRx \<Rightarrow> [ProcessorRx, StatsRx, DaemonRx]
      | T_PacketProcessed \<Rightarrow> [StatsProcessed, DaemonProcessed]
      | T_PacketDropped \<Rightarrow> [StatsDropped]
      | T_IngressIdlePoll \<Rightarrow> [StatsIdle]
      | T_ForwardingDecisionMade \<Rightarrow> [DaemonForwarding]
      | T_Telemetry \<Rightarrow> [DaemonTelemetry]
      | T_HealthStatus \<Rightarrow> [DaemonHealth]
      | SystemStart \<Rightarrow> [DaemonStart]
      | SystemShutdown \<Rightarrow> [DaemonShutdown]
      | _ \<Rightarrow> [])"
  by (cases t) (simp_all add: daemon_bus_def wire_def callbacks_wire processor_subscriptions_def
      stats_subscriptions_def main_subscriptions_def)

text \<open>Each subscriber listens to one type of message.\<close>

fun handler_type :: "handler \<Rightarrow> MessageType" where
  "handler_type ProcessorRx = T_PacketRx"
| "handler_type StatsProcessed = T_PacketProcessed"
| "handler_type StatsDropped = T_PacketDropped"
| "handler_type StatsRx = T_PacketRx"
| "handler_type StatsIdle = T_IngressIdlePoll"
| "handler_type DaemonStart = SystemStart"
| "handler_type DaemonShutdown = SystemShutdown"
| "handler_type DaemonTelemetry = T_Telemetry"
| "handler_type DaemonHealth = T_HealthStatus"
| "handler_type DaemonRx = T_PacketRx"
| "handler_type DaemonForwarding = T_ForwardingDecisionMade"
| "handler_type DaemonProcessed = T_PacketProcessed"
| "handler_type RecorderRx = T_PacketRx"
| "handler_type CollectorProcessed = T_PacketProcessed"
| "handler_type CollectorDropped = T_PacketDropped"

lemma daemon_callback_type:
  "h \<in> set (callbacks daemon_bus t) \<longleftrightarrow> t = handler_type h \<and> h \<notin> {RecorderRx, CollectorProcessed, CollectorDropped}"
  by (cases t; cases h) (simp_all add: daemon_callbacks)

section \<open>Every subscriber accepts its messages\<close>

definition node_inv :: "node \<Rightarrow> bool" where
  "node_inv w \<longleftrightarrow> queue_inv (pp_queue (n_processor w)) \<and> stats_inv (n_stats w) \<and> export_inv (n_export w)"

definition bus_rank :: "MessageType \<Rightarrow> nat" where
  "bus_rank t = (if t = T_PacketRx then 1 else 0)"

lemma processor_handler:
  assumes "well_typed m" and "m_type m = T_PacketRx"
  shows "\<exists>packet p' e' ms. get_if_packet (m_payload m) = Some packet \<and>
    run_handler ProcessorRx m w = Inr (w\<lparr>n_processor := p', n_env := e'\<rparr>, ms) \<and>
    pp_running p' = pp_running (n_processor w) \<and>
    (ms = [] \<and> length (pp_queue (n_processor w)) < MAX_QUEUE_SIZE \<and> pp_queue p' = pp_queue (n_processor w) @ [packet] \<or>
     pp_queue p' = pp_queue (n_processor w) \<and>
       (\<exists>reason ts. ms = [drop_message reason ts (pk_id packet) (pk_lifecycle_id packet)]))"
proof -
  obtain packet where p: "get_if_packet (m_payload m) = Some packet"
    using assms get_if_packet_typed by (auto simp: well_typed_def)
  from rx_outcome [OF this, of "n_processor w" "n_env w"] obtain p' e' ms where
    r: "processor_onPacketRx m (n_processor w, n_env w) = ((p', e'), ms)"
    and run: "pp_running p' = pp_running (n_processor w)"
    and q: "ms = [] \<and> length (pp_queue (n_processor w)) < MAX_QUEUE_SIZE \<and> pp_queue p' = pp_queue (n_processor w) @ [packet] \<or>
     pp_queue p' = pp_queue (n_processor w) \<and>
       (\<exists>reason ts. ms = [drop_message reason ts (pk_id packet) (pk_lifecycle_id packet)])"
    by blast
  have "run_handler ProcessorRx m w = Inr (w\<lparr>n_processor := p', n_env := e'\<rparr>, ms)" by (simp add: r)
  with p run q show ?thesis by blast
qed

lemma stats_handler:
  assumes "well_typed m" and "h \<in> {StatsProcessed, StatsDropped, StatsRx, StatsIdle}" and "m_type m = handler_type h"
  shows "\<exists>s e. stats_handle m (n_stats w, n_env w) = Inr (s, e) \<and>
    run_handler h m w = Inr (w\<lparr>n_stats := s, n_env := e\<rparr>, [])"
proof -
  obtain s e where "stats_handle m (n_stats w, n_env w) = Inr (s, e)"
    using stats_step [OF assms(1), of "n_stats w" "n_env w"] by blast
  moreover have "run_handler h m w = on_stats stats_handle m w"
    using assms(2,3) by (cases h) (simp_all add: stats_handle_def on_stats_def)
  ultimately show ?thesis by (simp add: on_stats_def)
qed

lemma daemon_handler:
  assumes "well_typed m" and "m_type m = handler_type h"
    and "h \<in> {DaemonRx, DaemonProcessed, DaemonForwarding, DaemonHealth, DaemonStart, DaemonShutdown}"
  shows "\<exists>e. run_handler h m w = Inr (w\<lparr>n_env := e\<rparr>, [])"
proof (cases "h \<in> {DaemonRx, DaemonProcessed}")
  case True
  then have "is_P_Packet (m_payload m)" using assms by (auto simp: well_typed_def)
  from get_if_packet_typed [OF this] obtain p where "get_if_packet (m_payload m) = Some p" by blast
  with True show ?thesis
    by (auto simp: on_env_def daemon_onPacketRx_def daemon_onProcessed_def variant_get_def)
next
  case False
  with assms(3) show ?thesis by (auto simp: on_env_def)
qed

lemma telemetry_handler:
  "\<exists>h x e. run_handler DaemonTelemetry m w = Inr (w\<lparr>n_health := h, n_export := x, n_env := e\<rparr>, []) \<and>
     (export_inv (n_export w) \<longrightarrow> export_inv x)"
proof -
  obtain h x e where d: "daemon_onTelemetry m (n_health w) (n_export w) (n_env w) = (h, x, e)"
    by (cases "daemon_onTelemetry m (n_health w) (n_export w) (n_env w)")
  then have "x = n_export w \<or> (\<exists>s. x = enqueue s (n_export w))"
    by (auto simp: daemon_onTelemetry_def Let_def split: prod.splits Payload.splits)
  then have "export_inv (n_export w) \<longrightarrow> export_inv x"
    using length_enqueue by (auto simp: export_inv_def)
  moreover have "run_handler DaemonTelemetry m w = Inr (w\<lparr>n_health := h, n_export := x, n_env := e\<rparr>, [])"
    by (simp add: d)
  ultimately show ?thesis by blast
qed

text \<open>The subscribers of the daemon's bus, by what they may change.\<close>

lemma daemon_handler_cases:
  assumes "h \<in> set (callbacks daemon_bus (m_type m))" and "well_typed m"
  obtains (processor) packet p' e' ms where "h = ProcessorRx" "m_type m = T_PacketRx" "get_if_packet (m_payload m) = Some packet"
      "run_handler h m w = Inr (w\<lparr>n_processor := p', n_env := e'\<rparr>, ms)" "pp_running p' = pp_running (n_processor w)"
      "ms = [] \<and> length (pp_queue (n_processor w)) < MAX_QUEUE_SIZE \<and> pp_queue p' = pp_queue (n_processor w) @ [packet] \<or>
       pp_queue p' = pp_queue (n_processor w) \<and>
         (\<exists>reason ts. ms = [drop_message reason ts (pk_id packet) (pk_lifecycle_id packet)])"
  | (stats) s e where "h \<in> {StatsProcessed, StatsDropped, StatsRx, StatsIdle}"
      "(h = StatsProcessed) = (m_type m = T_PacketProcessed)" "(h = StatsDropped) = (m_type m = T_PacketDropped)"
      "stats_handle m (n_stats w, n_env w) = Inr (s, e)" "run_handler h m w = Inr (w\<lparr>n_stats := s, n_env := e\<rparr>, [])"
  | (daemon) x hm e where "h \<notin> {ProcessorRx, StatsProcessed, StatsDropped, StatsRx, StatsIdle}"
      "run_handler h m w = Inr (w\<lparr>n_health := hm, n_export := x, n_env := e\<rparr>, [])"
      "export_inv (n_export w) \<longrightarrow> export_inv x"
proof -
  have type: "m_type m = handler_type h" and live: "h \<notin> {RecorderRx, CollectorProcessed, CollectorDropped}"
    using assms(1) by (simp_all add: daemon_callback_type)
  consider (1) "h = ProcessorRx" | (2) "h \<in> {StatsProcessed, StatsDropped, StatsRx, StatsIdle}"
    | (3) "h \<in> {DaemonRx, DaemonProcessed, DaemonForwarding, DaemonHealth, DaemonStart, DaemonShutdown}"
    | (4) "h = DaemonTelemetry"
    using live by (cases h) simp_all
  then show thesis
  proof cases
    case 1
    then have "m_type m = T_PacketRx" using type by simp
    then show ?thesis using processor_handler [OF assms(2), of w] processor 1 by blast
  next
    case 2
    from stats_handler [OF assms(2) 2 type, of w] obtain s e where
      r: "stats_handle m (n_stats w, n_env w) = Inr (s, e)" "run_handler h m w = Inr (w\<lparr>n_stats := s, n_env := e\<rparr>, [])"
      by blast
    have "(h = StatsProcessed) = (m_type m = T_PacketProcessed)" "(h = StatsDropped) = (m_type m = T_PacketDropped)"
      using 2 type by auto
    then show ?thesis by (rule stats [OF 2 _ _ r])
  next
    case 3
    obtain e where "run_handler h m w = Inr (w\<lparr>n_env := e\<rparr>, [])" using daemon_handler [OF assms(2) type 3] by blast
    then have r: "run_handler h m w = Inr (w\<lparr>n_health := n_health w, n_export := n_export w, n_env := e\<rparr>, [])" by simp
    have "h \<notin> {ProcessorRx, StatsProcessed, StatsDropped, StatsRx, StatsIdle}" using 3 by auto
    from daemon [OF this r] show ?thesis by simp
  next
    case 4
    then have "h \<notin> {ProcessorRx, StatsProcessed, StatsDropped, StatsRx, StatsIdle}" by simp
    then show ?thesis using telemetry_handler [of m w] daemon 4 by blast
  qed
qed

lemma daemon_handler_safe:
  assumes "h \<in> set (callbacks daemon_bus (m_type m))" and "well_typed m" and "node_inv w"
  shows "\<exists>w' ms. run_handler h m w = Inr (w', ms) \<and> node_inv w' \<and> (\<forall>m' \<in> set ms. well_typed m' \<and> m_type m' = T_PacketDropped)"
  using assms(1,2)
proof (cases rule: daemon_handler_cases [where w = w])
  case (processor packet p' e' ms)
  then have "queue_inv (pp_queue p')" using assms(3) by (auto simp: node_inv_def queue_inv_def)
  with processor assms(3) show ?thesis by (auto simp: node_inv_def)
next
  case (stats s e)
  then show ?thesis using assms(3) stats_inv_handle by (auto simp: node_inv_def)
next
  case (daemon x hm e)
  then show ?thesis using assms(3) by (auto simp: node_inv_def)
qed

interpretation db: reliable_bus run_handler daemon_bus bus_rank well_typed node_inv
proof unfold_locales
  fix h m w w' ms m'
  assume h: "h \<in> set (callbacks daemon_bus (m_type m))" "run_handler h m w = Inr (w', ms)" "m' \<in> set ms"
  have "h = ProcessorRx"
  proof (rule ccontr)
    assume "h \<noteq> ProcessorRx"
    then have "ms = []" using h(2) by (cases h) (auto simp: on_stats_def on_env_def split: sum.splits prod.splits)
    with h(3) show False by simp
  qed
  then have rx: "m_type m = T_PacketRx" using h(1) by (simp add: daemon_callback_type)
  have "m_type m' = T_PacketDropped"
  proof (cases "get_if_packet (m_payload m)")
    case None
    then show ?thesis using h \<open>h = ProcessorRx\<close> rx_not_packet [OF None] by simp
  next
    case (Some packet)
    from rx_outcome [OF this, of "n_processor w" "n_env w"] h \<open>h = ProcessorRx\<close> show ?thesis
      by (auto split: prod.splits)
  qed
  then show "bus_rank (m_type m') < bus_rank (m_type m)" by (simp add: bus_rank_def rx)
next
  show "\<exists>w' ms. run_handler h m w = Inr (w', ms) \<and> node_inv w' \<and> (\<forall>m' \<in> set ms. well_typed m')"
    if "h \<in> set (callbacks daemon_bus (m_type m))" "well_typed m" "node_inv w" for h m w
    using daemon_handler_safe [OF that] by blast
qed

text \<open>
  Four subscriber calls are enough for any message: at most three subscribers, and one for the
  drop that the processor publishes in turn.
\<close>

definition daemon_publish :: "Message \<Rightarrow> node \<Rightarrow> node delivery" where
  "daemon_publish m w = publish run_handler 4 daemon_bus m w"

lemma daemon_publish_delivers:
  assumes "well_typed m" and "node_inv w"
  shows "\<exists>w'. daemon_publish m w = Delivered w' \<and> node_inv w'"
proof -
  have quiet: "\<exists>w'. run_handler h m' v = Inr (w', []) \<and> node_inv w'"
    if "h \<in> set (callbacks daemon_bus (m_type m'))" "well_typed m'" "node_inv v" "h \<noteq> ProcessorRx" for h m' v
    using that(1,2)
  proof (cases rule: daemon_handler_cases [where w = v])
    case (processor packet p' e' ms)
    then show ?thesis using that(4) by simp
  qed (use daemon_handler_safe [OF that(1-3)] in auto)
  have short: "\<exists>w'. deliver run_handler (length hs + n) daemon_bus (map (\<lambda>h. (h, m')) hs) v = Delivered w' \<and> node_inv w'"
    if "set hs \<subseteq> set (callbacks daemon_bus (m_type m')) - {ProcessorRx}" "well_typed m'" "node_inv v" for hs m' v n
    using that
  proof (induction hs arbitrary: v)
    case (Cons h hs)
    then obtain v1 where "run_handler h m' v = Inr (v1, [])" "node_inv v1" using quiet [of h m' v] by auto
    with Cons show ?case by auto
  qed simp
  show ?thesis
  proof (cases "m_type m = T_PacketRx")
    case False
    let ?hs = "callbacks daemon_bus (m_type m)"
    have "length ?hs \<le> 4" "ProcessorRx \<notin> set ?hs"
      using False by (simp_all add: daemon_callbacks split: MessageType.split)
    then show ?thesis
      using short [of ?hs m w "4 - length ?hs"] assms by (simp add: daemon_publish_def publish_def tasks_def)
  next
    case True
    have cb: "callbacks daemon_bus (m_type m) = [ProcessorRx, StatsRx, DaemonRx]" by (simp add: daemon_callbacks True)
    obtain w1 ms where 1: "run_handler ProcessorRx m w = Inr (w1, ms)" "node_inv w1"
      and ms: "\<forall>m' \<in> set ms. well_typed m' \<and> m_type m' = T_PacketDropped" and len: "length ms \<le> 1"
      using daemon_handler_safe [of ProcessorRx m w] processor_handler [OF assms(1) True, of w] assms cb by fastforce
    have rest: "\<exists>w'. deliver run_handler (2 + n) daemon_bus [(StatsRx, m), (DaemonRx, m)] v = Delivered w' \<and> node_inv w'"
      if "node_inv v" for v n
      using short [of "[StatsRx, DaemonRx]" m v n] that assms(1) cb by (simp add: numeral_2_eq_2)
    show ?thesis
    proof (cases ms)
      case Nil
      then show ?thesis using rest [OF 1(2), of 1] 1(1)
        by (simp add: daemon_publish_def publish_def tasks_def cb numeral_eq_Suc)
    next
      case (Cons d ds)
      then have d: "ms = [d]" "well_typed d" "m_type d = T_PacketDropped" using ms len by auto
      then obtain w2 where 2: "run_handler StatsDropped d w1 = Inr (w2, [])" "node_inv w2"
        using quiet [of StatsDropped d w1] 1(2) by (auto simp: daemon_callbacks)
      have td: "tasks daemon_bus d = [(StatsDropped, d)]" by (simp add: tasks_def daemon_callbacks d(3))
      show ?thesis using rest [OF 2(2), of 0] 1(1) 2(1)
        by (simp add: daemon_publish_def publish_def tasks_def [of _ m] cb d(1) td numeral_eq_Suc del: run_handler.simps)
    qed
  qed
qed

text \<open>What users of the bus rely on: a well-typed message is delivered and the invariants are kept.\<close>

lemma node_inv_env [simp]: "node_inv (with_env w e) = node_inv w"
  by (simp add: node_inv_def)

definition reliable :: "(Message \<Rightarrow> node \<Rightarrow> node delivery) \<Rightarrow> bool" where
  "reliable pub \<longleftrightarrow> (\<forall>m w. well_typed m \<longrightarrow> node_inv w \<longrightarrow> (\<exists>w'. pub m w = Delivered w' \<and> node_inv w'))"

lemma reliableE:
  assumes "reliable pub" and "well_typed m" and "node_inv w"
  obtains w' where "pub m w = Delivered w'" and "node_inv w'"
  using assms by (auto simp: reliable_def)

lemma reliable_daemon_publish: "reliable daemon_publish"
  using daemon_publish_delivers by (simp add: reliable_def)

section \<open>Properties\<close>


definition node_demo :: node where
  "node_demo = \<lparr>n_env = env_demo, n_processor = tx_processor, n_stats = PacketStats_new,
     n_health = \<lparr>hm_timeout_ms = 500, hm_last_heartbeat_ms = 0, hm_start_time_ms = 0, hm_last_alive_state = None\<rparr>,
     n_export = TelemetryExportManager_new 512, n_recorder = ReplayRecorder_new,
     n_collector = ReplayOutcomeCollector_new\<rparr>"

lemma node_demo_inv: "node_inv node_demo"
  by (simp add: node_inv_def node_demo_def tx_processor_def PacketProcessor_new_def queue_inv_def stats_inv_new
      export_inv_def TelemetryExportManager_new_def)


end
