(* ===== verification/Control_Dispatch.thy ===== *)
theory Control_Dispatch
  imports Control_Protocol Config_Loader Runtime_Status Runtime_Pipeline
begin

text \<open>
  The commands of the control plane (control/ControlDispatch.cpp). A handler reads the components it is given
  (a null pointer of \<^verbatim>\<open>ControlContext\<close> is \<open>None\<close>); only \<open>handleSendPacket\<close> changes the runtime, by
  publishing. Handlers are named by \<open>command\<close> because the help handler reads the table that names it. The
  library's \<^verbatim>\<open>dump\<close> and the iteration orders of the three hash maps are the parameters \<open>control_params\<close>.
\<close>

section \<open>Context and parameters\<close>

datatype command = Status | Health | Metrics | Version | Help | PacketStatsCmd | ShowConfig | SendPacket | Show |
  FdStatus | TransportStats

record CommandDescriptor =
  cd_name :: string
  cd_description :: string
  cd_fields :: "string list"
  cd_handler :: command

record control_params =
  cp_dump :: "json \<Rightarrow> exn + string"
  cp_table_order :: "(string \<times> CommandDescriptor) list \<Rightarrow> (string \<times> CommandDescriptor) list"
  cp_fd_order :: "(int \<times> FdRecord) list \<Rightarrow> (int \<times> FdRecord) list"
  cp_drop_order :: drop_order

record ControlContext =
  cx_publisher :: "SnapshotPublisher option"
  cx_config :: "Config option"
  cx_bus :: "(Message \<Rightarrow> node \<Rightarrow> node delivery) option"
  cx_forwarding_engine :: "SwitchForwardingEngine option"
  cx_fd_registry :: "FdRegistry option"
  cx_transport_manager :: "PortBackend TransportManager option"

definition VERSION :: string where
  "VERSION = ''1.2.0''"

definition loadSnapshot :: "ControlContext \<Rightarrow> RuntimeStatus option" where
  "loadSnapshot ctx = (case cx_publisher ctx of None \<Rightarrow> None | Some p \<Rightarrow> load_snapshot p)"

definition unsupported :: "control_params \<Rightarrow> string \<Rightarrow> ControlResponse delivery" where
  "unsupported p arg = makeJsonError (cp_dump p) err_InvalidRequest (''unsupported argument: '' @ arg)"

definition no_snapshot :: "control_params \<Rightarrow> ControlResponse delivery" where
  "no_snapshot p = makeJsonError (cp_dump p) err_InternalError ''runtime snapshot not available''"

definition bool_string :: "bool \<Rightarrow> string" where
  "bool_string b = (if b then ''true'' else ''false'')"

abbreviation juint :: "u64 \<Rightarrow> json" where
  "juint w \<equiv> JUint (unat w)"

text \<open>\<^verbatim>\<open>std::to_string\<close> of a double: six decimals, as \<^verbatim>\<open>printf("%f")\<close>.\<close>

definition double_to_string :: "rat \<Rightarrow> string" where
  "double_to_string x =
     (let n = nat (round_half_even (\<bar>x\<bar> * 10 ^ 6))
      in (if x < 0 then ''-'' else []) @ nat_to_string (n div 10 ^ 6) @ ''.'' @
         setw 6 (CHR ''0'') (nat_to_string (n mod 10 ^ 6)))"

section \<open>Status, health, metrics, version\<close>

definition handleStatus :: "control_params \<Rightarrow> ControlContext \<Rightarrow> string \<Rightarrow> ControlResponse delivery" where
  "handleStatus p ctx arg =
     (if arg \<noteq> [] \<and> arg \<noteq> ''json'' then unsupported p arg
      else case loadSnapshot ctx of
        None \<Rightarrow> no_snapshot p
      | Some snap \<Rightarrow>
          if arg = ''json'' then
            makeJsonSuccess (cp_dump p) (JObject
              [(''state'', JString (stateToString (rst_state snap))),
               (''uptime_ms'', juint (rm_uptime_ms (rst_metrics snap))),
               (''tick_count'', juint (rm_tick_count (rst_metrics snap))),
               (''snapshot_version'', juint (rst_snapshot_version snap)),
               (''snapshot_timestamp_ms'', juint (rst_snapshot_timestamp_ms snap))])
          else
            Delivered (text_response
              (''state='' @ stateToString (rst_state snap) @ nl @
               ''uptime_ms='' @ to_string (rm_uptime_ms (rst_metrics snap)) @ nl @
               ''tick_count='' @ to_string (rm_tick_count (rst_metrics snap)) @ nl @
               ''snapshot_version='' @ to_string (rst_snapshot_version snap) @ nl @
               ''snapshot_timestamp_ms='' @ to_string (rst_snapshot_timestamp_ms snap))))"

definition handleHealth :: "control_params \<Rightarrow> ControlContext \<Rightarrow> string \<Rightarrow> ControlResponse delivery" where
  "handleHealth p ctx arg =
     (if arg \<noteq> [] \<and> arg \<noteq> ''json'' then unsupported p arg
      else case loadSnapshot ctx of
        None \<Rightarrow> no_snapshot p
      | Some snap \<Rightarrow>
          if arg = ''json'' then
            makeJsonSuccess (cp_dump p) (JObject
              [(''alive'', JBool (hs_is_alive (rst_health snap))),
               (''silence_ms'', juint (hs_silence_duration_ms (rst_health snap))),
               (''last_heartbeat_ms'', juint (hs_last_heartbeat_ms (rst_health snap)))])
          else
            Delivered (text_response
              (''alive='' @ bool_string (hs_is_alive (rst_health snap)) @ nl @
               ''silence_ms='' @ to_string (hs_silence_duration_ms (rst_health snap)) @ nl @
               ''last_heartbeat_ms='' @ to_string (hs_last_heartbeat_ms (rst_health snap)))))"

definition handleMetrics :: "control_params \<Rightarrow> ControlContext \<Rightarrow> string \<Rightarrow> ControlResponse delivery" where
  "handleMetrics p ctx arg =
     (if arg \<noteq> [] \<and> arg \<noteq> ''json'' then unsupported p arg
      else case loadSnapshot ctx of
        None \<Rightarrow> no_snapshot p
      | Some snap \<Rightarrow>
          if arg = ''json'' then
            makeJsonSuccess (cp_dump p) (JObject
              [(''uptime_ms'', juint (rm_uptime_ms (rst_metrics snap))),
               (''tick_count'', juint (rm_tick_count (rst_metrics snap)))])
          else
            Delivered (text_response
              (''uptime_ms='' @ to_string (rm_uptime_ms (rst_metrics snap)) @ nl @
               ''tick_count='' @ to_string (rm_tick_count (rst_metrics snap)))))"

definition handleVersion :: "control_params \<Rightarrow> ControlContext \<Rightarrow> string \<Rightarrow> ControlResponse delivery" where
  "handleVersion p ctx arg =
     (if arg \<noteq> [] \<and> arg \<noteq> ''json'' then unsupported p arg
      else if arg = ''json'' then
        makeJsonSuccess (cp_dump p) (JObject
          [(''version'', JString VERSION), (''protocol'', JString ''1.2''), (''build'', JString ''debug'')])
      else Delivered (text_response (''version='' @ VERSION @ nl @ ''protocol=1.2'' @ nl @ ''build=debug'')))"

section \<open>The command table and help\<close>

definition commandTable :: "(string \<times> CommandDescriptor) list" where
  "commandTable =
    [(''status'', \<lparr>cd_name = ''status'', cd_description = ''runtime state and core metrics'',
       cd_fields = [''state'', ''uptime_ms'', ''tick_count''], cd_handler = Status\<rparr>),
     (''health'', \<lparr>cd_name = ''health'', cd_description = ''liveness monitoring'',
       cd_fields = [''alive'', ''timeout_ms''], cd_handler = Health\<rparr>),
     (''metrics'', \<lparr>cd_name = ''metrics'', cd_description = ''telemetry snapshot'',
       cd_fields = [''uptime_ms'', ''tick_count''], cd_handler = Metrics\<rparr>),
     (''version'', \<lparr>cd_name = ''version'', cd_description = ''daemon and protocol identification'',
       cd_fields = [''version'', ''protocol'', ''build''], cd_handler = Version\<rparr>),
     (''help'', \<lparr>cd_name = ''help'', cd_description = ''command listing'', cd_fields = [''commands''], cd_handler = Help\<rparr>),
     (''packet-stats'', \<lparr>cd_name = ''packet-stats'', cd_description = ''packet pipeline statistics'',
       cd_fields = [''rx_packets'', ''rx_bytes'', ''drops''], cd_handler = PacketStatsCmd\<rparr>),
     (''show-config'', \<lparr>cd_name = ''show-config'', cd_description = ''current runtime configuration'',
       cd_fields = [''log'', ''daemon'', ''udp'', ''rate''], cd_handler = ShowConfig\<rparr>),
     (''send-packet'', \<lparr>cd_name = ''send-packet'', cd_description = ''inject synthetic packet into runtime'',
       cd_fields = [''broadcast'', ''learn'', ''topology-demo''], cd_handler = SendPacket\<rparr>),
     (''show'', \<lparr>cd_name = ''show'', cd_description = ''runtime inspection commands'', cd_fields = [''mac-table''],
       cd_handler = Show\<rparr>),
     (''fd-status'', \<lparr>cd_name = ''fd-status'', cd_description = ''file descriptor runtime state'',
       cd_fields = [''fd'', ''state'', ''type''], cd_handler = FdStatus\<rparr>),
     (''transport-stats'', \<lparr>cd_name = ''transport-stats'', cd_description = ''transport layer statistics'',
       cd_fields = [''tx_packets'', ''tx_bytes'', ''tx_failed'', ''backend_unavailable'', ''port_down'', ''invalid_packet''],
       cd_handler = TransportStats\<rparr>)]"

definition help_line :: "string \<times> CommandDescriptor \<Rightarrow> string" where
  "help_line = (\<lambda>(name, desc). ''  '' @ name @ '' - '' @ cd_description desc @ nl)"

definition help_json :: "(string \<times> CommandDescriptor) list \<Rightarrow> json" where
  "help_json handlers = JObject [(''commands'', JObject (map (\<lambda>(name, desc).
     (name, JObject [(''description'', JString (cd_description desc)),
                     (''fields'', JArray (map JString (cd_fields desc)))])) handlers))]"

definition handleHelp :: "control_params \<Rightarrow> ControlContext \<Rightarrow> string \<Rightarrow> ControlResponse delivery" where
  "handleHelp p ctx target =
     (if target = ''json'' then makeJsonSuccess (cp_dump p) (help_json (cp_table_order p commandTable))
      else if target \<noteq> [] then
        (case map_of commandTable target of
           None \<Rightarrow> makeJsonError (cp_dump p) err_UnknownCommand (''unknown command: '' @ target)
         | Some cmd \<Rightarrow> Delivered (text_response
             (''command='' @ cd_name cmd @ nl @ ''description='' @ cd_description cmd @ nl @ ''fields:'' @ nl @
              concat (map (\<lambda>f. ''  - '' @ f @ nl) (cd_fields cmd)))))
      else Delivered (text_response (''commands:'' @ nl @ concat (map help_line (cp_table_order p commandTable)))))"

section \<open>Packet statistics\<close>

fun dropReasonToString :: "PacketDropReason \<Rightarrow> string" where
  "dropReasonToString ParseError = ''parse_error''"
| "dropReasonToString ValidationError = ''validation_error''"
| "dropReasonToString QueueOverflow = ''queue_overflow''"
| "dropReasonToString RateLimited = ''rate_limited''"
| "dropReasonToString _ = ''unknown''"

definition packet_stats_json :: "drop_order \<Rightarrow> PacketMetrics \<Rightarrow> json" where
  "packet_stats_json order m = JObject
     [(''rx_packets'', juint (pm_rx_packets m)), (''rx_bytes'', juint (pm_rx_bytes m)),
      (''ingress_packets'', juint (pm_ingress_packets m)), (''processed_packets'', juint (pm_processed_packets m)),
      (''processing_gap'', juint (pm_processing_gap m)),
      (''drops'', JObject (map (\<lambda>(reason, n). (dropReasonToString reason, juint n)) (order (pm_drops_by_reason m)))),
      (''rx_packets_per_sec'', juint (pm_rx_packets_per_sec m)), (''rx_bytes_per_sec'', juint (pm_rx_bytes_per_sec m)),
      (''rx_packets_per_sec_raw'', juint (pm_rx_packets_per_sec_raw m)),
      (''rx_bytes_per_sec_raw'', juint (pm_rx_bytes_per_sec_raw m)),
      (''terminal_events'', juint (pm_terminal_events m)), (''duplicate_events'', juint (pm_duplicate_events m)),
      (''pending_terminal_events'', juint (pm_pending_terminal_events m)),
      (''average_processing_latency_ns'', juint (pm_average_processing_latency_ns m)),
      (''max_processing_latency_ns'', juint (pm_max_processing_latency_ns m)),
      (''latency_samples'', juint (pm_latency_samples m)),
      (''udp_drain_completions'', juint (pm_udp_drain_completions m))]"

fun drop_lines :: "(PacketDropReason \<times> u64) list \<Rightarrow> u64 \<Rightarrow> string \<times> u64" where
  "drop_lines [] total_drops = ([], total_drops)"
| "drop_lines ((reason, n) # rest) total_drops =
     (let (lines, total) = drop_lines rest (total_drops + n)
      in (''drops_'' @ dropReasonToString reason @ ''='' @ to_string n @ nl @ lines, total))"

definition packet_stats_text :: "drop_order \<Rightarrow> PacketMetrics \<Rightarrow> string" where
  "packet_stats_text order m =
     (let (drop_text, total_drops) = drop_lines (order (pm_drops_by_reason m)) 0 in
      ''rx_packets='' @ to_string (pm_rx_packets m) @ nl @
      ''rx_bytes='' @ to_string (pm_rx_bytes m) @ nl @
      ''ingress_packets='' @ to_string (pm_ingress_packets m) @ nl @
      ''processed_packets='' @ to_string (pm_processed_packets m) @ nl @
      ''processing_gap='' @ to_string (pm_processing_gap m) @ nl @
      drop_text @
      ''drops_total='' @ to_string total_drops @ nl @
      ''rx_packets_per_sec='' @ to_string (pm_rx_packets_per_sec m) @ nl @
      ''rx_bytes_per_sec='' @ to_string (pm_rx_bytes_per_sec m) @ nl @
      ''rx_packets_per_sec_raw='' @ to_string (pm_rx_packets_per_sec_raw m) @ nl @
      ''rx_bytes_per_sec_raw='' @ to_string (pm_rx_bytes_per_sec_raw m) @
      ''terminal_events='' @ to_string (pm_terminal_events m) @
      ''duplicate_events='' @ to_string (pm_duplicate_events m) @
      ''pending_terminal_events='' @ to_string (pm_pending_terminal_events m) @
      ''average_processing_latency_ns='' @ to_string (pm_average_processing_latency_ns m) @ nl @
      ''max_processing_latency_ns='' @ to_string (pm_max_processing_latency_ns m) @ nl @
      ''udp_drain_completions='' @ to_string (pm_udp_drain_completions m) @ nl)"

definition handlePacketStats :: "control_params \<Rightarrow> ControlContext \<Rightarrow> string \<Rightarrow> ControlResponse delivery" where
  "handlePacketStats p ctx arg =
     (if arg \<noteq> [] \<and> arg \<noteq> ''json'' then unsupported p arg
      else case loadSnapshot ctx of
        None \<Rightarrow> no_snapshot p
      | Some snap \<Rightarrow>
          if arg = ''json'' then makeJsonSuccess (cp_dump p) (packet_stats_json (cp_drop_order p) (rst_packet snap))
          else Delivered (text_response (packet_stats_text (cp_drop_order p) (rst_packet snap))))"

section \<open>Configuration\<close>

definition handleConfig :: "control_params \<Rightarrow> ControlContext \<Rightarrow> string \<Rightarrow> ControlResponse delivery" where
  "handleConfig p ctx arg =
     (case cx_config ctx of
        None \<Rightarrow> makeJsonError (cp_dump p) err_InternalError ''config is not available''
      | Some cfg \<Rightarrow>
          if arg \<noteq> [] \<and> arg \<noteq> ''json'' then unsupported p arg
          else if arg = ''json'' then
            makeJsonSuccess (cp_dump p) (JObject
              [(''log'', JObject [(''level'', JString (lc_level (cfg_log cfg))), (''file'', JString (lc_file (cfg_log cfg)))]),
               (''daemon'', JObject [(''tick_ms'', JUint (unat (dc_tick_ms (cfg_daemon cfg))))]),
               (''udp'', JObject [(''enabled'', JBool (uc_enabled (cfg_udp cfg))), (''port'', JInt (uc_port (cfg_udp cfg)))]),
               (''rate'', JObject [(''alpha'', JReal (rc_alpha (cfg_rate cfg))),
                                   (''window_ms'', juint (rc_window_ms (cfg_rate cfg)))])])
          else Delivered (text_response
            (''log.level='' @ lc_level (cfg_log cfg) @ nl @ ''log.file='' @ lc_file (cfg_log cfg) @ nl @
             ''daemon.tick_ms='' @ to_string (dc_tick_ms (cfg_daemon cfg)) @ nl @
             ''udp.enabled='' @ bool_string (uc_enabled (cfg_udp cfg)) @ nl @
             ''udp.port='' @ int_to_string (uc_port (cfg_udp cfg)) @ nl @
             ''rate.alpha='' @ double_to_string (rc_alpha (cfg_rate cfg)) @ nl @
             ''rate.window_ms='' @ to_string (rc_window_ms (cfg_rate cfg)))))"

section \<open>Synthetic packets\<close>

definition publishSyntheticPacket ::
  "(Message \<Rightarrow> node \<Rightarrow> node delivery) \<Rightarrow> u64 \<Rightarrow> string \<Rightarrow> string \<Rightarrow> string \<Rightarrow> u32 \<Rightarrow> node \<Rightarrow> node delivery" where
  "publishSyntheticPacket pub packet_id payload source_mac_str destination_mac_str ingress_port w =
     (case (fromString source_mac_str, fromString destination_mac_str) of
        (Some source_mac, Some destination_mac) \<Rightarrow>
          let (timestamp_ms, e) = nowMs (n_env w);
              packet = Packet_default\<lparr>pk_id := packet_id, pk_lifecycle_id := packet_id, pk_timestamp_ms := timestamp_ms,
                pk_payload := payload, pk_payload_size := of_nat (length payload), pk_valid := True,
                pk_source_mac := Some source_mac, pk_destination_mac := Some destination_mac,
                pk_ingress_port := Some ingress_port\<rparr>
          in pub \<lparr>m_type = T_PacketRx, m_timestamp_ms = timestamp_ms, m_payload = P_Packet packet\<rparr> (with_env w e)
      | _ \<Rightarrow> Delivered w)"

fun publish_all ::
  "(Message \<Rightarrow> node \<Rightarrow> node delivery) \<Rightarrow> (u64 \<times> string \<times> string \<times> string \<times> u32) list \<Rightarrow> node \<Rightarrow> node delivery" where
  "publish_all pub [] w = Delivered w"
| "publish_all pub ((packet_id, payload, src, dst, port) # rest) w =
     and_then (publishSyntheticPacket pub packet_id payload src dst port w) (publish_all pub rest)"

definition answer_with :: "ControlResponse delivery \<Rightarrow> node \<Rightarrow> (ControlResponse \<times> node) delivery" where
  "answer_with response w = and_then response (\<lambda>r. Delivered (r, w))"

definition broadcast_packets :: "(u64 \<times> string \<times> string \<times> string \<times> u32) list" where
  "broadcast_packets = [(999, ''control-plane-broadcast'', ''00:11:22:33:44:55'', ''ff:ff:ff:ff:ff:ff'', 2)]"

definition learn_packets :: "(u64 \<times> string \<times> string \<times> string \<times> u32) list" where
  "learn_packets =
     [(1000, ''mac-learning'', ''AA:AA:AA:AA:AA:AA'', ''FF:FF:FF:FF:FF:FF'', 1),
      (1001, ''known-unicast'', ''BB:BB:BB:BB:BB:BB'', ''AA:AA:AA:AA:AA:AA'', 2)]"

definition topology_packets :: "(u64 \<times> string \<times> string \<times> string \<times> u32) list" where
  "topology_packets =
     [(2000, ''broadcast-discovery'', ''AA:AA:AA:AA:AA:AA'', ''FF:FF:FF:FF:FF:FF'', 1),
      (2001, ''known-unicast-bb'', ''BB:BB:BB:BB:BB:BB'', ''AA:AA:AA:AA:AA:AA'', 2),
      (2002, ''known-unicast-cc'', ''CC:CC:CC:CC:CC:CC'', ''AA:AA:AA:AA:AA:AA'', 3),
      (2003, ''unknown-unicast'', ''DD:DD:DD:DD:DD:DD'', ''EE:EE:EE:EE:EE:EE'', 4),
      (2004, ''known-unicast-ee'', ''EE:EE:EE:EE:EE:EE'', ''CC:CC:CC:CC:CC:CC'', 5)]"

definition handleSendPacket ::
  "control_params \<Rightarrow> ControlContext \<Rightarrow> string \<Rightarrow> node \<Rightarrow> (ControlResponse \<times> node) delivery" where
  "handleSendPacket p ctx arg w =
     (case cx_bus ctx of
        None \<Rightarrow> answer_with (makeJsonError (cp_dump p) err_InternalError ''messaging bus unavailable'') w
      | Some pub \<Rightarrow>
          if arg = ''broadcast'' then
            and_then (publish_all pub broadcast_packets w) (answer_with (makeJsonSuccess (cp_dump p) (JObject
              [(''result'', JString ''packet injected''), (''mode'', JString arg), (''lifecycle_id'', JInt 999)])))
          else if arg = ''learn'' then
            and_then (publish_all pub learn_packets w) (answer_with (makeJsonSuccess (cp_dump p) (JObject
              [(''result'', JString ''mac learning sequence injected'')])))
          else if arg = ''topology-demo'' then
            and_then (publish_all pub topology_packets w) (answer_with (makeJsonSuccess (cp_dump p) (JObject
              [(''result'', JString ''topology demo injected''), (''ports'', JArray (map JInt [1, 2, 3, 4, 5])),
               (''packet_count'', JInt 5)])))
          else answer_with (makeJsonError (cp_dump p) err_InvalidRequest (''unsupported packet mode: '' @ arg)) w)"

section \<open>Inspection of tables, descriptors and counters\<close>

definition mac_line :: "MacTableEntry \<Rightarrow> string" where
  "mac_line entry = toString (mte_mac entry) @ '' port='' @ to_string (mte_port_id entry) @
     '' last_seen='' @ to_string (mte_last_seen_tick entry) @ nl"

definition handleShow :: "control_params \<Rightarrow> ControlContext \<Rightarrow> string \<Rightarrow> ControlResponse delivery" where
  "handleShow p ctx arg =
     (case cx_forwarding_engine ctx of
        None \<Rightarrow> makeJsonError (cp_dump p) err_InternalError ''forwarding engine unavailable''
      | Some engine \<Rightarrow>
          if arg = ''mac-table'' then
            let entries = mt_snapshot (eng_mac_table engine)
            in Delivered (text_response (''mac_table_size='' @ nat_to_string (length entries) @ nl @ concat (map mac_line entries)))
          else makeJsonError (cp_dump p) err_InvalidRequest (''unsupported packet mode: '' @ arg))"

fun fdStateToString :: "FdState \<Rightarrow> string" where
  "fdStateToString Active = ''active''"
| "fdStateToString Closed = ''closed''"
| "fdStateToString Released = ''released''"
| "fdStateToString Invalid = ''invalid''"

fun fdTypeToString :: "FdType \<Rightarrow> string" where
  "fdTypeToString UdpSocket = ''udp_socket''"
| "fdTypeToString UnixSocket = ''unix_socket''"
| "fdTypeToString _ = ''unknown''"

definition fd_line :: "FdRecord \<Rightarrow> string" where
  "fd_line record = ''fd='' @ int_to_string (fdr_fd record) @ '' state='' @ fdStateToString (fdr_state record) @
     '' type='' @ fdTypeToString (fdr_type record) @ nl"

definition fd_json :: "FdRecord \<Rightarrow> json" where
  "fd_json record = JObject [(''fd'', JInt (fdr_fd record)), (''state'', JString (fdStateToString (fdr_state record))),
     (''type'', JString (fdTypeToString (fdr_type record)))]"

definition handleFdStatus :: "control_params \<Rightarrow> ControlContext \<Rightarrow> string \<Rightarrow> ControlResponse delivery" where
  "handleFdStatus p ctx arg =
     (case cx_fd_registry ctx of
        None \<Rightarrow> makeJsonError (cp_dump p) err_InternalError ''fd registry unavailable''
      | Some registry \<Rightarrow>
          if arg \<noteq> [] \<and> arg \<noteq> ''json'' then unsupported p arg
          else
            let records = fd_snapshot (cp_fd_order p) registry in
            if arg = ''json'' then
              makeJsonSuccess (cp_dump p) (JObject [(''fds'', JArray (map fd_json records))])
            else Delivered (text_response (''fd_count='' @ nat_to_string (length records) @ nl @ concat (map fd_line records))))"

definition handleTransportStats :: "control_params \<Rightarrow> ControlContext \<Rightarrow> string \<Rightarrow> ControlResponse delivery" where
  "handleTransportStats p ctx arg =
     (case cx_transport_manager ctx of
        None \<Rightarrow> makeJsonError (cp_dump p) err_InternalError ''transport manager unavailable''
      | Some tm \<Rightarrow>
          if arg \<noteq> [] \<and> arg \<noteq> ''json'' then unsupported p arg
          else
            let counters = tm_counters tm in
            if arg = ''json'' then
              makeJsonSuccess (cp_dump p) (JObject
                [(''tx_packets'', juint (tc_tx_packets counters)), (''tx_bytes'', juint (tc_tx_bytes counters)),
                 (''tx_failed'', juint (tc_tx_failed counters)),
                 (''backend_unavailable'', juint (tc_backend_unavailable counters)),
                 (''port_down'', juint (tc_port_down counters)), (''invalid_packet'', juint (tc_invalid_packet counters))])
            else Delivered (text_response
              (''tx_packets='' @ to_string (tc_tx_packets counters) @ nl @
               ''tx_bytes='' @ to_string (tc_tx_bytes counters) @ nl @
               ''tx_failed='' @ to_string (tc_tx_failed counters) @ nl @
               ''backend_unavailable='' @ to_string (tc_backend_unavailable counters) @ nl @
               ''port_down='' @ to_string (tc_port_down counters) @ nl @
               ''invalid_packet='' @ to_string (tc_invalid_packet counters))))"

section \<open>Dispatch\<close>

fun run_command ::
  "command \<Rightarrow> control_params \<Rightarrow> ControlContext \<Rightarrow> string \<Rightarrow> node \<Rightarrow> (ControlResponse \<times> node) delivery" where
  "run_command Status p ctx arg w = answer_with (handleStatus p ctx arg) w"
| "run_command Health p ctx arg w = answer_with (handleHealth p ctx arg) w"
| "run_command Metrics p ctx arg w = answer_with (handleMetrics p ctx arg) w"
| "run_command Version p ctx arg w = answer_with (handleVersion p ctx arg) w"
| "run_command Help p ctx arg w = answer_with (handleHelp p ctx arg) w"
| "run_command PacketStatsCmd p ctx arg w = answer_with (handlePacketStats p ctx arg) w"
| "run_command ShowConfig p ctx arg w = answer_with (handleConfig p ctx arg) w"
| "run_command SendPacket p ctx arg w = handleSendPacket p ctx arg w"
| "run_command Show p ctx arg w = answer_with (handleShow p ctx arg) w"
| "run_command FdStatus p ctx arg w = answer_with (handleFdStatus p ctx arg) w"
| "run_command TransportStats p ctx arg w = answer_with (handleTransportStats p ctx arg) w"

definition split_command :: "string \<Rightarrow> string \<times> string" where
  "split_command command =
     (case str_find '':'' command of
        None \<Rightarrow> (command, [])
      | Some sep \<Rightarrow> (take sep command, drop (sep + 1) command))"

definition dispatchV12 ::
  "control_params \<Rightarrow> ControlRequest \<Rightarrow> ControlContext \<Rightarrow> node \<Rightarrow> (ControlResponse \<times> node) delivery" where
  "dispatchV12 p req ctx w =
     (let (command, arg) = split_command (rq_command req) in
      case map_of commandTable command of
        None \<Rightarrow> answer_with (makeJsonError (cp_dump p) err_UnknownCommand (''unknown command: '' @ command)) w
      | Some descriptor \<Rightarrow> run_command (cd_handler descriptor) p ctx arg w)"

definition dispatchControlRequest ::
  "control_params \<Rightarrow> ControlRequest \<Rightarrow> ControlContext \<Rightarrow> node \<Rightarrow> (ControlResponse \<times> node) delivery" where
  "dispatchControlRequest p req ctx w =
     (if rq_version req = [] \<or> rq_command req = [] then
        answer_with (makeJsonError (cp_dump p) err_InvalidRequest ''missing version or command'') w
      else if \<not> isWellFormedVersion (rq_version req) then
        answer_with (makeJsonError (cp_dump p) err_InvalidVersionFormat
          (''invalid protocol version format: '' @ rq_version req)) w
      else if \<not> isValidProtocolVersion (rq_version req) then
        answer_with (makeJsonError (cp_dump p) err_UnsupportedVersion
          (''unsupported protocol version: '' @ rq_version req)) w
      else if rq_version req = ''1.2'' then dispatchV12 p req ctx w
      else answer_with (makeJsonError (cp_dump p) err_UnsupportedVersion
          (''unsupported protocol version: '' @ rq_version req)) w)"

section \<open>Every handler answers\<close>

text \<open>An answer is a response with a text; the library raises only on text that is not UTF-8.\<close>

definition answers :: "ControlResponse delivery \<Rightarrow> bool" where
  "answers d \<longleftrightarrow> (\<exists>r. d = Delivered r \<and> rp_payload r \<noteq> [])"

definition ctx_utf8 :: "ControlContext \<Rightarrow> bool" where
  "ctx_utf8 ctx \<longleftrightarrow> (case cx_config ctx of None \<Rightarrow> True | Some cfg \<Rightarrow> utf8 (lc_level (cfg_log cfg)) \<and> utf8 (lc_file (cfg_log cfg)))"

named_theorems answer_intros \<open>responses that are answers\<close>

lemma answers_text [answer_intros]: "s \<noteq> [] \<Longrightarrow> answers (Delivered (text_response s))"
  by (simp add: answers_def text_response_def)

lemma answers_success [answer_intros]:
  "strict_dump dump \<Longrightarrow> list_all utf8 (json_strings j) \<Longrightarrow> answers (makeJsonSuccess dump j)"
  using makeJsonSuccess_utf8 [of dump j] by (auto simp: answers_def)

lemma answers_error [answer_intros]:
  "strict_dump dump \<Longrightarrow> utf8 c \<Longrightarrow> utf8 m \<Longrightarrow> answers (makeJsonError dump c m)"
  using makeJsonError_utf8(1) [of dump c m] by (auto simp: answers_def)

lemma utf8_error_codes [simp]:
  "utf8 err_InvalidRequest" "utf8 err_InternalError" "utf8 err_UnknownCommand" "utf8 err_UnsupportedVersion"
  "utf8 err_InvalidVersionFormat"
  by (simp_all add: error_codes utf8_all_ascii)

lemma answers_unsupported [answer_intros]: "strict_dump (cp_dump p) \<Longrightarrow> utf8 arg \<Longrightarrow> answers (unsupported p arg)"
  unfolding unsupported_def by (intro answers_error utf8_append) (simp_all add: utf8_all_ascii)

lemma answers_no_snapshot [answer_intros]: "strict_dump (cp_dump p) \<Longrightarrow> answers (no_snapshot p)"
  unfolding no_snapshot_def by (intro answers_error) (simp_all add: utf8_all_ascii)

lemma utf8_stateToString [simp]: "utf8 (stateToString st)"
  by (cases st) (simp_all add: utf8_all_ascii)

lemma utf8_fdStateToString [simp]: "utf8 (fdStateToString st)"
  by (cases st) (simp_all add: utf8_all_ascii)

lemma utf8_fdTypeToString [simp]: "utf8 (fdTypeToString ty)"
  by (cases ty) (simp_all add: utf8_all_ascii)

lemma utf8_dropReasonToString [simp]: "utf8 (dropReasonToString r)"
  by (cases r) (simp_all add: utf8_all_ascii)

text \<open>The handlers that need a snapshot share their guards.\<close>

lemma with_snapshot_answers:
  assumes "strict_dump (cp_dump p)" and "utf8 arg"
    and "\<And>snap. arg = ''json'' \<Longrightarrow> list_all utf8 (json_strings (doc snap))" and "\<And>snap. text snap \<noteq> []"
  shows "answers (if arg \<noteq> [] \<and> arg \<noteq> ''json'' then unsupported p arg
    else case loadSnapshot ctx of None \<Rightarrow> no_snapshot p
      | Some snap \<Rightarrow> if arg = ''json'' then makeJsonSuccess (cp_dump p) (doc snap) else Delivered (text_response (text snap)))"
  using assms by (auto intro!: answer_intros split: option.split)

lemma handleStatus_answers: "strict_dump (cp_dump p) \<Longrightarrow> utf8 arg \<Longrightarrow> answers (handleStatus p ctx arg)"
  unfolding handleStatus_def by (rule with_snapshot_answers) (simp_all add: utf8_all_ascii)

lemma handleHealth_answers: "strict_dump (cp_dump p) \<Longrightarrow> utf8 arg \<Longrightarrow> answers (handleHealth p ctx arg)"
  unfolding handleHealth_def by (rule with_snapshot_answers) (simp_all add: utf8_all_ascii)

lemma handleMetrics_answers: "strict_dump (cp_dump p) \<Longrightarrow> utf8 arg \<Longrightarrow> answers (handleMetrics p ctx arg)"
  unfolding handleMetrics_def by (rule with_snapshot_answers) (simp_all add: utf8_all_ascii)

lemma packet_stats_json_utf8: "list_all utf8 (json_strings (packet_stats_json order m))"
  by (auto simp: packet_stats_json_def utf8_all_ascii list_all_iff)

lemma packet_stats_text_nonempty: "packet_stats_text order m \<noteq> []"
  by (simp add: packet_stats_text_def split: prod.split)

lemma handlePacketStats_answers: "strict_dump (cp_dump p) \<Longrightarrow> utf8 arg \<Longrightarrow> answers (handlePacketStats p ctx arg)"
  unfolding handlePacketStats_def
  by (rule with_snapshot_answers) (simp_all add: packet_stats_json_utf8 packet_stats_text_nonempty)

lemma handleVersion_answers: "strict_dump (cp_dump p) \<Longrightarrow> utf8 arg \<Longrightarrow> answers (handleVersion p ctx arg)"
  by (auto simp: handleVersion_def VERSION_def utf8_all_ascii intro!: answer_intros)

text \<open>Every string of the command table is ASCII.\<close>

lemma commandTable_utf8:
  "list_all (\<lambda>(name, desc). utf8 name \<and> utf8 (cd_description desc) \<and> list_all utf8 (cd_fields desc)) commandTable"
  by (simp add: commandTable_def utf8_all_ascii)

lemma help_json_utf8:
  assumes "set handlers = set commandTable"
  shows "list_all utf8 (json_strings (help_json handlers))"
  using commandTable_utf8 assms by (fastforce simp: help_json_def list_all_iff utf8_all_ascii)

lemma handleHelp_answers:
  assumes "strict_dump (cp_dump p)" and "utf8 arg" and "hash_order (cp_table_order p)"
  shows "answers (handleHelp p ctx arg)"
proof -
  have "utf8 (''unknown command: '' @ arg)" using assms(2) by (intro utf8_append) (simp_all add: utf8_all_ascii)
  then show ?thesis
    using assms hash_order_set [OF assms(3), of commandTable]
    by (auto simp: handleHelp_def intro!: answer_intros help_json_utf8 split: option.split)
qed

lemma handleConfig_answers:
  assumes "strict_dump (cp_dump p)" and "utf8 arg" and "ctx_utf8 ctx"
  shows "answers (handleConfig p ctx arg)"
  using assms
  by (auto simp: handleConfig_def ctx_utf8_def utf8_all_ascii intro!: answer_intros split: option.splits)

lemma handleShow_answers:
  assumes "strict_dump (cp_dump p)" and "utf8 arg"
  shows "answers (handleShow p ctx arg)"
proof -
  have "utf8 (''unsupported packet mode: '' @ arg)" using assms(2) by (intro utf8_append) (simp_all add: utf8_all_ascii)
  then show ?thesis
    using assms by (auto simp: handleShow_def Let_def utf8_all_ascii intro!: answer_intros split: option.split)
qed

lemma handleFdStatus_answers: "strict_dump (cp_dump p) \<Longrightarrow> utf8 arg \<Longrightarrow> answers (handleFdStatus p ctx arg)"
  by (auto simp: handleFdStatus_def Let_def utf8_all_ascii fd_json_def list_all_iff intro!: answer_intros split: option.split)

lemma handleTransportStats_answers:
  "strict_dump (cp_dump p) \<Longrightarrow> utf8 arg \<Longrightarrow> answers (handleTransportStats p ctx arg)"
  by (auto simp: handleTransportStats_def Let_def utf8_all_ascii intro!: answer_intros split: option.split)

section \<open>Every request gets a response and keeps the runtime's invariants\<close>

definition responds :: "(ControlResponse \<times> node) delivery \<Rightarrow> bool" where
  "responds d \<longleftrightarrow> (\<exists>r w. d = Delivered (r, w) \<and> rp_payload r \<noteq> [] \<and> node_inv w)"

lemma responds_answer_with: "answers r \<Longrightarrow> node_inv w \<Longrightarrow> responds (answer_with r w)"
  by (auto simp: answers_def responds_def answer_with_def)

lemma publishSyntheticPacket_safe:
  assumes "reliable pub" and "node_inv w"
  shows "\<exists>w'. publishSyntheticPacket pub n payload src dst port w = Delivered w' \<and> node_inv w'"
proof (cases "(fromString src, fromString dst)")
  case (Pair a b)
  show ?thesis
  proof (cases "a = None \<or> b = None")
    case True
    then show ?thesis using Pair assms(2) by (auto simp: publishSyntheticPacket_def split: option.split)
  next
    case False
    obtain ts e where ms: "nowMs (n_env w) = (ts, e)" by (cases "nowMs (n_env w)")
    have "\<exists>w'. pub \<lparr>m_type = T_PacketRx, m_timestamp_ms = ts, m_payload = P_Packet q\<rparr> (with_env w e) = Delivered w' \<and> node_inv w'" for q
      using reliableE [OF assms(1), of "\<lparr>m_type = T_PacketRx, m_timestamp_ms = ts, m_payload = P_Packet q\<rparr>" "with_env w e"] assms(2)
      by (simp add: well_typed_def) metis
    then show ?thesis using Pair False by (auto simp: publishSyntheticPacket_def ms Let_def)
  qed
qed

lemma publish_all_safe:
  "reliable pub \<Longrightarrow> node_inv w \<Longrightarrow> \<exists>w'. publish_all pub ps w = Delivered w' \<and> node_inv w'"
proof (induction ps arbitrary: w)
  case (Cons q ps)
  obtain n payload src dst port where q: "q = (n, payload, src, dst, port)" by (cases q)
  obtain w' where "publishSyntheticPacket pub n payload src dst port w = Delivered w'" "node_inv w'"
    using publishSyntheticPacket_safe [OF Cons.prems] by blast
  then show ?case using Cons.IH [of w'] Cons.prems(1) by (simp add: q)
qed simp

definition ctx_reliable :: "ControlContext \<Rightarrow> bool" where
  "ctx_reliable ctx \<longleftrightarrow> (\<forall>pub. cx_bus ctx = Some pub \<longrightarrow> reliable pub)"

lemma handleSendPacket_responds:
  assumes "strict_dump (cp_dump p)" and "utf8 arg" and "ctx_reliable ctx" and "node_inv w"
  shows "responds (handleSendPacket p ctx arg w)"
proof (cases "cx_bus ctx")
  case None
  then show ?thesis
    using assms(1,4) by (simp add: handleSendPacket_def responds_answer_with answers_error utf8_all_ascii)
next
  case (Some pub')
  have err: "answers (makeJsonError (cp_dump p) err_InvalidRequest (''unsupported packet mode: '' @ arg))"
    using assms(1,2) by (intro answers_error utf8_append) (simp_all add: utf8_all_ascii)
  have inject: "responds (and_then (publish_all pub' ps w) (answer_with (makeJsonSuccess (cp_dump p) j)))"
    if "list_all utf8 (json_strings j)" for ps j
    using publish_all_safe [of pub' w ps] responds_answer_with [OF answers_success [OF assms(1) that]] assms(3,4) Some
    by (auto simp: ctx_reliable_def)
  show ?thesis
    unfolding handleSendPacket_def Some option.case
    using inject responds_answer_with [OF err assms(4)] by (simp add: utf8_all_ascii)
qed

lemma run_command_responds:
  assumes "strict_dump (cp_dump p)" and "hash_order (cp_table_order p)" and "utf8 arg" and "ctx_utf8 ctx"
    and "ctx_reliable ctx" and "node_inv w"
  shows "responds (run_command c p ctx arg w)"
  using assms
  by (cases c) (simp_all add: responds_answer_with handleStatus_answers handleHealth_answers handleMetrics_answers
      handleVersion_answers handleHelp_answers handlePacketStats_answers handleConfig_answers handleShow_answers
      handleFdStatus_answers handleTransportStats_answers handleSendPacket_responds)

lemma str_find_char: "str_find [c] s = Some i \<Longrightarrow> i < length s \<and> s ! i = c \<and> s = take i s @ c # drop (i + 1) s"
proof -
  assume a: "str_find [c] s = Some i"
  from str_find_bound [OF a] have "i < length s" by simp
  moreover have "s ! i = c" using str_find_prefix [OF a] \<open>i < length s\<close> by (auto simp: prefix_def intro: nth_via_drop)
  ultimately show ?thesis using id_take_nth_drop [of i s] by simp
qed

lemma split_command_utf8: "utf8 cmd \<Longrightarrow> split_command cmd = (name, arg) \<Longrightarrow> utf8 name \<and> utf8 arg"
proof (cases "str_find '':'' cmd")
  case (Some i)
  assume "utf8 cmd" "split_command cmd = (name, arg)"
  then have "utf8 (name @ CHR '':'' # arg)" using Some str_find_char [of "CHR '':''" cmd i] by (simp add: split_command_def)
  then show ?thesis by (simp add: utf8_split)
qed (simp add: split_command_def)

lemma dispatch_responds:
  assumes "strict_dump (cp_dump p)" and "hash_order (cp_table_order p)" and "utf8 (rq_version req)" and "utf8 (rq_command req)"
    and "ctx_utf8 ctx" and "ctx_reliable ctx" and "node_inv w"
  shows "responds (dispatchControlRequest p req ctx w)"
proof -
  obtain name arg where sp: "split_command (rq_command req) = (name, arg)" by (cases "split_command (rq_command req)")
  then have u: "utf8 name" "utf8 arg" using split_command_utf8 assms(4) by blast+
  have err: "utf8 c \<Longrightarrow> utf8 m \<Longrightarrow> responds (answer_with (makeJsonError (cp_dump p) c m) w)" for c m
    using assms(1,7) by (intro responds_answer_with answers_error)
  have m: "utf8 (''unknown command: '' @ name)" "utf8 (''invalid protocol version format: '' @ rq_version req)"
    "utf8 (''unsupported protocol version: '' @ rq_version req)"
    using u assms(3) by (intro utf8_append; simp add: utf8_all_ascii)+
  have "responds (dispatchV12 p req ctx w)"
    using m(1) run_command_responds [OF assms(1,2) u(2) assms(5-7)] err
    by (auto simp: dispatchV12_def sp split: option.split)
  then show ?thesis using m(2,3) err by (auto simp: dispatchControlRequest_def utf8_all_ascii)
qed

text \<open>Parameters for the witnesses: a library that prints every document the same way, but only UTF-8.\<close>

definition demo_dump :: "json \<Rightarrow> exn + string" where
  "demo_dump j = (if list_all utf8 (json_strings j) then Inr ''{}'' else Inl (RuntimeError ''invalid UTF-8 byte''))"

definition demo_params :: control_params where
  "demo_params = \<lparr>cp_dump = demo_dump, cp_table_order = (\<lambda>xs. xs), cp_fd_order = (\<lambda>xs. xs), cp_drop_order = (\<lambda>xs. xs)\<rparr>"

lemma demo_params_ok: "strict_dump (cp_dump demo_params)" "hash_order (cp_table_order demo_params)"
  by (simp_all add: demo_params_def strict_dump_def demo_dump_def hash_order_def)

definition demo_context :: ControlContext where
  "demo_context = \<lparr>cx_publisher = None, cx_config = None, cx_bus = Some daemon_publish, cx_forwarding_engine = None,
     cx_fd_registry = None, cx_transport_manager = None\<rparr>"

end
