(* ===== verification/Packet_Injection.thy ===== *)
theory Packet_Injection
  imports Control_Dispatch
begin

text \<open>
  From the control plane to the forwarding decision: what \<^verbatim>\<open>send-packet\<close> puts into the processor's queue through
  the bus, and what the worker then decides. Composes the control handlers, the wired bus, the packet
  processor and the switching engine.
\<close>

section \<open>Injection through the bus\<close>

text \<open>A packet published with fault injection off and room in the queue is queued, and nothing else of the
  processor changes.\<close>

lemma daemon_publish_queues:
  assumes "\<not> fc_enabled (fi_config (pp_injector (n_processor w)))" and "length (pp_queue (n_processor w)) < MAX_QUEUE_SIZE"
    and "m = \<lparr>m_type = T_PacketRx, m_timestamp_ms = ts, m_payload = P_Packet q\<rparr>"
  shows "\<exists>w'. daemon_publish m w = Delivered w' \<and>
    n_processor w' = (n_processor w)\<lparr>pp_queue := pp_queue (n_processor w) @ [q]\<rparr>"
proof -
  let ?p = "(n_processor w)\<lparr>pp_queue := pp_queue (n_processor w) @ [q]\<rparr>"
  have typed: "well_typed m" "m_type m = T_PacketRx" by (simp_all add: assms(3) well_typed_def)
  obtain now e where ms: "nowMs (n_env w) = (now, e)" by (cases "nowMs (n_env w)")
  have "processor_onPacketRx m (n_processor w, n_env w) = ((?p, e), [])"
    using assms by (simp add: processor_onPacketRx_def ms inject_disabled no_failure_def admit_def Let_def)
  then have "run_handler ProcessorRx m w = Inr (w\<lparr>n_processor := ?p, n_env := e\<rparr>, [])" by simp
  moreover obtain s e1 where
    "run_handler StatsRx m (w\<lparr>n_processor := ?p, n_env := e\<rparr>) = Inr (w\<lparr>n_processor := ?p, n_stats := s, n_env := e1\<rparr>, [])"
    using stats_handler [OF typed(1), of StatsRx "w\<lparr>n_processor := ?p, n_env := e\<rparr>"] typed(2) by auto
  moreover obtain e2 where
    "run_handler DaemonRx m (w\<lparr>n_processor := ?p, n_stats := s, n_env := e1\<rparr>) = Inr (w\<lparr>n_processor := ?p, n_stats := s, n_env := e2\<rparr>, [])"
    using daemon_handler [OF typed(1), of DaemonRx "w\<lparr>n_processor := ?p, n_stats := s, n_env := e1\<rparr>"] typed(2) by auto
  ultimately have "daemon_publish m w = Delivered (w\<lparr>n_processor := ?p, n_stats := s, n_env := e2\<rparr>)"
    using typed(2) by (simp add: daemon_publish_def publish_def tasks_def daemon_callbacks eval_nat_numeral del: run_handler.simps)
  moreover have "n_processor (w\<lparr>n_processor := ?p, n_stats := s, n_env := e2\<rparr>) = ?p" by (cases w) simp
  ultimately show ?thesis by blast
qed

definition synthetic :: "u64 \<times> string \<times> string \<times> string \<times> u32 \<Rightarrow> u64 \<Rightarrow> Packet" where
  "synthetic = (\<lambda>(packet_id, payload, src, dst, port) ts.
     Packet_default\<lparr>pk_id := packet_id, pk_lifecycle_id := packet_id, pk_timestamp_ms := ts, pk_payload := payload,
       pk_payload_size := of_nat (length payload), pk_valid := True, pk_source_mac := fromString src,
       pk_destination_mac := fromString dst, pk_ingress_port := Some port\<rparr>)"

definition addresses_ok :: "u64 \<times> string \<times> string \<times> string \<times> u32 \<Rightarrow> bool" where
  "addresses_ok = (\<lambda>(packet_id, payload, src, dst, port). fromString src \<noteq> None \<and> fromString dst \<noteq> None)"

lemma publish_all_queues:
  "list_all addresses_ok ps \<Longrightarrow> \<not> fc_enabled (fi_config (pp_injector (n_processor w))) \<Longrightarrow>
     length (pp_queue (n_processor w)) + length ps \<le> MAX_QUEUE_SIZE \<Longrightarrow>
     \<exists>w' tss. publish_all daemon_publish ps w = Delivered w' \<and> length tss = length ps \<and>
       n_processor w' = (n_processor w)\<lparr>pp_queue := pp_queue (n_processor w) @ map2 synthetic ps tss\<rparr>"
proof (induction ps arbitrary: w)
  case (Cons q ps)
  obtain n payload src dst port where q: "q = (n, payload, src, dst, port)" by (cases q)
  obtain a b where mac: "fromString src = Some a" "fromString dst = Some b" using Cons.prems(1) by (auto simp: addresses_ok_def q)
  obtain ts e where ms: "nowMs (n_env w) = (ts, e)" by (cases "nowMs (n_env w)")
  let ?m = "\<lparr>m_type = T_PacketRx, m_timestamp_ms = ts, m_payload = P_Packet (synthetic q ts)\<rparr>"
  obtain w1 where w1: "daemon_publish ?m (with_env w e) = Delivered w1"
    "n_processor w1 = (n_processor w)\<lparr>pp_queue := pp_queue (n_processor w) @ [synthetic q ts]\<rparr>"
    using daemon_publish_queues [of "with_env w e" ?m ts "synthetic q ts"] Cons.prems(2,3) by auto
  have "publishSyntheticPacket daemon_publish n payload src dst port w = Delivered w1"
    using w1(1) by (simp add: publishSyntheticPacket_def mac ms synthetic_def q Let_def)
  moreover obtain w' tss where "publish_all daemon_publish ps w1 = Delivered w'" "length tss = length ps"
    "n_processor w' = (n_processor w1)\<lparr>pp_queue := pp_queue (n_processor w1) @ map2 synthetic ps tss\<rparr>"
    using Cons.IH [of w1] Cons.prems w1(2) by auto
  ultimately show ?case
    using w1(2) by (intro exI [of _ w'] exI [of _ "ts # tss"]) (simp add: q)
qed (auto intro!: exI [of _ "[]"])

lemma synthetic_fields:
  "pk_source_mac (synthetic (n, payload, src, dst, port) ts) = fromString src"
  "pk_destination_mac (synthetic (n, payload, src, dst, port) ts) = fromString dst"
  "pk_ingress_port (synthetic (n, payload, src, dst, port) ts) = Some port"
  "pk_timestamp_ms (synthetic (n, payload, src, dst, port) ts) = ts"
  "pk_payload (synthetic (n, payload, src, dst, port) ts) = payload"
  by (simp_all add: synthetic_def)

lemma synthetic_size [simp]:
  "(synthetic (n, payload, src, dst, port) ts)\<lparr>pk_payload_size := of_nat (length payload)\<rparr> = synthetic (n, payload, src, dst, port) ts"
  by (simp add: synthetic_def)

text \<open>The worker hands a packet with an ingress port to the engine and announces the decision.\<close>

lemma process_synthetic:
  assumes "q = synthetic (n, payload, src, dst, port) ts" and "length payload \<le> PROCESSOR_MAX_PAYLOAD_SIZE" and "ts \<noteq> 0"
    and "pp_forwarding_engine proc = Some eng" and "engine_processPacket q port ts eng = (d, eng')"
  shows "\<exists>proc' e'. processPacket q (proc, e) = ((proc', e'), [forwarding_message q d, processed_message q]) \<and>
    pp_forwarding_engine proc' = Some eng'"
proof -
  obtain tm e' where tm: "dispatch_transmit d q (pp_transport_manager proc) e = (tm, e')"
    by (cases "dispatch_transmit d q (pp_transport_manager proc) e")
  show ?thesis
    using assms tm by (simp add: processPacket_def synthetic_fields Let_def)
qed

definition AA :: MacAddress where "AA = the (fromString ''AA:AA:AA:AA:AA:AA'')"

definition BB :: MacAddress where "BB = the (fromString ''BB:BB:BB:BB:BB:BB'')"

lemma demo_addresses:
  "fromString ''AA:AA:AA:AA:AA:AA'' = Some AA" "fromString ''BB:BB:BB:BB:BB:BB'' = Some BB"
  "fromString ''FF:FF:FF:FF:FF:FF'' \<noteq> None" "BB \<noteq> AA" "\<not> isBroadcast AA"
  unfolding AA_def BB_def by code_simp+

lemma mt_size_learn:
  assumes "mt_inv t" and "mt_size t < mt_capacity t"
  shows "mt_size (learn a i tick t) \<le> Suc (mt_size t)"
proof -
  have "mac_view (learn a i tick t) = (mac_view t)(a \<mapsto> (i, tick))"
    using learn_refines [OF assms(1), of a i tick] assms(2) card_mac_view [OF assms(1)]
    by (auto simp: learn_spec_def mt_size_def split: if_splits)
  then have "card (dom (mac_view (learn a i tick t))) \<le> Suc (card (dom (mac_view t)))"
    by (simp add: card_insert_le_m1)
  then show ?thesis
    using card_mac_view [OF assms(1)] card_mac_view [OF mt_inv_learn [OF assms(1)]] by (simp add: mt_size_def)
qed

text \<open>A worker that processes the two packets of the learning sequence one after the other.\<close>

lemma learning_sequence_processed:
  assumes "engine_inv eng" and "mt_size (eng_mac_table eng) + 2 \<le> mt_capacity (eng_mac_table eng)" and "isUp (eng_interfaces eng) 1"
    and "pp_forwarding_engine proc = Some eng"
    and "q1 = synthetic (1000, ''mac-learning'', ''AA:AA:AA:AA:AA:AA'', ''FF:FF:FF:FF:FF:FF'', 1) t1"
    and "q2 = synthetic (1001, ''known-unicast'', ''BB:BB:BB:BB:BB:BB'', ''AA:AA:AA:AA:AA:AA'', 2) t2"
    and "t1 \<noteq> 0" and "t2 \<noteq> 0"
  shows "\<exists>s1 ms1 s2. processPacket q1 (proc, e) = (s1, ms1) \<and>
    processPacket q2 s1 = (s2, [forwarding_message q2 \<lparr>fd_action = ForwardToPorts, fd_egress_ports = [1]\<rparr>, processed_message q2])"
proof -
  obtain d1 eng1 where e1: "engine_processPacket q1 1 t1 eng = (d1, eng1)" by (cases "engine_processPacket q1 1 t1 eng")
  obtain d2 eng2 where e2: "engine_processPacket q2 2 t2 eng1 = (d2, eng2)" by (cases "engine_processPacket q2 2 t2 eng1")
  have mac: "pk_source_mac q1 = Some AA" "pk_destination_mac q1 \<noteq> None" "pk_source_mac q2 = Some BB" "pk_destination_mac q2 = Some AA"
    using demo_addresses by (simp_all add: assms(5,6) synthetic_fields)
  have inv: "mt_inv (eng_mac_table eng)" using assms(1) by (simp add: engine_inv_def)
  have eng1: "eng1 = eng\<lparr>eng_mac_table := learn AA 1 t1 (eng_mac_table eng)\<rparr>"
    using engine_state [of q1 1 t1 eng] e1 mac(1,2) by auto
  have "mt_size (learn AA 1 t1 (eng_mac_table eng)) < mt_capacity (learn AA 1 t1 (eng_mac_table eng))"
    using mt_size_learn [OF inv, of AA 1 t1] assms(2) by (simp add: capacity_learn)
  then have "lookup (learn BB 2 t2 (eng_mac_table eng1)) AA = Some 1"
    using learned_port_survives [OF inv _ demo_addresses(4)] assms(2) by (simp add: eng1)
  then have d2: "d2 = \<lparr>fd_action = ForwardToPorts, fd_egress_ports = [1]\<rparr>"
    using e2 mac(3,4) demo_addresses(5) assms(3) by (auto simp: engine_processPacket_def Let_def eng1)
  obtain proc1 e1' where p1: "processPacket q1 (proc, e) = ((proc1, e1'), [forwarding_message q1 d1, processed_message q1])"
    "pp_forwarding_engine proc1 = Some eng1"
    using process_synthetic [OF assms(5) _ assms(7) assms(4) e1, of e] by (auto simp: PROCESSOR_MAX_PAYLOAD_SIZE_def)
  obtain proc2 e2' where "processPacket q2 (proc1, e1') = ((proc2, e2'), [forwarding_message q2 d2, processed_message q2])"
    using process_synthetic [OF assms(6) _ assms(8) p1(2) e2, of e1'] by (auto simp: PROCESSOR_MAX_PAYLOAD_SIZE_def)
  then show ?thesis using p1(1) d2 by blast
qed

section \<open>Properties\<close>

text \<open>
  \<^bold>\<open>C24\<close> The learning demonstration works end to end: on the wired bus, with fault injection off, room for two packets in the
  queue and a JSON library that raises only on text that is not UTF-8, the command
  \<^verbatim>\<open>send-packet:learn\<close> is answered with success and queues exactly two packets, after the ones already there, changing nothing
  else of the processor; a worker that processes them one after the other, when the clock gave them timestamps other than 0, with
  port 1 up and room for two in the address table, learns \<open>AA\<close> from the first and forwards the second,
  addressed to \<open>AA\<close>, to port 1 alone.
\<close>

theorem send_packet_learn_forwards:
  assumes "strict_dump (cp_dump p)" and "cx_bus ctx = Some daemon_publish"
    and "\<not> fc_enabled (fi_config (pp_injector (n_processor w)))" and "length (pp_queue (n_processor w)) + 2 \<le> 1024"
    and "engine_inv eng" and "mt_size (eng_mac_table eng) + 2 \<le> mt_capacity (eng_mac_table eng)" and "isUp (eng_interfaces eng) 1"
    and "pp_forwarding_engine proc = Some eng"
  shows "\<exists>resp w' q1 q2. handleSendPacket p ctx ''learn'' w = Delivered (resp, w') \<and> rp_success resp \<and>
    n_processor w' = (n_processor w)\<lparr>pp_queue := pp_queue (n_processor w) @ [q1, q2]\<rparr> \<and>
    (pk_timestamp_ms q1 \<noteq> 0 \<and> pk_timestamp_ms q2 \<noteq> 0 \<longrightarrow>
      (\<exists>s1 ms1 s2. processPacket q1 (proc, e) = (s1, ms1) \<and>
        processPacket q2 s1 = (s2, [forwarding_message q2 \<lparr>fd_action = ForwardToPorts, fd_egress_ports = [1]\<rparr>, processed_message q2])))"
proof -
  let ?l1 = "(1000, ''mac-learning'', ''AA:AA:AA:AA:AA:AA'', ''FF:FF:FF:FF:FF:FF'', 1)"
  let ?l2 = "(1001, ''known-unicast'', ''BB:BB:BB:BB:BB:BB'', ''AA:AA:AA:AA:AA:AA'', 2)"
  have ok: "list_all addresses_ok learn_packets" "length learn_packets = 2"
    using demo_addresses by (auto simp: learn_packets_def addresses_ok_def)
  obtain w' tss where pub: "publish_all daemon_publish learn_packets w = Delivered w'" "length tss = 2"
    "n_processor w' = (n_processor w)\<lparr>pp_queue := pp_queue (n_processor w) @ map2 synthetic learn_packets tss\<rparr>"
    using publish_all_queues [OF ok(1) assms(3)] assms(4) unfolding ok(2) MAX_QUEUE_SIZE_def by blast
  then obtain t1 t2 where t: "tss = [t1, t2]" by (auto simp: numeral_2_eq_2 length_Suc_conv)
  define q1 where "q1 = synthetic ?l1 t1"
  define q2 where "q2 = synthetic ?l2 t2"
  have queue: "map2 synthetic learn_packets tss = [q1, q2]" by (simp add: learn_packets_def t q1_def q2_def)
  obtain body where "makeJsonSuccess (cp_dump p) (JObject [(''result'', JString ''mac learning sequence injected'')]) =
      Delivered \<lparr>rp_success = True, rp_payload = body, rp_error_code = [], rp_message = []\<rparr>"
    using makeJsonSuccess_utf8 [OF assms(1), of "JObject [(''result'', JString ''mac learning sequence injected'')]"]
    by (auto simp: utf8_all_ascii)
  then have send: "handleSendPacket p ctx ''learn'' w =
      Delivered (\<lparr>rp_success = True, rp_payload = body, rp_error_code = [], rp_message = []\<rparr>, w')"
    using assms(2) pub(1) by (simp add: handleSendPacket_def answer_with_def)
  have "\<exists>s1 ms1 s2. processPacket q1 (proc, e) = (s1, ms1) \<and>
      processPacket q2 s1 = (s2, [forwarding_message q2 \<lparr>fd_action = ForwardToPorts, fd_egress_ports = [1]\<rparr>, processed_message q2])"
    if "t1 \<noteq> 0" "t2 \<noteq> 0" by (rule learning_sequence_processed [OF assms(5-8) q1_def q2_def that])
  then show ?thesis
    using send pub(3) queue by (intro exI [of _ w'] exI [of _ q1] exI [of _ q2] exI) (auto simp: q1_def q2_def synthetic_fields)
qed

theorem send_packet_learn_forwards_witness:
  "\<exists>resp w' q1 q2. handleSendPacket demo_params demo_context ''learn'' node_demo = Delivered (resp, w') \<and> rp_success resp \<and>
     pp_queue (n_processor w') = [q1, q2]"
proof -
  have node: "pp_queue (n_processor node_demo) = []" "\<not> fc_enabled (fi_config (pp_injector (n_processor node_demo)))"
    "pp_forwarding_engine (n_processor node_demo) = Some demo_engine"
    by (simp_all add: node_demo_def tx_processor_def PacketProcessor_new_def FailureInjector_new_def FailureConfig_default_def)
  have engine: "mt_size (eng_mac_table demo_engine) + 2 \<le> mt_capacity (eng_mac_table demo_engine)" "isUp (eng_interfaces demo_engine) 1"
    by code_simp+
  have "cx_bus demo_context = Some daemon_publish" by (simp add: demo_context_def)
  from send_packet_learn_forwards [OF demo_params_ok(1) this node(2) _ demo_engine_inv engine node(3)] node(1)
  show ?thesis by fastforce
qed

end
