(* ===== verification/Concurrent_Runtime.thy ===== *)
theory Concurrent_Runtime
  imports Runtime_Pipeline
begin

text \<open>
  The threads of the daemon (daemon/main.cpp, packet/PacketProcessor): the event-loop thread that publishes
  received packets (and parse or validation drops), the main thread that publishes telemetry and
  health, and the worker of the processor. A thread runs the subscribers of a message one after the other; a step of
  the system is one subscriber call of one thread, so the subscriber calls of all threads interleave
  arbitrarily. This is the granularity of the locks: every subscriber that changes shared
  state does so under one lock, or changes state that no other thread touches. Two history variables
  record the lifecycle identities that entered and those the statistics have counted. A worker that finds the processor
  stopped and its queue empty ends for good. The bus has all its subscribers from the start: the daemon's own
  callbacks, which \<^verbatim>\<open>main\<close> subscribes just after it has started the event-loop thread, only log packet messages.
\<close>

section \<open>The system\<close>

datatype thread = Ingress | Main | Worker

type_synonym todo = "(handler \<times> Message) list"

record system =
  s_node :: node
  s_todo :: "thread \<Rightarrow> todo"
  s_held :: "Packet option"
  s_ended :: bool
  s_received :: "u64 list"
  s_counted :: "u64 list"

definition option_list :: "'a option \<Rightarrow> 'a list" where
  "option_list v = (case v of None \<Rightarrow> [] | Some x \<Rightarrow> [x])"

lemma option_list_simps [simp]: "option_list None = []" "option_list (Some x) = [x]"
  by (simp_all add: option_list_def)

text \<open>The lifecycle a message starts (a received packet) or ends (a terminal message).\<close>

definition message_ids :: "Message \<Rightarrow> u64 list" where
  "message_ids m =
     (if m_type m = T_PacketRx then option_list (map_option pk_lifecycle_id (get_if_packet (m_payload m)))
      else option_list (terminal_id m))"

definition counted_by :: "handler \<Rightarrow> Message \<Rightarrow> u64 list" where
  "counted_by h m = (if h \<in> {StatsProcessed, StatsDropped, StatsRx, StatsIdle} then option_list (terminal_id m) else [])"

definition publishes :: "thread \<Rightarrow> MessageType set" where
  "publishes t = (case t of
     Ingress \<Rightarrow> {T_PacketRx, T_PacketDropped, T_IngressIdlePoll}
   | Main \<Rightarrow> {SystemStart, SystemShutdown, T_Telemetry, T_HealthStatus}
   | Worker \<Rightarrow> {})"

text \<open>Steps that finish work already in the system.\<close>

inductive internal_step :: "system \<Rightarrow> system \<Rightarrow> bool" where
  run: "s_todo s t = (h, m) # rest \<Longrightarrow> run_handler h m (s_node s) = Inr (w, ms) \<Longrightarrow>
    internal_step s (s\<lparr>s_node := w, s_todo := (s_todo s)(t := concat (map (tasks daemon_bus) ms) @ rest),
      s_counted := s_counted s @ counted_by h m\<rparr>)"
| take: "\<not> s_ended s \<Longrightarrow> s_held s = None \<Longrightarrow> s_todo s Worker = [] \<Longrightarrow> processLoop_step (n_processor (s_node s)) = Took packet p \<Longrightarrow>
    internal_step s (s\<lparr>s_node := (s_node s)\<lparr>n_processor := p\<rparr>, s_held := Some packet\<rparr>)"
| process: "s_held s = Some packet \<Longrightarrow> s_todo s Worker = [] \<Longrightarrow>
    processPacket packet (n_processor (s_node s), n_env (s_node s)) = ((p, e), ms) \<Longrightarrow>
    internal_step s (s\<lparr>s_node := (s_node s)\<lparr>n_processor := p, n_env := e\<rparr>, s_held := None,
      s_todo := (s_todo s)(Worker := concat (map (tasks daemon_bus) ms))\<rparr>)"
| leave: "\<not> s_ended s \<Longrightarrow> s_held s = None \<Longrightarrow> s_todo s Worker = [] \<Longrightarrow> processLoop_step (n_processor (s_node s)) = Stopped \<Longrightarrow>
    internal_step s (s\<lparr>s_ended := True\<rparr>)"

text \<open>Besides, idle threads may publish new messages, and the processor may be told to stop.\<close>

inductive sys_step :: "system \<Rightarrow> system \<Rightarrow> bool" where
  internal: "internal_step s s' \<Longrightarrow> sys_step s s'"
| publish: "s_todo s t = [] \<Longrightarrow> well_typed m \<Longrightarrow> m_type m \<in> publishes t \<Longrightarrow>
    sys_step s (s\<lparr>s_todo := (s_todo s)(t := tasks daemon_bus m), s_received := s_received s @ message_ids m\<rparr>)"
| stop: "sys_step s (s\<lparr>s_node := (s_node s)\<lparr>n_processor := processor_stop (n_processor (s_node s))\<rparr>\<rparr>)"

definition sys_start :: "system \<Rightarrow> bool" where
  "sys_start s \<longleftrightarrow> (\<forall>t. s_todo s t = []) \<and> s_held s = None \<and> \<not> s_ended s \<and> s_received s = [] \<and> s_counted s = [] \<and>
     pp_queue (n_processor (s_node s)) = [] \<and> n_stats (s_node s) = PacketStats_new \<and> export_inv (n_export (s_node s))"

definition quiescent :: "system \<Rightarrow> bool" where
  "quiescent s \<longleftrightarrow> (\<forall>t. s_todo s t = []) \<and> s_held s = None \<and> pp_queue (n_processor (s_node s)) = []"

section \<open>Identities in flight\<close>

definition task_ids :: "handler \<times> Message \<Rightarrow> u64 list" where
  "task_ids x = (if fst x \<in> {ProcessorRx, StatsProcessed, StatsDropped} then message_ids (snd x) else [])"

definition todo_ids :: "todo \<Rightarrow> u64 multiset" where
  "todo_ids ts = mset (concat (map task_ids ts))"

definition threads_ids :: "(thread \<Rightarrow> todo) \<Rightarrow> u64 multiset" where
  "threads_ids f = todo_ids (f Ingress) + todo_ids (f Main) + todo_ids (f Worker)"

definition in_flight :: "system \<Rightarrow> u64 multiset" where
  "in_flight s = threads_ids (s_todo s) +
     mset (map pk_lifecycle_id (pp_queue (n_processor (s_node s)) @ option_list (s_held s)))"

definition good_todo :: "todo \<Rightarrow> bool" where
  "good_todo ts \<longleftrightarrow> (\<forall>x \<in> set ts. from_bus daemon_bus x \<and> well_typed (snd x))"

definition sys_inv :: "system \<Rightarrow> bool" where
  "sys_inv s \<longleftrightarrow>
     node_inv (s_node s) \<and> (\<forall>t. good_todo (s_todo s t)) \<and>
     (s_held s \<noteq> None \<longrightarrow> s_todo s Worker = []) \<and>
     (s_ended s \<longrightarrow> s_held s = None \<and> s_todo s Worker = [] \<and> \<not> pp_running (n_processor (s_node s))) \<and>
     mset (s_received s) = in_flight s + mset (s_counted s) \<and>
     ps_completed_lifecycles (n_stats (s_node s)) = set (s_counted s) \<and>
     ps_terminal_events (n_stats (s_node s)) + ps_duplicate_events (n_stats (s_node s)) = of_nat (length (s_counted s))"

lemma todo_ids_simps [simp]:
  "todo_ids [] = {#}" "todo_ids (x # ts) = mset (task_ids x) + todo_ids ts" "todo_ids (ts @ us) = todo_ids ts + todo_ids us"
  by (simp_all add: todo_ids_def)

lemma threads_ids_upd: "threads_ids (f(t := ts)) + todo_ids (f t) = threads_ids f + todo_ids ts"
  by (cases t) (simp_all add: threads_ids_def)

lemma message_ids_terminal: "m_type m \<noteq> T_PacketRx \<Longrightarrow> message_ids m = option_list (terminal_id m)"
  by (simp add: message_ids_def)

lemma todo_ids_tasks: "todo_ids (tasks daemon_bus m) = mset (message_ids m)"
proof (cases "m_type m \<in> {T_PacketRx, T_PacketProcessed, T_PacketDropped}")
  case True
  then show ?thesis by (auto simp: tasks_def daemon_callbacks task_ids_def)
next
  case False
  then have "message_ids m = []" by (simp add: message_ids_def split: MessageType.split)
  then show ?thesis
    using False by (simp add: tasks_def daemon_callbacks task_ids_def split: MessageType.split)
qed

lemma todo_ids_concat: "todo_ids (concat (map (tasks daemon_bus) ms)) = mset (concat (map message_ids ms))"
  by (induction ms) (simp_all add: todo_ids_tasks)

lemma good_todo_append [simp]: "good_todo (ts @ us) \<longleftrightarrow> good_todo ts \<and> good_todo us"
  by (auto simp: good_todo_def)

lemma good_todo_Cons [simp]:
  "good_todo ((h, m) # ts) \<longleftrightarrow> h \<in> set (callbacks daemon_bus (m_type m)) \<and> well_typed m \<and> good_todo ts"
  by (auto simp: good_todo_def from_bus_def)

lemma good_todo_Nil [simp]: "good_todo []"
  by (simp add: good_todo_def)

lemma good_todo_tasks: "well_typed m \<Longrightarrow> good_todo (tasks daemon_bus m)"
  by (auto simp: good_todo_def tasks_def from_bus_def)

lemma good_todo_concat: "\<forall>m \<in> set ms. well_typed m \<Longrightarrow> good_todo (concat (map (tasks daemon_bus) ms))"
  by (induction ms) (simp_all add: good_todo_tasks)

section \<open>The effect of one subscriber\<close>

lemma stats_total:
  assumes "well_typed m" and "stats_handle m (s, e) = Inr (s', e')"
  shows "ps_completed_lifecycles s' = ps_completed_lifecycles s \<union> set (option_list (terminal_id m))"
    and "ps_terminal_events s' + ps_duplicate_events s' =
      ps_terminal_events s + ps_duplicate_events s + of_nat (length (option_list (terminal_id m)))"
proof -
  obtain F d where F: "F = first_terminals (ps_completed_lifecycles s) [m]" "d = length (terminals [m]) - length F"
    and c: "ps_completed_lifecycles s' = ps_completed_lifecycles s \<union> terminal_ids [m]" "counts_more F d s s'"
    using stats_step [OF assms(1), of s e] assms(2) by auto
  have "terminal_ids [m] = set (option_list (terminal_id m))"
    by (cases "terminal_id m") (simp_all add: terminal_ids_def)
  with c(1) show "ps_completed_lifecycles s' = ps_completed_lifecycles s \<union> set (option_list (terminal_id m))" by simp
  have "length F + d = length (option_list (terminal_id m))"
    using F length_first_terminals [of "ps_completed_lifecycles s" "[m]"]
    by (cases "terminal_id m") (simp_all add: terminals_def)
  then have "of_nat (length F) + of_nat d = (of_nat (length (option_list (terminal_id m))) :: u64)"
    by (metis of_nat_add)
  with c(2) show "ps_terminal_events s' + ps_duplicate_events s' =
      ps_terminal_events s + ps_duplicate_events s + of_nat (length (option_list (terminal_id m)))"
    by (simp add: counts_more_def algebra_simps)
qed

text \<open>
  One call keeps the books: the identity of the task moves to the queue, to a published drop or
  to the statistics.
\<close>

lemma handler_books:
  assumes "h \<in> set (callbacks daemon_bus (m_type m))" and "well_typed m" and "node_inv w"
    and "run_handler h m w = Inr (w', ms)"
  shows "node_inv w' \<and> (\<forall>m' \<in> set ms. well_typed m') \<and>
    mset (map pk_lifecycle_id (pp_queue (n_processor w'))) + mset (concat (map message_ids ms)) + mset (counted_by h m) =
      mset (map pk_lifecycle_id (pp_queue (n_processor w))) + mset (task_ids (h, m)) \<and>
    ps_completed_lifecycles (n_stats w') = ps_completed_lifecycles (n_stats w) \<union> set (counted_by h m) \<and>
    ps_terminal_events (n_stats w') + ps_duplicate_events (n_stats w') =
      ps_terminal_events (n_stats w) + ps_duplicate_events (n_stats w) + of_nat (length (counted_by h m))"
proof -
  have safe: "node_inv w'" "\<forall>m' \<in> set ms. well_typed m'"
    using daemon_handler_safe [OF assms(1-3)] assms(4) by auto
  show ?thesis
    using assms(1,2)
  proof (cases rule: daemon_handler_cases [where w = w])
    case (processor packet p' e' ms')
    then have w': "w' = w\<lparr>n_processor := p', n_env := e'\<rparr>" "ms = ms'" using assms(4) by simp_all
    have id: "task_ids (h, m) = [pk_lifecycle_id packet]" using processor by (simp add: task_ids_def message_ids_def)
    have cb: "counted_by h m = []" using processor by (simp add: counted_by_def)
    from processor(6) show ?thesis
    proof
      assume "ms' = [] \<and> length (pp_queue (n_processor w)) < MAX_QUEUE_SIZE \<and> pp_queue p' = pp_queue (n_processor w) @ [packet]"
      with safe show ?thesis by (simp add: w' id cb)
    next
      assume "pp_queue p' = pp_queue (n_processor w) \<and>
         (\<exists>reason ts. ms' = [drop_message reason ts (pk_id packet) (pk_lifecycle_id packet)])"
      with safe show ?thesis by (auto simp: w' id cb message_ids_def)
    qed
  next
    case (stats s e)
    then have w': "w' = w\<lparr>n_stats := s, n_env := e\<rparr>" "ms = []" using assms(4) by simp_all
    have cb: "counted_by h m = option_list (terminal_id m)" using stats(1) by (simp add: counted_by_def)
    have id: "task_ids (h, m) = option_list (terminal_id m)"
      using stats(1-3) assms(1) by (auto simp: task_ids_def message_ids_def daemon_callback_type)
    show ?thesis using safe stats_total [OF assms(2) stats(4)] by (simp add: w' cb id)
  next
    case (daemon x hm e)
    then have w': "w' = w\<lparr>n_health := hm, n_export := x, n_env := e\<rparr>" "ms = []" using assms(4) by simp_all
    have "counted_by h m = []" "task_ids (h, m) = []" using daemon(1) by (simp_all add: counted_by_def task_ids_def)
    with safe show ?thesis by (simp add: w')
  qed
qed

section \<open>The invariant\<close>

text \<open>Only \<^verbatim>\<open>stop\<close> changes the flag of the processor.\<close>

lemma rx_running: "processor_onPacketRx m (p, e) = ((p', e'), ms) \<Longrightarrow> pp_running p' = pp_running p"
  by (auto simp: processor_onPacketRx_def Let_def split: option.splits if_splits prod.splits)

lemma handler_running: "run_handler h m w = Inr (w', ms) \<Longrightarrow> pp_running (n_processor w') = pp_running (n_processor w)"
  by (cases h) (auto simp: Let_def on_stats_def on_env_def dest: rx_running split: prod.splits sum.splits)

lemma process_running: "processPacket packet (p, e) = ((p', e'), ms) \<Longrightarrow> pp_running p' = pp_running p"
  by (auto simp: processPacket_def Let_def split: option.splits if_splits prod.splits)

lemma internal_running:
  "internal_step s s' \<Longrightarrow> pp_running (n_processor (s_node s')) = pp_running (n_processor (s_node s))"
proof (induction rule: internal_step.induct)
  case (take s packet p)
  then show ?case by (auto simp: processLoop_step_def split: list.splits if_splits)
qed (auto dest: handler_running process_running)

lemma run_inv:
  assumes "sys_inv s" and "s_todo s t = (h, m) # rest" and "run_handler h m (s_node s) = Inr (w, ms)"
  shows "sys_inv (s\<lparr>s_node := w, s_todo := (s_todo s)(t := concat (map (tasks daemon_bus) ms) @ rest),
      s_counted := s_counted s @ counted_by h m\<rparr>)" (is "sys_inv ?s'")
proof -
  let ?w = "s_node s" and ?q = "\<lambda>w. mset (map pk_lifecycle_id (pp_queue (n_processor w)))"
  have g: "h \<in> set (callbacks daemon_bus (m_type m))" "well_typed m" "good_todo rest" "node_inv ?w"
    using assms(1,2) unfolding sys_inv_def by (metis good_todo_Cons)+
  note books = handler_books [OF g(1,2,4) assms(3)]
  have held: "s_held s \<noteq> None \<longrightarrow> t \<noteq> Worker" "s_ended s \<longrightarrow> t \<noteq> Worker" using assms(1,2) by (auto simp: sys_inv_def)
  note running = handler_running [OF assms(3)]
  have upd: "threads_ids (s_todo ?s') + mset (task_ids (h, m)) + todo_ids rest =
      threads_ids (s_todo s) + mset (concat (map message_ids ms)) + todo_ids rest"
    using threads_ids_upd [of "s_todo s" t "concat (map (tasks daemon_bus) ms) @ rest"] assms(2)
    by (simp add: todo_ids_concat ac_simps)
  have "in_flight ?s' + mset (counted_by h m) + mset (task_ids (h, m)) = in_flight s + mset (task_ids (h, m))"
  proof -
    have "in_flight ?s' + mset (counted_by h m) + mset (task_ids (h, m)) =
        threads_ids (s_todo ?s') + mset (task_ids (h, m)) + ?q w + mset (map pk_lifecycle_id (option_list (s_held s))) + mset (counted_by h m)"
      by (simp add: in_flight_def ac_simps)
    also have "\<dots> = threads_ids (s_todo s) + mset (concat (map message_ids ms)) + ?q w
        + mset (map pk_lifecycle_id (option_list (s_held s))) + mset (counted_by h m)"
      using upd by simp
    also have "\<dots> = threads_ids (s_todo s) + (?q w + mset (concat (map message_ids ms)) + mset (counted_by h m))
        + mset (map pk_lifecycle_id (option_list (s_held s)))"
      by (simp add: ac_simps)
    also have "\<dots> = in_flight s + mset (task_ids (h, m))"
      using books by (simp add: in_flight_def ac_simps)
    finally show ?thesis .
  qed
  then have flight: "in_flight ?s' + mset (counted_by h m) = in_flight s" by simp
  have todo: "good_todo (s_todo ?s' t')" for t'
    using assms(1) g(3) good_todo_concat [of ms] books by (simp add: sys_inv_def)
  have "ps_terminal_events (n_stats w) + ps_duplicate_events (n_stats w) = of_nat (length (s_counted ?s'))"
    using books assms(1) by (simp add: sys_inv_def)
  moreover have "mset (s_received ?s') = in_flight ?s' + mset (s_counted ?s')"
    using assms(1) flight by (simp add: sys_inv_def ac_simps)
  ultimately show ?thesis
    using books todo held running assms(1) unfolding sys_inv_def by auto
qed

lemma take_inv:
  assumes "sys_inv s" and "s_held s = None" and "s_todo s Worker = []" and "\<not> s_ended s"
    and "processLoop_step (n_processor (s_node s)) = Took packet p"
  shows "sys_inv (s\<lparr>s_node := (s_node s)\<lparr>n_processor := p\<rparr>, s_held := Some packet\<rparr>)"
proof -
  obtain rest where q: "pp_queue (n_processor (s_node s)) = packet # rest" "p = (n_processor (s_node s))\<lparr>pp_queue := rest\<rparr>"
    using assms(5) by (auto simp: processLoop_step_def split: list.splits if_splits)
  show ?thesis
    using assms(1-4) by (simp add: sys_inv_def in_flight_def q node_inv_def queue_inv_def)
qed

lemma terminal_for_id:
  "is_terminal_for l m \<Longrightarrow> message_ids m = [l]"
  by (auto simp: is_terminal_for_def message_ids_def)

lemma process_inv:
  assumes "sys_inv s" and "s_held s = Some packet" and "s_todo s Worker = []"
    and "processPacket packet (n_processor (s_node s), n_env (s_node s)) = ((p, e), ms)"
  shows "sys_inv (s\<lparr>s_node := (s_node s)\<lparr>n_processor := p, n_env := e\<rparr>, s_held := None,
      s_todo := (s_todo s)(Worker := concat (map (tasks daemon_bus) ms))\<rparr>)"
proof -
  obtain fwd t where ms: "ms = fwd @ [t]" and q: "pp_queue p = pp_queue (n_processor (s_node s))"
    and t: "is_terminal_for (pk_lifecycle_id packet) t" "well_typed t"
    and fwd: "\<forall>m \<in> set fwd. m_type m = T_ForwardingDecisionMade \<and> well_typed m"
    using process_outcome [of packet "n_processor (s_node s)" "n_env (s_node s)"] assms(4) by auto
  have "concat (map message_ids fwd) = []" using fwd by (auto simp: message_ids_def)
  then have "mset (concat (map message_ids ms)) = {#pk_lifecycle_id packet#}"
    using terminal_for_id [OF t(1)] by (simp add: ms)
  then have ids: "threads_ids ((s_todo s)(Worker := concat (map (tasks daemon_bus) ms))) = threads_ids (s_todo s) + {#pk_lifecycle_id packet#}"
    using assms(3) by (simp add: threads_ids_def todo_ids_concat)
  have "\<forall>m \<in> set ms. well_typed m" using t(2) fwd by (auto simp: ms)
  from good_todo_concat [OF this] show ?thesis
    using assms(1,2) by (simp add: sys_inv_def in_flight_def ids q node_inv_def)
qed

lemma leave_inv:
  assumes "sys_inv s" and "s_held s = None" and "s_todo s Worker = []" and "processLoop_step (n_processor (s_node s)) = Stopped"
  shows "sys_inv (s\<lparr>s_ended := True\<rparr>)"
proof -
  have "\<not> pp_running (n_processor (s_node s))"
    using assms(4) by (auto simp: processLoop_step_def split: list.splits if_splits)
  then show ?thesis using assms(1-3) by (simp add: sys_inv_def in_flight_def)
qed

lemma internal_inv: "internal_step s s' \<Longrightarrow> sys_inv s \<Longrightarrow> sys_inv s'"
  by (induction rule: internal_step.induct) (auto intro: run_inv take_inv process_inv leave_inv)

lemma publish_inv:
  assumes "sys_inv s" and "s_todo s t = []" and "well_typed m" and "m_type m \<in> publishes t"
  shows "sys_inv (s\<lparr>s_todo := (s_todo s)(t := tasks daemon_bus m), s_received := s_received s @ message_ids m\<rparr>)"
proof -
  have t: "t \<noteq> Worker" using assms(4) by (auto simp: publishes_def)
  have "threads_ids ((s_todo s)(t := tasks daemon_bus m)) = threads_ids (s_todo s) + mset (message_ids m)"
    using threads_ids_upd [of "s_todo s" t "tasks daemon_bus m"] assms(2) by (simp add: todo_ids_tasks)
  then show ?thesis
    using assms(1,3) t good_todo_tasks [OF assms(3)] by (simp add: sys_inv_def in_flight_def)
qed

lemma sys_step_inv: "sys_step s s' \<Longrightarrow> sys_inv s \<Longrightarrow> sys_inv s'"
proof (induction rule: sys_step.induct)
  case (stop s)
  then show ?case by (simp add: sys_inv_def in_flight_def node_inv_def processor_stop_def)
qed (auto intro: internal_inv publish_inv)

interpretation runtime: transition_system sys_start sys_step sys_inv
proof unfold_locales
  show "sys_start s \<Longrightarrow> sys_inv s" for s
    by (simp add: sys_start_def sys_inv_def node_inv_def queue_inv_def
        stats_inv_new [unfolded PacketStats_new_def] in_flight_def threads_ids_def PacketStats_new_def)
qed (rule sys_step_inv)

section \<open>Progress\<close>

text \<open>A bound on the subscriber calls still needed to finish what is in the system.\<close>

definition task_work :: "handler \<times> Message \<Rightarrow> nat" where
  "task_work x = (if fst x = ProcessorRx then 7 else 1)"

definition todo_work :: "todo \<Rightarrow> nat" where
  "todo_work ts = sum_list (map task_work ts)"

definition work :: "system \<Rightarrow> nat" where
  "work s = todo_work (s_todo s Ingress) + todo_work (s_todo s Main) + todo_work (s_todo s Worker) +
     5 * length (pp_queue (n_processor (s_node s))) + (if s_held s = None then 0 else 4) + (if s_ended s then 0 else 1)"

lemma todo_work_simps [simp]:
  "todo_work [] = 0" "todo_work (x # ts) = task_work x + todo_work ts" "todo_work (ts @ us) = todo_work ts + todo_work us"
  by (simp_all add: todo_work_def)

lemma work_tasks_terminal:
  "m_type m \<noteq> T_PacketRx \<Longrightarrow> todo_work (tasks daemon_bus m) = length (callbacks daemon_bus (m_type m))"
  by (cases "m_type m") (simp_all add: tasks_def daemon_callbacks task_work_def)

lemma handler_work:
  assumes "h \<in> set (callbacks daemon_bus (m_type m))" and "well_typed m" and "run_handler h m w = Inr (w', ms)"
  shows "todo_work (concat (map (tasks daemon_bus) ms)) + 5 * length (pp_queue (n_processor w')) <
    task_work (h, m) + 5 * length (pp_queue (n_processor w))"
  using assms(1,2)
proof (cases rule: daemon_handler_cases [where w = w])
  case (processor packet p' e' ms')
  then show ?thesis using assms(3) by (auto simp: task_work_def work_tasks_terminal daemon_callbacks)
next
  case (stats s e)
  then show ?thesis using assms(3) by (auto simp: task_work_def)
next
  case (daemon x hm e)
  then show ?thesis using assms(3) by (auto simp: task_work_def)
qed

lemma process_work:
  assumes "processPacket packet (p, e) = ((p', e'), ms)"
  shows "todo_work (concat (map (tasks daemon_bus) ms)) \<le> 3 \<and> pp_queue p' = pp_queue p"
proof -
  obtain fwd t where ms: "ms = fwd @ [t]" "length fwd \<le> 1" and q: "pp_queue p' = pp_queue p"
    and t: "is_terminal_for (pk_lifecycle_id packet) t"
    and fwd: "\<forall>m \<in> set fwd. m_type m = T_ForwardingDecisionMade"
    using process_outcome [of packet p e] assms by auto
  have "todo_work (tasks daemon_bus t) \<le> 2"
    using t by (auto simp: is_terminal_for_def work_tasks_terminal daemon_callbacks)
  moreover have "todo_work (concat (map (tasks daemon_bus) fwd)) \<le> 1"
    using ms(2) fwd by (cases fwd) (auto simp: work_tasks_terminal daemon_callbacks)
  ultimately show ?thesis using ms(1) q by simp
qed

lemma internal_work: "internal_step s s' \<Longrightarrow> sys_inv s \<Longrightarrow> work s' < work s"
proof (induction rule: internal_step.induct)
  case (run s t h m rest w ms)
  then have "h \<in> set (callbacks daemon_bus (m_type m))" "well_typed m"
    unfolding sys_inv_def by (metis good_todo_Cons)+
  from handler_work [OF this run.hyps(2)] run.hyps(1) show ?case
    by (cases t) (simp_all add: work_def)
next
  case (take s packet p)
  then show ?case by (auto simp: work_def processLoop_step_def split: list.splits if_splits)
next
  case (process s packet p e ms)
  then show ?case using process_work [OF process.hyps(3)] by (simp add: work_def)
next
  case (leave s)
  then show ?case by (simp add: work_def)
qed

text \<open>Work stops short only of packets queued for a worker that has ended.\<close>

lemma internal_progress:
  assumes "sys_inv s" and "(\<exists>t. s_todo s t \<noteq> []) \<or> s_held s \<noteq> None \<or> pp_queue (n_processor (s_node s)) \<noteq> [] \<and> \<not> s_ended s"
  shows "\<exists>s'. internal_step s s'"
proof (cases "\<exists>t. s_todo s t \<noteq> []")
  case True
  then obtain t h m rest where t: "s_todo s t = (h, m) # rest" by (metis neq_Nil_conv surj_pair)
  then have "h \<in> set (callbacks daemon_bus (m_type m))" "well_typed m" "node_inv (s_node s)"
    using assms(1) unfolding sys_inv_def by (metis good_todo_Cons)+
  then obtain w ms where "run_handler h m (s_node s) = Inr (w, ms)" using daemon_handler_safe by blast
  from internal_step.run [OF t this] show ?thesis by blast
next
  case False
  then have w: "s_todo s Worker = []" by simp
  show ?thesis
  proof (cases "s_held s")
    case None
    then obtain packet rest where q: "pp_queue (n_processor (s_node s)) = packet # rest" "\<not> s_ended s"
      using assms(2) False by (auto simp: neq_Nil_conv)
    then have "processLoop_step (n_processor (s_node s)) = Took packet ((n_processor (s_node s))\<lparr>pp_queue := rest\<rparr>)"
      by (simp add: processLoop_step_def)
    from internal_step.take [OF q(2) None w this] show ?thesis by blast
  next
    case (Some packet)
    obtain p e ms where "processPacket packet (n_processor (s_node s), n_env (s_node s)) = ((p, e), ms)"
      by (metis prod.exhaust)
    from internal_step.process [OF Some w this] show ?thesis by blast
  qed
qed

definition at_rest :: "system \<Rightarrow> bool" where
  "at_rest s \<longleftrightarrow> (\<nexists>u. internal_step s u)"

lemma reaches_rest: "sys_inv s \<Longrightarrow> \<exists>u. internal_step\<^sup>*\<^sup>* s u \<and> at_rest u"
proof (induction "work s" arbitrary: s rule: less_induct)
  case less
  show ?case
  proof (cases "at_rest s")
    case False
    then obtain s1 where s1: "internal_step s s1" by (auto simp: at_rest_def)
    from less.hyps [OF internal_work [OF s1 less.prems] internal_inv [OF s1 less.prems]]
    show ?thesis using s1 by (meson converse_rtranclp_into_rtranclp)
  qed blast
qed

lemma internal_steps_keep:
  assumes "internal_step\<^sup>*\<^sup>* s u" and "sys_inv s"
  shows "sys_inv u \<and> s_received u = s_received s \<and>
    pp_running (n_processor (s_node u)) = pp_running (n_processor (s_node s))"
  using assms(1)
proof (induction rule: rtranclp_induct)
  case (step t u)
  have "s_received u = s_received t" using step(2) by (induction rule: internal_step.induct) simp_all
  then show ?case using step internal_inv internal_running by auto
qed (simp add: assms(2))

lemma rest_quiescent:
  assumes "sys_inv u" and "at_rest u" and "pp_queue (n_processor (s_node u)) = [] \<or> \<not> s_ended u"
  shows "quiescent u"
  using internal_progress [OF assms(1)] assms(2,3) unfolding at_rest_def quiescent_def by blast

lemma reaches_quiescence:
  assumes "sys_inv s" and "pp_running (n_processor (s_node s))"
  shows "\<exists>u. internal_step\<^sup>*\<^sup>* s u \<and> quiescent u \<and> s_received u = s_received s"
proof -
  obtain u where u: "internal_step\<^sup>*\<^sup>* s u" "at_rest u" using reaches_rest assms(1) by blast
  note k = internal_steps_keep [OF u(1) assms(1)]
  then have "\<not> s_ended u" using assms(2) by (auto simp: sys_inv_def)
  then show ?thesis using rest_quiescent u k by blast
qed

text \<open>After the last packet was handed over: a worker that has ended left nothing behind.\<close>

definition handed_over :: "system \<Rightarrow> bool" where
  "handed_over s \<longleftrightarrow> (\<forall>t. ProcessorRx \<notin> fst ` set (s_todo s t)) \<and> (s_ended s \<longrightarrow> pp_queue (n_processor (s_node s)) = [])"

lemma tasks_no_rx: "\<forall>m \<in> set ms. m_type m \<noteq> T_PacketRx \<Longrightarrow> ProcessorRx \<notin> fst ` set (concat (map (tasks daemon_bus) ms))"
  by (auto simp: tasks_def daemon_callback_type)

lemma internal_handed_over:
  assumes "internal_step s u" and "sys_inv s" and "handed_over s"
  shows "handed_over u"
  using assms
proof (cases rule: internal_step.cases)
  case (run t h m rest w ms)
  then have "h \<in> set (callbacks daemon_bus (m_type m))" "well_typed m"
    using assms(2) unfolding sys_inv_def by (metis good_todo_Cons)+
  moreover have "(h, m) \<in> set (s_todo s t)" using run(2) by simp
  then have "h \<noteq> ProcessorRx" using assms(3) by (force simp: handed_over_def)
  ultimately have "ms = [] \<and> pp_queue (n_processor w) = pp_queue (n_processor (s_node s))"
    using run(3) by (cases rule: daemon_handler_cases [where w = "s_node s"]) auto
  moreover have "ProcessorRx \<notin> fst ` set (s_todo s t)" using assms(3) by (simp add: handed_over_def)
  then have "ProcessorRx \<notin> fst ` set rest" by (simp add: run(2))
  ultimately show ?thesis using run(1) assms(3) by (simp add: handed_over_def)
next
  case (process packet p e ms)
  have "\<forall>m \<in> set ms. m_type m \<noteq> T_PacketRx"
    using process_outcome [of packet "n_processor (s_node s)" "n_env (s_node s)"] process(4) by (auto simp: is_terminal_for_def)
  from tasks_no_rx [OF this] show ?thesis
    using process(1,2) assms(2,3) by (auto simp: handed_over_def sys_inv_def)
next
  case leave
  then show ?thesis using assms(3) by (auto simp: handed_over_def processLoop_step_def split: list.splits if_splits)
qed (auto simp: handed_over_def)

lemma internal_steps_handed_over:
  assumes "internal_step\<^sup>*\<^sup>* s u" and "sys_inv s" and "handed_over s"
  shows "handed_over u"
  using assms(1)
proof (induction rule: rtranclp_induct)
  case (step t u)
  then show ?case using internal_handed_over internal_steps_keep [OF step(1) assms(2)] by blast
qed (rule assms(3))

lemma no_infinite_internal: "sys_inv (f 0) \<Longrightarrow> \<not> (\<forall>i. internal_step (f i) (f (Suc i)))"
proof
  assume inv: "sys_inv (f 0)" and steps: "\<forall>i. internal_step (f i) (f (Suc i))"
  have "sys_inv (f i) \<and> work (f i) + i \<le> work (f 0)" for i
  proof (induction i)
    case (Suc i)
    have "internal_step (f i) (f (Suc i))" using steps by blast
    with Suc have "sys_inv (f (Suc i))" "work (f (Suc i)) < work (f i)" using internal_inv internal_work by blast+
    with Suc show ?case by simp
  qed (simp add: inv)
  from this [of "Suc (work (f 0))"] show False by simp
qed

section \<open>Properties\<close>

text \<open>
  \<^bold>\<open>C1\<close> No packet is lost or counted twice, under any scheduling of the threads: in every reachable state the
  queue is within its bound, and the identities received are exactly those in flight (waiting in a thread, queued
  or being processed) and those the statistics have counted, each as often as it was received.
  When nothing is in flight, every received identity is completed, terminal plus duplicate events equal
  the number of received packets, and terminal events equal processed packets plus drops; if all identities
  are distinct there is no duplicate.
\<close>

theorem no_packet_lost:
  assumes "sys_start s" and "sys_step\<^sup>*\<^sup>* s t" and "st = n_stats (s_node t)"
  shows "length (pp_queue (n_processor (s_node t))) \<le> 1024 \<and>
    mset (s_received t) = in_flight t + mset (s_counted t) \<and>
    ps_completed_lifecycles st = set (s_counted t) \<and>
    ps_terminal_events st = ps_processed_packets st + drop_total st \<and>
    (quiescent t \<longrightarrow>
       ps_completed_lifecycles st = set (s_received t) \<and>
       ps_terminal_events st = of_nat (card (set (s_received t))) \<and>
       ps_terminal_events st + ps_duplicate_events st = of_nat (length (s_received t)) \<and>
       (distinct (s_received t) \<longrightarrow> ps_duplicate_events st = 0))"
proof -
  have inv: "sys_inv t" by (rule runtime.reachable_invariant [OF assms(1,2)])
  then have bal: "ps_terminal_events st = ps_processed_packets st + drop_total st"
    "ps_terminal_events st = of_nat (card (ps_completed_lifecycles st))"
    unfolding sys_inv_def node_inv_def stats_inv_def assms(3) by blast+
  have q: "length (pp_queue (n_processor (s_node t))) \<le> 1024"
    using inv by (simp add: sys_inv_def node_inv_def queue_inv_def MAX_QUEUE_SIZE_def)
  have parts: "mset (s_received t) = in_flight t + mset (s_counted t)" "ps_completed_lifecycles st = set (s_counted t)"
    "ps_terminal_events st + ps_duplicate_events st = of_nat (length (s_counted t))"
    using inv by (simp_all add: sys_inv_def assms(3))
  have quiet: "set (s_counted t) = set (s_received t) \<and> length (s_counted t) = length (s_received t)" if "quiescent t"
  proof -
    have "mset (s_received t) = mset (s_counted t)"
      using that parts(1) by (simp add: quiescent_def in_flight_def threads_ids_def)
    then show ?thesis by (metis set_mset_mset size_mset)
  qed
  have "ps_duplicate_events st = 0" if "quiescent t" "distinct (s_received t)"
    using quiet [OF that(1)] bal(2) parts(2,3) distinct_card [OF that(2)] by simp
  then show ?thesis using q bal parts quiet by (auto simp: bal(1) [symmetric])
qed

text \<open>
  \<^bold>\<open>C2\<close> Everything received gets its outcome. From every reachable state, whatever the schedule: without new input
  there is no infinite run; and wherever the runs come to rest, the received identities are those the statistics
  have completed and those of packets in the queue, which are there only if the worker had ended before. So, if the
  processor has not been stopped, all identities are completed; and if it has, they are so as well
  when no thread has a packet to hand to the processor any more and a worker that has ended left no packet behind, which is the
  order of the daemon's shutdown: the event-loop thread is joined first.
\<close>

theorem every_packet_gets_outcome:
  assumes "sys_start s" and "sys_step\<^sup>*\<^sup>* s t"
  shows "(\<forall>f. f 0 = t \<longrightarrow> \<not> (\<forall>i. internal_step (f i) (f (Suc i)))) \<and>
    (\<exists>u. internal_step\<^sup>*\<^sup>* t u \<and> at_rest u) \<and>
    (\<forall>u. internal_step\<^sup>*\<^sup>* t u \<and> at_rest u \<longrightarrow>
       (let st = n_stats (s_node u); queue = pp_queue (n_processor (s_node u)) in
        mset (s_received t) = mset (s_counted u) + mset (map pk_lifecycle_id queue) \<and>
        ps_completed_lifecycles st = set (s_counted u) \<and> (queue \<noteq> [] \<longrightarrow> s_ended u) \<and>
        (pp_running (n_processor (s_node t)) \<or> handed_over t \<longrightarrow>
           quiescent u \<and> ps_completed_lifecycles st = set (s_received t))))"
proof -
  have inv: "sys_inv t" by (rule runtime.reachable_invariant [OF assms])
  have rest: "let st = n_stats (s_node u); queue = pp_queue (n_processor (s_node u)) in
        mset (s_received t) = mset (s_counted u) + mset (map pk_lifecycle_id queue) \<and>
        ps_completed_lifecycles st = set (s_counted u) \<and> (queue \<noteq> [] \<longrightarrow> s_ended u) \<and>
        (pp_running (n_processor (s_node t)) \<or> handed_over t \<longrightarrow> quiescent u \<and> ps_completed_lifecycles st = set (s_received t))"
    if "internal_step\<^sup>*\<^sup>* t u" "at_rest u" for u
  proof -
    note k = internal_steps_keep [OF that(1) inv]
    have idle: "\<forall>th. s_todo u th = []" "s_held u = None" "pp_queue (n_processor (s_node u)) \<noteq> [] \<longrightarrow> s_ended u"
      using internal_progress k that(2) unfolding at_rest_def by blast+
    have u: "mset (s_received u) = mset (s_counted u) + mset (map pk_lifecycle_id (pp_queue (n_processor (s_node u))))"
      "ps_completed_lifecycles (n_stats (s_node u)) = set (s_counted u)"
      using conjunct1 [OF k] idle by (simp_all add: sys_inv_def in_flight_def threads_ids_def add.commute)
    have rec: "s_received u = s_received t" using k by blast
    have quiet: "quiescent u" if "pp_running (n_processor (s_node t)) \<or> handed_over t"
    proof -
      have "pp_queue (n_processor (s_node u)) = [] \<or> \<not> s_ended u"
        using that k internal_steps_handed_over [OF \<open>internal_step\<^sup>*\<^sup>* t u\<close> inv] by (auto simp: sys_inv_def handed_over_def)
      then show ?thesis using rest_quiescent k \<open>at_rest u\<close> by blast
    qed
    have "set (s_counted u) = set (s_received t)" if "quiescent u"
      using u(1) that unfolding rec by (metis add.right_neutral list.simps(8) mset.simps(1) quiescent_def set_mset_mset)
    then show ?thesis using u idle(3) quiet unfolding rec by (simp add: Let_def)
  qed
  show ?thesis using reaches_rest [OF inv] no_infinite_internal inv rest by blast
qed

definition sys_demo :: system where
  "sys_demo = \<lparr>s_node = node_demo, s_todo = (\<lambda>_. []), s_held = None, s_ended = False, s_received = [], s_counted = []\<rparr>"

definition rx_demo :: Message where
  "rx_demo = \<lparr>m_type = T_PacketRx, m_timestamp_ms = 5, m_payload = P_Packet tx_packet\<rparr>"

lemma sys_demo_start: "sys_start sys_demo"
  using node_demo_inv
  by (simp add: sys_start_def sys_demo_def node_demo_def tx_processor_def PacketProcessor_new_def node_inv_def)

lemma sys_demo_step:
  "sys_step sys_demo (sys_demo\<lparr>s_todo := (s_todo sys_demo)(Ingress := tasks daemon_bus rx_demo), s_received := [0]\<rparr>)"
  using sys_step.publish [of sys_demo Ingress rx_demo]
  by (simp add: sys_demo_def rx_demo_def publishes_def well_typed_def message_ids_def tx_packet_def demo_packet_def
      Packet_default_def)

theorem no_packet_lost_witness:
  "\<exists>t. sys_step\<^sup>*\<^sup>* sys_demo t \<and> s_received t = [0] \<and> mset [0] = in_flight t + mset (s_counted t)"
proof -
  let ?t = "sys_demo\<lparr>s_todo := (s_todo sys_demo)(Ingress := tasks daemon_bus rx_demo), s_received := [0]\<rparr>"
  have "sys_step\<^sup>*\<^sup>* sys_demo ?t" using sys_demo_step by (rule r_into_rtranclp)
  moreover from no_packet_lost [OF sys_demo_start this refl]
  have "mset [0] = in_flight ?t + mset (s_counted ?t)" by simp
  ultimately show ?thesis by (intro exI [of _ ?t]) simp
qed

theorem every_packet_gets_outcome_witness:
  "\<exists>t u. sys_step\<^sup>*\<^sup>* sys_demo t \<and> s_received t = [0] \<and> internal_step\<^sup>*\<^sup>* t u \<and> quiescent u \<and>
     ps_completed_lifecycles (n_stats (s_node u)) = {0}"
proof -
  let ?t = "sys_demo\<lparr>s_todo := (s_todo sys_demo)(Ingress := tasks daemon_bus rx_demo), s_received := [0]\<rparr>"
  have r: "sys_step\<^sup>*\<^sup>* sys_demo ?t" using sys_demo_step by (rule r_into_rtranclp)
  have run: "pp_running (n_processor (s_node ?t))"
    by (simp add: sys_demo_def node_demo_def tx_processor_def PacketProcessor_new_def)
  note outcome = every_packet_gets_outcome [OF sys_demo_start r]
  from outcome obtain u where "internal_step\<^sup>*\<^sup>* ?t u" "at_rest u" by blast
  moreover from this have "quiescent u \<and> ps_completed_lifecycles (n_stats (s_node u)) = set (s_received ?t)"
    using outcome run unfolding Let_def by blast
  ultimately show ?thesis using r by (intro exI [of _ ?t] exI [of _ u]) simp
qed

end
