(* ===== verification/Replay_Runtime.thy ===== *)
theory Replay_Runtime
  imports Concurrent_Runtime
begin

text \<open>
  Replaying recorded traffic through the runtime (replay/, docs/runtime/replay-determinism.md and the wiring of
  tests/replay_outcome_equivalence_tests.cpp): statistics, recorder, outcome collector and processor on
  one bus, a thread that publishes received or replayed packets, and the worker of the processor. A move of a thread
  is one subscriber call, one publication or one step of the worker's loop; a call of the collector is two moves, as it
  draws its sequence number before it takes the lock to store the outcome (only one thread calls the recorder); \<open>replay_move\<close> executes it, and a run is
  any interleaving of moves. The history of a run is what the documentation calls the terminal observable history:
  the outcomes in the order the collector stored them. The invariant says that it is an interleaving of what two
  sequences, determined by the packets received so far and the failure policy, have brought about so far.
\<close>

section \<open>The system\<close>

text \<open>The subscriptions in the order of the constructors; only the original run has a recorder.\<close>

definition recorder_subscriptions :: "(MessageType \<times> handler) list" where
  "recorder_subscriptions = [(T_PacketRx, RecorderRx)]"

definition collector_subscriptions :: "(MessageType \<times> handler) list" where
  "collector_subscriptions = [(T_PacketProcessed, CollectorProcessed), (T_PacketDropped, CollectorDropped)]"

definition replay_bus :: "bool \<Rightarrow> handler bus" where
  "replay_bus recording = wire (stats_subscriptions @ (if recording then recorder_subscriptions else []) @
     collector_subscriptions @ processor_subscriptions)"

record replay_run =
  rp_node :: node
  rp_ingress :: todo
  rp_worker :: todo
  rp_ingress_drawn :: "ReplayOutcome option"
  rp_worker_drawn :: "ReplayOutcome option"
  rp_held :: "Packet option"
  rp_input :: "Message list"

text \<open>The collector's callbacks up to the lock: the outcome with its number, if the payload is the expected one.\<close>

definition collector_draw :: "handler \<Rightarrow> Message \<Rightarrow> ReplayOutcomeCollector \<Rightarrow> (ReplayOutcome \<times> ReplayOutcomeCollector) option" where
  "collector_draw h m c =
     (let (seq, c') = collector_ticket c in
      if h = CollectorProcessed
      then map_option (\<lambda>p. (\<lparr>ro_sequence = seq, ro_type = OutcomeProcessed, ro_lifecycle_id = pk_lifecycle_id p,
                             ro_drop_reason = Unknown\<rparr>, c')) (get_if_packet (m_payload m))
      else if h = CollectorDropped
      then map_option (\<lambda>d. (\<lparr>ro_sequence = seq, ro_type = OutcomeDropped, ro_lifecycle_id = pd_lifecycle_id d,
                             ro_drop_reason = pd_reason d\<rparr>, c')) (get_if_dropped (m_payload m))
      else None)"

lemma collector_draw_push:
  "collector_onPacketProcessed m c =
     (case collector_draw CollectorProcessed m c of None \<Rightarrow> c | Some (outcome, c') \<Rightarrow> collector_push outcome c')"
  "collector_onPacketDropped m c =
     (case collector_draw CollectorDropped m c of None \<Rightarrow> c | Some (outcome, c') \<Rightarrow> collector_push outcome c')"
  by (simp_all add: collector_onPacketProcessed_def collector_onPacketDropped_def recordProcessed_def recordDropped_def
      collector_draw_def collector_ticket_def Let_def split: option.split)

text \<open>A move of a thread whose next subscriber call is \<open>h\<close> on \<open>m\<close>.\<close>

definition call_move ::
  "handler bus \<Rightarrow> handler \<Rightarrow> Message \<Rightarrow> todo \<Rightarrow> ReplayOutcome option \<Rightarrow> node \<Rightarrow> (node \<times> todo \<times> ReplayOutcome option) option" where
  "call_move bus h m rest drawn w =
     (case drawn of
        Some outcome \<Rightarrow> Some (w\<lparr>n_collector := collector_push outcome (n_collector w)\<rparr>, rest, None)
      | None \<Rightarrow>
          (case collector_draw h m (n_collector w) of
             Some (outcome, c) \<Rightarrow> Some (w\<lparr>n_collector := c\<rparr>, (h, m) # rest, Some outcome)
           | None \<Rightarrow>
               (case run_handler h m w of
                  Inl ex \<Rightarrow> None
                | Inr (w', ms) \<Rightarrow> Some (w', concat (map (tasks bus) ms) @ rest, None))))"

definition ingress_move :: "bool \<Rightarrow> replay_run \<Rightarrow> replay_run option" where
  "ingress_move recording s =
     (case rp_ingress s of
        (h, m) # rest \<Rightarrow>
          map_option (\<lambda>(w, ts, drawn). s\<lparr>rp_node := w, rp_ingress := ts, rp_ingress_drawn := drawn\<rparr>)
            (call_move (replay_bus recording) h m rest (rp_ingress_drawn s) (rp_node s))
      | [] \<Rightarrow> (case rp_input s of
                 [] \<Rightarrow> None
               | m # ms \<Rightarrow> Some (s\<lparr>rp_ingress := tasks (replay_bus recording) m, rp_input := ms\<rparr>)))"

definition worker_move :: "bool \<Rightarrow> replay_run \<Rightarrow> replay_run option" where
  "worker_move recording s =
     (case rp_worker s of
        (h, m) # rest \<Rightarrow>
          map_option (\<lambda>(w, ts, drawn). s\<lparr>rp_node := w, rp_worker := ts, rp_worker_drawn := drawn\<rparr>)
            (call_move (replay_bus recording) h m rest (rp_worker_drawn s) (rp_node s))
      | [] \<Rightarrow>
          (case rp_held s of
             Some packet \<Rightarrow>
               (let ((p, e), ms) = processPacket packet (n_processor (rp_node s), n_env (rp_node s))
                in Some (s\<lparr>rp_node := (rp_node s)\<lparr>n_processor := p, n_env := e\<rparr>, rp_held := None,
                           rp_worker := concat (map (tasks (replay_bus recording)) ms)\<rparr>))
           | None \<Rightarrow>
               (case processLoop_step (n_processor (rp_node s)) of
                  Took packet p \<Rightarrow> Some (s\<lparr>rp_node := (rp_node s)\<lparr>n_processor := p\<rparr>, rp_held := Some packet\<rparr>)
                | _ \<Rightarrow> None)))"

definition replay_move :: "bool \<Rightarrow> thread \<Rightarrow> replay_run \<Rightarrow> replay_run option" where
  "replay_move recording t s =
     (case t of Ingress \<Rightarrow> ingress_move recording s | Worker \<Rightarrow> worker_move recording s | Main \<Rightarrow> None)"

definition replay_step :: "bool \<Rightarrow> replay_run \<Rightarrow> replay_run \<Rightarrow> bool" where
  "replay_step recording s s' \<longleftrightarrow> (\<exists>t. replay_move recording t s = Some s')"

text \<open>A run to its end: no thread can move.\<close>

definition replay_ends :: "bool \<Rightarrow> replay_run \<Rightarrow> bool" where
  "replay_ends recording s \<longleftrightarrow> ingress_move recording s = None \<and> worker_move recording s = None"

definition replay_start :: "FailureInjector \<Rightarrow> Message list \<Rightarrow> replay_run \<Rightarrow> bool" where
  "replay_start fi msgs s \<longleftrightarrow> rp_ingress s = [] \<and> rp_worker s = [] \<and> rp_ingress_drawn s = None \<and> rp_worker_drawn s = None \<and>
     rp_held s = None \<and> rp_input s = msgs \<and>
     pp_queue (n_processor (rp_node s)) = [] \<and> pp_injector (n_processor (rp_node s)) = fi \<and>
     n_recorder (rp_node s) = ReplayRecorder_new \<and> n_collector (rp_node s) = ReplayOutcomeCollector_new"

definition rx_messages :: "Message list \<Rightarrow> bool" where
  "rx_messages msgs \<longleftrightarrow> (\<forall>m \<in> set msgs. well_typed m \<and> m_type m = T_PacketRx)"

text \<open>Streams so short that the queue never refuses a packet.\<close>

definition rx_stream :: "Message list \<Rightarrow> bool" where
  "rx_stream msgs \<longleftrightarrow> (\<forall>m \<in> set msgs. well_typed m \<and> m_type m = T_PacketRx) \<and> length msgs \<le> MAX_QUEUE_SIZE"

lemma rx_streamI: "rx_messages msgs \<Longrightarrow> length msgs \<le> 1024 \<Longrightarrow> rx_stream msgs"
  by (simp add: rx_messages_def rx_stream_def MAX_QUEUE_SIZE_def)

text \<open>A given order of moves, a blocked thread being passed over.\<close>

definition replay_schedule :: "bool \<Rightarrow> thread list \<Rightarrow> replay_run \<Rightarrow> replay_run" where
  "replay_schedule recording ts s =
     fold (\<lambda>t s. case replay_move recording t s of None \<Rightarrow> s | Some s' \<Rightarrow> s') ts s"

section \<open>The outcomes that policy and packets determine\<close>

type_synonym outcome_key = "ReplayOutcomeType \<times> u64 \<times> PacketDropReason"

definition outcome_key :: "ReplayOutcome \<Rightarrow> outcome_key" where
  "outcome_key outcome = (ro_type outcome, ro_lifecycle_id outcome, ro_drop_reason outcome)"

definition history :: "replay_run \<Rightarrow> outcome_key list" where
  "history s = map outcome_key (col_outcomes (n_collector (rp_node s)))"

text \<open>What the worker makes of a packet, and what the fault injector makes of a stream.\<close>

definition worked :: "Packet \<Rightarrow> outcome_key" where
  "worked p = (if length (pk_payload p) > PROCESSOR_MAX_PAYLOAD_SIZE \<or> pk_timestamp_ms p = 0
     then (OutcomeDropped, pk_lifecycle_id p, ValidationError)
     else (OutcomeProcessed, pk_lifecycle_id p, Unknown))"

definition fault :: "Packet \<Rightarrow> FailureResult \<Rightarrow> outcome_key" where
  "fault p f = (OutcomeDropped, pk_lifecycle_id p, injected_reason (fr_type f))"

fun faults :: "FailureInjector \<Rightarrow> Packet list \<Rightarrow> outcome_key list" where
  "faults fi [] = []"
| "faults fi (p # ps) =
     (if fr_is_terminal (fst (inject p fi)) then [fault p (fst (inject p fi))] else []) @ faults (snd (inject p fi)) ps"

fun passed :: "FailureInjector \<Rightarrow> Packet list \<Rightarrow> Packet list" where
  "passed fi [] = []"
| "passed fi (p # ps) = (if fr_is_terminal (fst (inject p fi)) then [] else [p]) @ passed (snd (inject p fi)) ps"

fun injector_after :: "FailureInjector \<Rightarrow> Packet list \<Rightarrow> FailureInjector" where
  "injector_after fi [] = fi"
| "injector_after fi (p # ps) = injector_after (snd (inject p fi)) ps"

fun verdicts :: "FailureInjector \<Rightarrow> Packet list \<Rightarrow> outcome_key list" where
  "verdicts fi [] = []"
| "verdicts fi (p # ps) =
     (if fr_is_terminal (fst (inject p fi)) then fault p (fst (inject p fi)) else worked p) # verdicts (snd (inject p fi)) ps"

lemma faults_snoc: "faults fi (ps @ [p]) = faults fi ps @
    (let f = fst (inject p (injector_after fi ps)) in if fr_is_terminal f then [fault p f] else [])"
  by (induction ps arbitrary: fi) (simp_all add: Let_def)

lemma passed_snoc: "passed fi (ps @ [p]) = passed fi ps @
    (if fr_is_terminal (fst (inject p (injector_after fi ps))) then [] else [p])"
  by (induction ps arbitrary: fi) simp_all

lemma injector_after_snoc: "injector_after fi (ps @ [p]) = snd (inject p (injector_after fi ps))"
  by (induction ps arbitrary: fi) simp_all

lemma length_passed: "length (passed fi ps) \<le> length ps"
  by (induction ps arbitrary: fi) (simp_all add: le_SucI)

lemma length_verdicts [simp]: "length (verdicts fi ps) = length ps"
  by (induction ps arbitrary: fi) simp_all

text \<open>The outcomes in packet order are one of the interleavings.\<close>

lemma verdicts_shuffle: "verdicts fi ps \<in> shuffles (faults fi ps) (map worked (passed fi ps))"
  by (induction ps arbitrary: fi) (auto intro: Cons_in_shuffles_leftI Cons_in_shuffles_rightI)

subsection \<open>Interleavings\<close>

lemma snoc_shuffles_right: "xs \<in> shuffles as bs \<Longrightarrow> xs @ [b] \<in> shuffles as (bs @ [b])"
proof (induction as bs arbitrary: xs rule: shuffles.induct)
  case (2 as)
  then show ?case by (induction as arbitrary: xs) auto
qed auto

lemma snoc_shuffles_left: "xs \<in> shuffles as bs \<Longrightarrow> xs @ [a] \<in> shuffles (as @ [a]) bs"
  using snoc_shuffles_right [of xs bs as a] by (simp add: shuffles_commutes)

lemma mset_shuffles: "xs \<in> shuffles as bs \<Longrightarrow> mset xs = mset as + mset bs"
  by (induction as bs arbitrary: xs rule: shuffles.induct) auto

section \<open>What is under way in a thread\<close>

definition task_keys :: "handler \<times> Message \<Rightarrow> outcome_key list" where
  "task_keys x =
     (if fst x = CollectorProcessed
      then map (\<lambda>p. (OutcomeProcessed, pk_lifecycle_id p, Unknown)) (option_list (get_if_packet (m_payload (snd x))))
      else if fst x = CollectorDropped
      then map (\<lambda>d. (OutcomeDropped, pd_lifecycle_id d, pd_reason d)) (option_list (get_if_dropped (m_payload (snd x))))
      else [])"

definition todo_keys :: "todo \<Rightarrow> outcome_key list" where
  "todo_keys ts = concat (map task_keys ts)"

definition todo_rx :: "handler \<Rightarrow> todo \<Rightarrow> Packet list" where
  "todo_rx h ts = concat (map (\<lambda>x. if fst x = h then option_list (get_if_packet (m_payload (snd x))) else []) ts)"

lemma todo_simps [simp]:
  "todo_keys [] = []" "todo_keys (x # ts) = task_keys x @ todo_keys ts" "todo_keys (ts @ us) = todo_keys ts @ todo_keys us"
  "todo_rx h [] = []" "todo_rx h (ts @ us) = todo_rx h ts @ todo_rx h us"
  "todo_rx h (x # ts) = (if fst x = h then option_list (get_if_packet (m_payload (snd x))) else []) @ todo_rx h ts"
  by (simp_all add: todo_keys_def todo_rx_def)

lemma replay_callbacks:
  "callbacks (replay_bus b) t =
     (case t of
        T_PacketRx \<Rightarrow> StatsRx # (if b then [RecorderRx] else []) @ [ProcessorRx]
      | T_PacketProcessed \<Rightarrow> [StatsProcessed, CollectorProcessed]
      | T_PacketDropped \<Rightarrow> [StatsDropped, CollectorDropped]
      | T_IngressIdlePoll \<Rightarrow> [StatsIdle]
      | _ \<Rightarrow> [])"
  by (cases t) (simp_all add: replay_bus_def wire_def callbacks_wire stats_subscriptions_def
      recorder_subscriptions_def collector_subscriptions_def processor_subscriptions_def)

lemma rx_tasks:
  assumes "m_type m = T_PacketRx" and "get_if_packet (m_payload m) = Some p"
  shows "todo_keys (tasks (replay_bus b) m) = []" and "todo_rx ProcessorRx (tasks (replay_bus b) m) = [p]"
    and "todo_rx RecorderRx (tasks (replay_bus b) m) = (if b then [p] else [])"
  using assms by (simp_all add: tasks_def replay_callbacks task_keys_def)

lemma drop_tasks:
  "todo_keys (tasks (replay_bus b) (drop_message r ts i l)) = [(OutcomeDropped, l, r)]"
  "todo_rx ProcessorRx (tasks (replay_bus b) (drop_message r ts i l)) = []"
  "todo_rx RecorderRx (tasks (replay_bus b) (drop_message r ts i l)) = []"
  by (simp_all add: tasks_def replay_callbacks task_keys_def)

lemma processed_tasks:
  "todo_keys (tasks (replay_bus b) (processed_message p)) = [(OutcomeProcessed, pk_lifecycle_id p, Unknown)]"
  by (simp add: tasks_def replay_callbacks task_keys_def processed_message_def)

lemma forwarding_tasks: "tasks (replay_bus b) (forwarding_message p d) = []"
  by (simp add: tasks_def replay_callbacks forwarding_message_def)

definition replay_todo :: "bool \<Rightarrow> todo \<Rightarrow> bool" where
  "replay_todo b ts \<longleftrightarrow> (\<forall>x \<in> set ts. from_bus (replay_bus b) x \<and> well_typed (snd x))"

lemma replay_todo_simps [simp]:
  "replay_todo b []" "replay_todo b (ts @ us) \<longleftrightarrow> replay_todo b ts \<and> replay_todo b us"
  "replay_todo b ((h, m) # ts) \<longleftrightarrow> h \<in> set (callbacks (replay_bus b) (m_type m)) \<and> well_typed m \<and> replay_todo b ts"
  by (auto simp: replay_todo_def from_bus_def)

lemma replay_todo_tasks: "well_typed m \<Longrightarrow> replay_todo b (tasks (replay_bus b) m)"
  by (auto simp: replay_todo_def tasks_def from_bus_def)

lemma replay_callback_type:
  "h \<in> set (callbacks (replay_bus b) t) \<Longrightarrow> t = handler_type h \<and> (h = RecorderRx \<longrightarrow> b) \<and>
     h \<in> {ProcessorRx, StatsProcessed, StatsDropped, StatsRx, StatsIdle, RecorderRx, CollectorProcessed, CollectorDropped}"
  by (cases t) (auto simp: replay_callbacks split: if_splits)

section \<open>The effect of one call\<close>

text \<open>Reception below the capacity of the queue: the fault injector alone decides.\<close>

lemma rx_verdict:
  assumes "get_if_packet (m_payload m) = Some packet" and "length (pp_queue p) < MAX_QUEUE_SIZE"
  shows "\<exists>e' ts. processor_onPacketRx m (p, e) =
    ((p\<lparr>pp_injector := snd (inject packet (pp_injector p)),
        pp_queue := pp_queue p @ (if fr_is_terminal (fst (inject packet (pp_injector p))) then [] else [packet])\<rparr>, e'),
     if fr_is_terminal (fst (inject packet (pp_injector p)))
     then [drop_message (injected_reason (fr_type (fst (inject packet (pp_injector p))))) ts (pk_id packet) (pk_lifecycle_id packet)]
     else [])"
proof -
  obtain f fi where i: "inject packet (pp_injector p) = (f, fi)" by (cases "inject packet (pp_injector p)")
  show ?thesis
  proof (cases "fr_is_terminal f")
    case True
    then show ?thesis
      using assms by (auto simp: processor_onPacketRx_def handleInjectedFailure_def i Let_def split_beta)
  next
    case False
    then show ?thesis
      using assms by (simp add: processor_onPacketRx_def admit_def i Let_def split_beta)
  qed
qed

text \<open>Processing: the packet alone decides, whatever engine and transport do.\<close>

lemma process_verdict:
  "\<exists>p' e' ms. processPacket packet (p, e) = ((p', e'), ms) \<and>
     pp_queue p' = pp_queue p \<and> pp_injector p' = pp_injector p \<and>
     todo_keys (concat (map (tasks (replay_bus b)) ms)) = [worked packet] \<and>
     (\<forall>m \<in> set ms. well_typed m \<and> m_type m \<noteq> T_PacketRx)"
proof -
  let ?sized = "packet\<lparr>pk_payload_size := of_nat (length (pk_payload packet))\<rparr>"
  have typed: "well_typed (processed_message q)" "well_typed (forwarding_message q d)"
    "m_type (processed_message q) \<noteq> T_PacketRx" "m_type (forwarding_message q d) \<noteq> T_PacketRx" for q d
    by (simp_all add: processed_message_def forwarding_message_def well_typed_def)
  have work: "worked packet = (OutcomeProcessed, pk_lifecycle_id ?sized, Unknown)"
    if "\<not> length (pk_payload packet) > PROCESSOR_MAX_PAYLOAD_SIZE" "pk_timestamp_ms packet \<noteq> 0"
    using that by (simp add: worked_def)
  consider (big) "length (pk_payload packet) > PROCESSOR_MAX_PAYLOAD_SIZE"
    | (early) "\<not> length (pk_payload packet) > PROCESSOR_MAX_PAYLOAD_SIZE" "pk_timestamp_ms packet = 0"
    | (plain) "\<not> length (pk_payload packet) > PROCESSOR_MAX_PAYLOAD_SIZE" "pk_timestamp_ms packet \<noteq> 0"
        "pp_forwarding_engine p = None \<or> pk_ingress_port packet = None"
    | (forwarded) engine port where "\<not> length (pk_payload packet) > PROCESSOR_MAX_PAYLOAD_SIZE"
        "pk_timestamp_ms packet \<noteq> 0" "pp_forwarding_engine p = Some engine" "pk_ingress_port packet = Some port"
    by (cases "pp_forwarding_engine p"; cases "pk_ingress_port packet"; blast)
  then show ?thesis
  proof cases
    case big
    then show ?thesis by (simp add: processPacket_def drop_tasks worked_def)
  next
    case early
    then show ?thesis by (simp add: processPacket_def split_beta drop_tasks worked_def)
  next
    case plain
    then have "processPacket packet (p, e) = ((p, e), [processed_message ?sized])"
      by (auto simp: processPacket_def Let_def split: option.split)
    then show ?thesis using work [OF plain(1,2)] typed by (simp add: processed_tasks)
  next
    case forwarded
    then show ?thesis
      using work [OF forwarded(1,2)] typed
      by (simp add: processPacket_def Let_def split_beta forwarding_tasks processed_tasks)
  qed
qed

lemma draw_keys:
  "collector_draw h m c = Some (outcome, c') \<Longrightarrow> task_keys (h, m) = [outcome_key outcome] \<and>
     ro_sequence outcome = col_next_sequence c \<and> c' = c\<lparr>col_next_sequence := col_next_sequence c + 1\<rparr>"
  "collector_draw h m c = None \<Longrightarrow> task_keys (h, m) = []"
  by (auto simp: collector_draw_def collector_ticket_def task_keys_def outcome_key_def split: if_splits)

text \<open>What a call that draws no number does.\<close>

definition call_effect :: "handler \<Rightarrow> Message \<Rightarrow> node \<Rightarrow> node \<Rightarrow> Message list \<Rightarrow> bool" where
  "call_effect h m w w' ms \<longleftrightarrow>
     run_handler h m w = Inr (w', ms) \<and> n_collector w' = n_collector w \<and> task_keys (h, m) = [] \<and>
     n_recorder w' = (if h = RecorderRx then recorder_onPacketRx m (n_recorder w) else n_recorder w) \<and>
     (h \<noteq> ProcessorRx \<longrightarrow> n_processor w' = n_processor w \<and> ms = []) \<and>
     (h = ProcessorRx \<longrightarrow> (\<exists>packet ts. get_if_packet (m_payload m) = Some packet \<and>
      (let f = fst (inject packet (pp_injector (n_processor w))) in
       pp_injector (n_processor w') = snd (inject packet (pp_injector (n_processor w))) \<and>
       pp_queue (n_processor w') = pp_queue (n_processor w) @ (if fr_is_terminal f then [] else [packet]) \<and>
       ms = (if fr_is_terminal f
             then [drop_message (injected_reason (fr_type f)) ts (pk_id packet) (pk_lifecycle_id packet)] else []))))"

lemma replay_call:
  assumes "h \<in> set (callbacks (replay_bus b) (m_type m))" and "well_typed m"
    and "collector_draw h m (n_collector w) = None"
    and "h = ProcessorRx \<longrightarrow> length (pp_queue (n_processor w)) < MAX_QUEUE_SIZE"
  shows "\<exists>w' ms. call_effect h m w w' ms"
proof -
  note type = replay_callback_type [OF assms(1)] and keys = draw_keys(2) [OF assms(3)]
  consider (1) "h = ProcessorRx" | (2) "h \<in> {StatsProcessed, StatsDropped, StatsRx, StatsIdle}"
    | (3) "h = RecorderRx" | (4) "h \<in> {CollectorProcessed, CollectorDropped}"
    using type by blast
  then show ?thesis
  proof cases
    case 1
    have "m_type m = T_PacketRx" using type 1 by simp
    then obtain packet where p: "get_if_packet (m_payload m) = Some packet"
      using assms(2) get_if_packet_typed by (auto simp: well_typed_def)
    from rx_verdict [OF p, of "n_processor w" "n_env w"] assms(4) 1 show ?thesis
      using keys p by (auto simp: call_effect_def Let_def)
  next
    case 2
    then have "m_type m = handler_type h" using type by simp
    from stats_handler [OF assms(2) 2 this, of w] obtain s e where
      "run_handler h m w = Inr (w\<lparr>n_stats := s, n_env := e\<rparr>, [])" by blast
    then have "call_effect h m w (w\<lparr>n_stats := s, n_env := e\<rparr>) []"
      using keys 2 by (auto simp: call_effect_def)
    then show ?thesis by blast
  next
    case 3
    then have "call_effect h m w (w\<lparr>n_recorder := recorder_onPacketRx m (n_recorder w)\<rparr>) []"
      using keys by (simp add: call_effect_def)
    then show ?thesis by blast
  next
    case 4
    then have "run_handler h m w = Inr (w\<lparr>n_collector := n_collector w\<rparr>, [])"
      using assms(3) collector_draw_push [of m "n_collector w"] by auto
    then have "call_effect h m w w []" using 4 keys by (auto simp: call_effect_def)
    then show ?thesis by blast
  qed
qed

section \<open>The invariant\<close>

text \<open>
  \<open>seen\<close>: the packets whose reception the processor has handled; \<open>I\<close> and \<open>W\<close>: the outcomes the
  collector has stored for the ingress thread and for the worker.
\<close>

definition accounts :: "FailureInjector \<Rightarrow> Message list \<Rightarrow> replay_run \<Rightarrow> Packet list \<Rightarrow> outcome_key list \<Rightarrow> outcome_key list \<Rightarrow> bool" where
  "accounts fi msgs s seen I W \<longleftrightarrow>
     packets_in msgs = seen @ todo_rx ProcessorRx (rp_ingress s) @ packets_in (rp_input s) \<and>
     pp_injector (n_processor (rp_node s)) = injector_after fi seen \<and>
     history s \<in> shuffles I W \<and> I @ todo_keys (rp_ingress s) = faults fi seen \<and>
     W @ todo_keys (rp_worker s) @ map worked (option_list (rp_held s) @ pp_queue (n_processor (rp_node s))) =
       map worked (passed fi seen)"

definition recorded :: "bool \<Rightarrow> Message list \<Rightarrow> replay_run \<Rightarrow> bool" where
  "recorded b msgs s \<longleftrightarrow> (\<exists>ps. rec_records (n_recorder (rp_node s)) = numbered 0 ps \<and>
     rec_next_sequence (n_recorder (rp_node s)) = of_nat (length ps) \<and>
     (b \<longrightarrow> packets_in msgs = ps @ todo_rx RecorderRx (rp_ingress s) @ packets_in (rp_input s)))"

text \<open>A thread that has drawn a number is in the collector's call for the outcome it holds.\<close>

definition drawn_ok :: "ReplayOutcome option \<Rightarrow> todo \<Rightarrow> bool" where
  "drawn_ok drawn ts \<longleftrightarrow> (\<forall>outcome. drawn = Some outcome \<longrightarrow> (\<exists>x rest. ts = x # rest \<and> task_keys x = [outcome_key outcome]))"

lemma drawn_ok_simps [simp]: "drawn_ok None ts" "drawn_ok drawn [] \<longleftrightarrow> drawn = None"
  by (simp_all add: drawn_ok_def)

text \<open>The numbers drawn: those stored and those the threads hold, each once.\<close>

definition drawn_outcomes :: "replay_run \<Rightarrow> ReplayOutcome list" where
  "drawn_outcomes s = col_outcomes (n_collector (rp_node s)) @ option_list (rp_ingress_drawn s) @ option_list (rp_worker_drawn s)"

definition numbers_ok :: "replay_run \<Rightarrow> bool" where
  "numbers_ok s \<longleftrightarrow> col_next_sequence (n_collector (rp_node s)) = of_nat (length (drawn_outcomes s)) \<and>
     mset (map ro_sequence (drawn_outcomes s)) = mset (map of_nat [0..<length (drawn_outcomes s)])"

lemma numbers_frame:
  "numbers_ok s \<Longrightarrow> drawn_outcomes s' = drawn_outcomes s \<Longrightarrow>
     col_next_sequence (n_collector (rp_node s')) = col_next_sequence (n_collector (rp_node s)) \<Longrightarrow> numbers_ok s'"
  by (simp add: numbers_ok_def)

definition replay_wf :: "bool \<Rightarrow> replay_run \<Rightarrow> bool" where
  "replay_wf b s \<longleftrightarrow>
     numbers_ok s \<and> drawn_ok (rp_ingress_drawn s) (rp_ingress s) \<and> drawn_ok (rp_worker_drawn s) (rp_worker s) \<and>
     replay_todo b (rp_ingress s) \<and> replay_todo b (rp_worker s) \<and>
     (\<forall>x \<in> set (rp_worker s). m_type (snd x) \<noteq> T_PacketRx) \<and> (rp_held s \<noteq> None \<longrightarrow> rp_worker s = []) \<and>
     rx_stream (rp_input s) \<and>
     length (todo_rx ProcessorRx (rp_ingress s)) + length (todo_keys (rp_ingress s)) \<le> 1"

definition replay_inv :: "bool \<Rightarrow> FailureInjector \<Rightarrow> Message list \<Rightarrow> replay_run \<Rightarrow> bool" where
  "replay_inv b fi msgs s \<longleftrightarrow> rx_stream msgs \<and> replay_wf b s \<and> (\<exists>seen I W. accounts fi msgs s seen I W) \<and> recorded b msgs s"

lemma replay_start_inv: "rx_stream msgs \<Longrightarrow> replay_start fi msgs s \<Longrightarrow> replay_inv b fi msgs s"
  by (auto simp: replay_inv_def replay_start_def replay_wf_def accounts_def recorded_def history_def numbers_ok_def drawn_outcomes_def
      ReplayOutcomeCollector_new_def ReplayRecorder_new_def intro!: exI [of _ "[]"])

lemma rx_stream_packets: "rx_stream msgs \<Longrightarrow> length (packets_in msgs) = length msgs"
proof (induction msgs)
  case (Cons m msgs)
  then obtain p where "get_if_packet (m_payload m) = Some p"
    using get_if_packet_typed by (fastforce simp: rx_stream_def well_typed_def)
  with Cons show ?case by (simp add: rx_stream_def)
qed simp

text \<open>The queue has room: it holds packets already seen, and at most 1024 are sent at all.\<close>

lemma room:
  assumes "rx_stream msgs" and "accounts fi msgs s seen I W" and "todo_rx ProcessorRx (rp_ingress s) \<noteq> []"
  shows "length (pp_queue (n_processor (rp_node s))) < MAX_QUEUE_SIZE"
proof -
  let ?q = "pp_queue (n_processor (rp_node s))"
  have "length (W @ todo_keys (rp_worker s) @ map worked (option_list (rp_held s) @ ?q)) = length (passed fi seen)"
    using assms(2) by (simp add: accounts_def)
  then have "length ?q \<le> length (passed fi seen)" by simp
  also have "\<dots> \<le> length seen" by (rule length_passed)
  also have "\<dots> < length seen + length (todo_rx ProcessorRx (rp_ingress s))" using assms(3) by simp
  also have "\<dots> \<le> length (packets_in msgs)" using assms(2) by (simp add: accounts_def)
  finally show ?thesis using assms(1) rx_stream_packets by (simp add: rx_stream_def)
qed

lemma publish_replay_inv:
  assumes "replay_inv b fi msgs s" and "rp_ingress s = []" and "rp_input s = m # ms"
  shows "replay_inv b fi msgs (s\<lparr>rp_ingress := tasks (replay_bus b) m, rp_input := ms\<rparr>)"
proof -
  have m: "well_typed m" "m_type m = T_PacketRx" using assms by (auto simp: replay_inv_def replay_wf_def rx_stream_def)
  then obtain p where p: "get_if_packet (m_payload m) = Some p" using get_if_packet_typed by (auto simp: well_typed_def)
  have "rx_stream ms" "numbers_ok s" using assms by (simp_all add: replay_inv_def replay_wf_def rx_stream_def)
  moreover from this(2) have "numbers_ok (s\<lparr>rp_ingress := tasks (replay_bus b) m, rp_input := ms\<rparr>)"
    by (rule numbers_frame) (simp_all add: drawn_outcomes_def)
  ultimately have "replay_wf b (s\<lparr>rp_ingress := tasks (replay_bus b) m, rp_input := ms\<rparr>)"
    using assms m by (simp add: replay_inv_def replay_wf_def replay_todo_tasks rx_tasks [OF m(2) p])
  moreover have "recorded b msgs (s\<lparr>rp_ingress := tasks (replay_bus b) m, rp_input := ms\<rparr>)"
    using assms by (auto simp: replay_inv_def recorded_def rx_tasks [OF m(2) p] p)
  moreover obtain seen I W where "accounts fi msgs s seen I W" using assms(1) by (auto simp: replay_inv_def)
  then have "accounts fi msgs (s\<lparr>rp_ingress := tasks (replay_bus b) m, rp_input := ms\<rparr>) seen I W"
    using assms(2,3) by (auto simp: accounts_def rx_tasks [OF m(2) p] p history_def)
  ultimately show ?thesis using assms(1) by (auto simp: replay_inv_def)
qed

lemma recorder_numbered:
  assumes "rec_records r = numbered 0 ps" and "rec_next_sequence r = of_nat (length ps)"
    and "get_if_packet (m_payload m) = Some p"
  shows "rec_records (recorder_onPacketRx m r) = numbered 0 (ps @ [p]) \<and>
    rec_next_sequence (recorder_onPacketRx m r) = of_nat (length (ps @ [p]))"
proof -
  have "numbered n (ps @ [p]) = numbered n ps @ [\<lparr>rr_sequence = n + of_nat (length ps), rr_packet = p\<rparr>]" for n
    by (induction n ps rule: numbered.induct) (simp_all add: ac_simps)
  with assms show ?thesis by (simp add: recorder_onPacketRx_def Let_def)
qed

text \<open>The moves of a call in the collector: drawing a number, storing the outcome.\<close>

lemma draw_numbers:
  assumes "numbers_ok s" and "collector_draw h m (n_collector (rp_node s)) = Some (outcome, c)"
    and "mset (drawn_outcomes s') = add_mset outcome (mset (drawn_outcomes s))"
    and "col_next_sequence (n_collector (rp_node s')) = col_next_sequence c"
  shows "numbers_ok s'"
proof -
  have o: "ro_sequence outcome = of_nat (length (drawn_outcomes s))"
    "col_next_sequence c = of_nat (Suc (length (drawn_outcomes s)))"
    using draw_keys(1) [OF assms(2)] assms(1) by (simp_all add: numbers_ok_def)
  have len: "length (drawn_outcomes s') = Suc (length (drawn_outcomes s))"
    using assms(3) by (metis size_mset size_add_mset)
  have "mset (map ro_sequence (drawn_outcomes s')) = add_mset (ro_sequence outcome) (mset (map ro_sequence (drawn_outcomes s)))"
    using assms(3) by (simp add: mset_map)
  then show ?thesis using assms(1,4) o len by (simp add: numbers_ok_def)
qed

lemma store_numbers:
  assumes "numbers_ok s" and "mset (drawn_outcomes s') = mset (drawn_outcomes s)"
    and "col_next_sequence (n_collector (rp_node s')) = col_next_sequence (n_collector (rp_node s))"
  shows "numbers_ok s'"
  using assms mset_eq_length [OF assms(2)] by (simp add: numbers_ok_def mset_map)

lemma ingress_collector_inv:
  assumes "replay_inv b fi msgs s"
  shows "rp_ingress s = (h, m) # rest \<Longrightarrow> rp_ingress_drawn s = None \<Longrightarrow>
      collector_draw h m (n_collector (rp_node s)) = Some (outcome, c) \<Longrightarrow>
      replay_inv b fi msgs (s\<lparr>rp_node := (rp_node s)\<lparr>n_collector := c\<rparr>, rp_ingress := (h, m) # rest, rp_ingress_drawn := Some outcome\<rparr>)"
    and "rp_ingress s = x # rest \<Longrightarrow> rp_ingress_drawn s = Some outcome \<Longrightarrow>
      replay_inv b fi msgs (s\<lparr>rp_node := (rp_node s)\<lparr>n_collector := collector_push outcome (n_collector (rp_node s))\<rparr>,
        rp_ingress := rest, rp_ingress_drawn := None\<rparr>)"
proof -
  obtain seen I W where acc: "accounts fi msgs s seen I W" using assms by (auto simp: replay_inv_def)
  have wf: "rx_stream msgs" "replay_wf b s" "recorded b msgs s" using assms by (simp_all add: replay_inv_def)
  then have num: "numbers_ok s" by (simp add: replay_wf_def)
  {
    assume a: "rp_ingress s = (h, m) # rest" "rp_ingress_drawn s = None" and d: "collector_draw h m (n_collector (rp_node s)) = Some (outcome, c)"
    let ?s = "s\<lparr>rp_node := (rp_node s)\<lparr>n_collector := c\<rparr>, rp_ingress := (h, m) # rest, rp_ingress_drawn := Some outcome\<rparr>"
    note k = draw_keys(1) [OF d]
    have "numbers_ok ?s" by (rule draw_numbers [OF num d]) (use a k in \<open>simp_all add: drawn_outcomes_def\<close>)
    then have "replay_wf b ?s" using wf(2) a k by (auto simp: replay_wf_def drawn_ok_def)
    moreover have "accounts fi msgs ?s seen I W" using acc a k by (simp add: accounts_def history_def)
    ultimately show "replay_inv b fi msgs ?s" using wf a by (auto simp: replay_inv_def recorded_def)
  }
  {
    assume a: "rp_ingress s = x # rest" "rp_ingress_drawn s = Some outcome"
    let ?s = "s\<lparr>rp_node := (rp_node s)\<lparr>n_collector := collector_push outcome (n_collector (rp_node s))\<rparr>,
        rp_ingress := rest, rp_ingress_drawn := None\<rparr>"
    have k: "task_keys x = [outcome_key outcome]" using wf(2) a by (auto simp: replay_wf_def drawn_ok_def)
    then have norx: "fst x \<noteq> ProcessorRx" "fst x \<noteq> RecorderRx" by (auto simp: task_keys_def split: if_splits)
    have "numbers_ok ?s" by (rule store_numbers [OF num]) (use a in \<open>simp_all add: drawn_outcomes_def collector_push_def\<close>)
    then have "replay_wf b ?s" using wf(2) a k by (cases x) (auto simp: replay_wf_def)
    moreover have "accounts fi msgs ?s seen (I @ task_keys x) W"
      using acc a k norx by (auto simp: accounts_def history_def collector_push_def snoc_shuffles_left)
    ultimately show "replay_inv b fi msgs ?s" using wf a norx by (auto simp: replay_inv_def recorded_def)
  }
qed

lemma worker_collector_inv:
  assumes "replay_inv b fi msgs s"
  shows "rp_worker s = (h, m) # rest \<Longrightarrow> rp_worker_drawn s = None \<Longrightarrow>
      collector_draw h m (n_collector (rp_node s)) = Some (outcome, c) \<Longrightarrow>
      replay_inv b fi msgs (s\<lparr>rp_node := (rp_node s)\<lparr>n_collector := c\<rparr>, rp_worker := (h, m) # rest, rp_worker_drawn := Some outcome\<rparr>)"
    and "rp_worker s = x # rest \<Longrightarrow> rp_worker_drawn s = Some outcome \<Longrightarrow>
      replay_inv b fi msgs (s\<lparr>rp_node := (rp_node s)\<lparr>n_collector := collector_push outcome (n_collector (rp_node s))\<rparr>,
        rp_worker := rest, rp_worker_drawn := None\<rparr>)"
proof -
  obtain seen I W where acc: "accounts fi msgs s seen I W" using assms by (auto simp: replay_inv_def)
  have wf: "rx_stream msgs" "replay_wf b s" "recorded b msgs s" using assms by (simp_all add: replay_inv_def)
  then have num: "numbers_ok s" by (simp add: replay_wf_def)
  {
    assume a: "rp_worker s = (h, m) # rest" "rp_worker_drawn s = None" and d: "collector_draw h m (n_collector (rp_node s)) = Some (outcome, c)"
    let ?s = "s\<lparr>rp_node := (rp_node s)\<lparr>n_collector := c\<rparr>, rp_worker := (h, m) # rest, rp_worker_drawn := Some outcome\<rparr>"
    note k = draw_keys(1) [OF d]
    have "numbers_ok ?s" by (rule draw_numbers [OF num d]) (use a k in \<open>simp_all add: drawn_outcomes_def\<close>)
    then have "replay_wf b ?s" using wf(2) a k by (auto simp: replay_wf_def drawn_ok_def)
    moreover have "accounts fi msgs ?s seen I W" using acc a k by (simp add: accounts_def history_def)
    ultimately show "replay_inv b fi msgs ?s" using wf a by (auto simp: replay_inv_def recorded_def)
  }
  {
    assume a: "rp_worker s = x # rest" "rp_worker_drawn s = Some outcome"
    let ?s = "s\<lparr>rp_node := (rp_node s)\<lparr>n_collector := collector_push outcome (n_collector (rp_node s))\<rparr>,
        rp_worker := rest, rp_worker_drawn := None\<rparr>"
    have k: "task_keys x = [outcome_key outcome]" using wf(2) a by (auto simp: replay_wf_def drawn_ok_def)
    have "numbers_ok ?s" by (rule store_numbers [OF num]) (use a in \<open>simp_all add: drawn_outcomes_def collector_push_def\<close>)
    then have "replay_wf b ?s" using wf(2) a k by (cases x) (auto simp: replay_wf_def)
    moreover have "accounts fi msgs ?s seen I (W @ task_keys x)"
      using acc a k by (auto simp: accounts_def history_def collector_push_def snoc_shuffles_right)
    ultimately show "replay_inv b fi msgs ?s" using wf a by (auto simp: replay_inv_def recorded_def)
  }
qed

text \<open>Other calls of the ingress thread.\<close>

lemma recorded_call:
  assumes "recorded b msgs s" and "rp_ingress s = (h, m) # rest" and "call_effect h m (rp_node s) w ms"
    and "h = RecorderRx \<longrightarrow> get_if_packet (m_payload m) \<noteq> None"
  shows "recorded b msgs (s\<lparr>rp_node := w, rp_ingress := concat (map (tasks (replay_bus b)) ms) @ rest, rp_ingress_drawn := None\<rparr>)"
proof -
  have nodrop: "todo_rx RecorderRx (concat (map (tasks (replay_bus b')) ms)) = []" for b'
    using assms(3) by (cases "h = ProcessorRx") (auto simp: call_effect_def Let_def drop_tasks)
  obtain ps where ps: "rec_records (n_recorder (rp_node s)) = numbered 0 ps"
    "rec_next_sequence (n_recorder (rp_node s)) = of_nat (length ps)"
    "b \<longrightarrow> packets_in msgs = ps @ todo_rx RecorderRx (rp_ingress s) @ packets_in (rp_input s)"
    using assms(1) by (auto simp: recorded_def)
  show ?thesis
  proof (cases "h = RecorderRx")
    case True
    then obtain p where p: "get_if_packet (m_payload m) = Some p" using assms(4) by blast
    from recorder_numbered [OF ps(1,2) p] ps(3) show ?thesis
      using True nodrop assms(2,3) p unfolding recorded_def by (intro exI [of _ "ps @ [p]"]) (simp add: call_effect_def)
  next
    case False
    then show ?thesis
      using ps nodrop assms(2,3) unfolding recorded_def by (intro exI [of _ ps]) (simp add: call_effect_def)
  qed
qed

lemma call_numbers:
  "numbers_ok s \<Longrightarrow> call_effect h m (rp_node s) w ms \<Longrightarrow> rp_ingress_drawn s = None \<Longrightarrow>
     numbers_ok (s\<lparr>rp_node := w, rp_ingress := ts, rp_ingress_drawn := None\<rparr>)"
  "numbers_ok s \<Longrightarrow> call_effect h m (rp_node s) w ms \<Longrightarrow> rp_worker_drawn s = None \<Longrightarrow>
     numbers_ok (s\<lparr>rp_node := w, rp_worker := ts, rp_worker_drawn := None\<rparr>)"
  by (simp_all add: numbers_ok_def drawn_outcomes_def call_effect_def)

lemma other_call:
  assumes "replay_wf b s" and "accounts fi msgs s seen I W" and "rp_ingress s = (h, m) # rest" and "rp_ingress_drawn s = None"
    and "call_effect h m (rp_node s) w ms" and "h \<noteq> ProcessorRx"
  shows "replay_wf b (s\<lparr>rp_node := w, rp_ingress := concat (map (tasks (replay_bus b)) ms) @ rest, rp_ingress_drawn := None\<rparr>) \<and>
    accounts fi msgs (s\<lparr>rp_node := w, rp_ingress := concat (map (tasks (replay_bus b)) ms) @ rest, rp_ingress_drawn := None\<rparr>) seen I W"
proof -
  have "numbers_ok s" using assms(1) by (simp add: replay_wf_def)
  from call_numbers(1) [OF this assms(5,4)] show ?thesis
    using assms by (auto simp: call_effect_def replay_wf_def accounts_def history_def)
qed

text \<open>The processor's own call moves a packet from reception to the queue, or reports its fault.\<close>

lemma processor_call:
  assumes "replay_wf b s" and "accounts fi msgs s seen I W" and "rp_ingress s = (ProcessorRx, m) # rest" and "rp_ingress_drawn s = None"
    and "call_effect ProcessorRx m (rp_node s) w ms"
  shows "\<exists>packet. replay_wf b (s\<lparr>rp_node := w, rp_ingress := concat (map (tasks (replay_bus b)) ms) @ rest, rp_ingress_drawn := None\<rparr>) \<and>
    accounts fi msgs (s\<lparr>rp_node := w, rp_ingress := concat (map (tasks (replay_bus b)) ms) @ rest, rp_ingress_drawn := None\<rparr>)
      (seen @ [packet]) I W"
    (is "\<exists>packet. replay_wf b ?s \<and> _ packet")
proof -
  let ?fi = "injector_after fi seen"
  have "pp_injector (n_processor (rp_node s)) = ?fi" using assms(2) by (simp add: accounts_def)
  with assms(5) obtain packet ts where p: "get_if_packet (m_payload m) = Some packet"
    and i: "pp_injector (n_processor w) = snd (inject packet ?fi)"
    and q: "pp_queue (n_processor w) = pp_queue (n_processor (rp_node s)) @
      (if fr_is_terminal (fst (inject packet ?fi)) then [] else [packet])"
    and ms: "ms = (if fr_is_terminal (fst (inject packet ?fi))
      then [drop_message (injected_reason (fr_type (fst (inject packet ?fi)))) ts (pk_id packet) (pk_lifecycle_id packet)] else [])"
    by (auto simp: call_effect_def Let_def)
  have keys: "task_keys (ProcessorRx, m) = []" by (simp add: task_keys_def)
  have quiet: "todo_rx ProcessorRx rest = []" "todo_keys rest = []"
    using assms(1,3) p keys by (auto simp: replay_wf_def)
  have hist: "history ?s = history s" using assms(5) by (simp add: call_effect_def history_def)
  have "numbers_ok s" using assms(1) by (simp add: replay_wf_def)
  from call_numbers(1) [OF this assms(5,4)] have "numbers_ok ?s" .
  then have "replay_wf b ?s"
    using assms(1,3) quiet ms by (auto simp: replay_wf_def drop_tasks replay_todo_tasks)
  moreover have "accounts fi msgs ?s (seen @ [packet]) I W"
    using assms(2,3) p i q ms hist quiet keys
    by (auto simp: accounts_def drop_tasks faults_snoc passed_snoc injector_after_snoc Let_def fault_def)
  ultimately show ?thesis by blast
qed

lemma ingress_call_inv:
  assumes "replay_inv b fi msgs s" and "rp_ingress s = (h, m) # rest" and "rp_ingress_drawn s = None"
    and "collector_draw h m (n_collector (rp_node s)) = None"
  shows "\<exists>w ms. call_effect h m (rp_node s) w ms \<and> replay_inv b fi msgs
    (s\<lparr>rp_node := w, rp_ingress := concat (map (tasks (replay_bus b)) ms) @ rest, rp_ingress_drawn := None\<rparr>)"
proof -
  obtain seen I W where acc: "accounts fi msgs s seen I W" using assms(1) by (auto simp: replay_inv_def)
  have wf: "rx_stream msgs" "replay_wf b s" "recorded b msgs s" using assms(1) by (simp_all add: replay_inv_def)
  have hm: "h \<in> set (callbacks (replay_bus b) (m_type m))" "well_typed m"
    using wf(2) assms(2) by (simp_all add: replay_wf_def)
  have rx: "get_if_packet (m_payload m) \<noteq> None" if "h = ProcessorRx \<or> h = RecorderRx"
    using replay_callback_type [OF hm(1)] that hm(2) get_if_packet_typed by (auto simp: well_typed_def)
  then have "h = ProcessorRx \<longrightarrow> todo_rx ProcessorRx (rp_ingress s) \<noteq> []" using assms(2) by auto
  then have "h = ProcessorRx \<longrightarrow> length (pp_queue (n_processor (rp_node s))) < MAX_QUEUE_SIZE"
    using room [OF wf(1) acc] by blast
  from replay_call [OF hm assms(4) this] obtain w ms where eff: "call_effect h m (rp_node s) w ms" by blast
  let ?s = "s\<lparr>rp_node := w, rp_ingress := concat (map (tasks (replay_bus b)) ms) @ rest, rp_ingress_drawn := None\<rparr>"
  have "recorded b msgs ?s" using recorded_call [OF wf(3) assms(2) eff] rx by blast
  moreover have "replay_wf b ?s \<and> (\<exists>seen I W. accounts fi msgs ?s seen I W)"
  proof (cases "h = ProcessorRx")
    case False
    from other_call [OF wf(2) acc assms(2,3) eff this] show ?thesis by blast
  next
    case True
    from processor_call [OF wf(2) acc assms(2) [unfolded True] assms(3) eff [unfolded True]] show ?thesis by blast
  qed
  ultimately have "replay_inv b fi msgs ?s" using wf(1) by (simp add: replay_inv_def)
  with eff show ?thesis by blast
qed

section \<open>The worker\<close>

lemma worker_call_inv:
  assumes "replay_inv b fi msgs s" and "rp_worker s = (h, m) # rest" and "rp_worker_drawn s = None"
    and "collector_draw h m (n_collector (rp_node s)) = None"
  shows "\<exists>w. call_effect h m (rp_node s) w [] \<and> h \<noteq> ProcessorRx \<and>
    replay_inv b fi msgs (s\<lparr>rp_node := w, rp_worker := rest, rp_worker_drawn := None\<rparr>)"
proof -
  obtain seen I W where acc: "accounts fi msgs s seen I W" using assms(1) by (auto simp: replay_inv_def)
  have wf: "rx_stream msgs" "replay_wf b s" "recorded b msgs s" using assms(1) by (simp_all add: replay_inv_def)
  have hm: "h \<in> set (callbacks (replay_bus b) (m_type m))" "well_typed m" and notrx: "m_type m \<noteq> T_PacketRx"
    and num: "numbers_ok s" using wf(2) assms(2) by (simp_all add: replay_wf_def)
  have h: "h \<noteq> ProcessorRx" "h \<noteq> RecorderRx" using replay_callback_type [OF hm(1)] notrx by auto
  then obtain w ms where eff: "call_effect h m (rp_node s) w ms" using replay_call [OF hm assms(4)] by blast
  let ?s = "s\<lparr>rp_node := w, rp_worker := rest, rp_worker_drawn := None\<rparr>"
  have ms: "ms = []" using eff h by (simp add: call_effect_def)
  have "recorded b msgs ?s" using wf(3) eff h by (simp add: recorded_def call_effect_def)
  moreover have "replay_wf b ?s" using wf(2) assms(2) call_numbers(2) [OF num eff assms(3)] by (simp add: replay_wf_def)
  moreover have "accounts fi msgs ?s seen I W"
    using acc assms(2) eff h by (simp add: accounts_def call_effect_def history_def)
  ultimately have "replay_inv b fi msgs ?s" using wf(1) by (auto simp: replay_inv_def)
  with eff ms h show ?thesis by auto
qed

lemma process_replay_inv:
  assumes "replay_inv b fi msgs s" and "rp_worker s = []" and "rp_held s = Some packet"
    and "processPacket packet (n_processor (rp_node s), n_env (rp_node s)) = ((p, e), ms)"
  shows "replay_inv b fi msgs (s\<lparr>rp_node := (rp_node s)\<lparr>n_processor := p, n_env := e\<rparr>, rp_held := None,
      rp_worker := concat (map (tasks (replay_bus b)) ms)\<rparr>)" (is "replay_inv b fi msgs ?s")
proof -
  obtain seen I W where acc: "accounts fi msgs s seen I W" using assms(1) by (auto simp: replay_inv_def)
  have pr: "pp_queue p = pp_queue (n_processor (rp_node s))" "pp_injector p = pp_injector (n_processor (rp_node s))"
    "todo_keys (concat (map (tasks (replay_bus b)) ms)) = [worked packet]"
    "\<forall>m \<in> set ms. well_typed m \<and> m_type m \<noteq> T_PacketRx"
    using process_verdict [of packet "n_processor (rp_node s)" "n_env (rp_node s)" b] assms(4) by auto
  have typed: "replay_todo b (concat (map (tasks (replay_bus b)) ms))"
    "\<forall>x \<in> set (concat (map (tasks (replay_bus b)) ms)). m_type (snd x) \<noteq> T_PacketRx"
    using pr(4) by (auto simp: replay_todo_def tasks_def from_bus_def)
  have "numbers_ok s" using assms(1) by (simp add: replay_inv_def replay_wf_def)
  then have "numbers_ok ?s" by (rule numbers_frame) (simp_all add: drawn_outcomes_def)
  then have "replay_wf b ?s" using assms(1,2) typed by (auto simp: replay_inv_def replay_wf_def)
  moreover have "accounts fi msgs ?s seen I W" using acc assms(2,3) pr by (simp add: accounts_def history_def)
  moreover have "recorded b msgs ?s" using assms(1) by (simp add: replay_inv_def recorded_def)
  ultimately show ?thesis using assms(1) by (auto simp: replay_inv_def)
qed

lemma take_replay_inv:
  assumes "replay_inv b fi msgs s" and "rp_worker s = []" and "rp_held s = None"
    and "processLoop_step (n_processor (rp_node s)) = Took packet p"
  shows "replay_inv b fi msgs (s\<lparr>rp_node := (rp_node s)\<lparr>n_processor := p\<rparr>, rp_held := Some packet\<rparr>)"
proof -
  obtain rest where q: "pp_queue (n_processor (rp_node s)) = packet # rest" "p = (n_processor (rp_node s))\<lparr>pp_queue := rest\<rparr>"
    using assms(4) by (auto simp: processLoop_step_def split: list.splits if_splits)
  let ?s = "s\<lparr>rp_node := (rp_node s)\<lparr>n_processor := p\<rparr>, rp_held := Some packet\<rparr>"
  obtain seen I W where "accounts fi msgs s seen I W" using assms(1) by (auto simp: replay_inv_def)
  then have "accounts fi msgs ?s seen I W" using assms(3) q by (simp add: accounts_def history_def)
  moreover have "numbers_ok s" using assms(1) by (simp add: replay_inv_def replay_wf_def)
  then have "numbers_ok ?s" by (rule numbers_frame) (simp_all add: drawn_outcomes_def)
  then have "replay_wf b ?s" "recorded b msgs ?s" "rx_stream msgs"
    using assms(1,2) by (simp_all add: replay_inv_def replay_wf_def recorded_def)
  ultimately show ?thesis by (auto simp: replay_inv_def)
qed

section \<open>The moves of a reachable state\<close>

text \<open>No call raises.\<close>

lemma call_move_simps:
  "call_move bus h m rest (Some outcome) w = Some (w\<lparr>n_collector := collector_push outcome (n_collector w)\<rparr>, rest, None)"
  "collector_draw h m (n_collector w) = Some (outcome, c) \<Longrightarrow>
     call_move bus h m rest None w = Some (w\<lparr>n_collector := c\<rparr>, (h, m) # rest, Some outcome)"
  "collector_draw h m (n_collector w) = None \<Longrightarrow> call_effect h m w w' ms \<Longrightarrow>
     call_move bus h m rest None w = Some (w', concat (map (tasks bus) ms) @ rest, None)"
  by (simp_all add: call_move_def call_effect_def)

lemma ingress_call_moves:
  assumes inv: "replay_inv b fi msgs s" and todo: "rp_ingress s = (h, m) # rest"
  obtains (store) outcome where "rp_ingress_drawn s = Some outcome"
      "ingress_move b s = Some (s\<lparr>rp_node := (rp_node s)\<lparr>n_collector := collector_push outcome (n_collector (rp_node s))\<rparr>,
         rp_ingress := rest, rp_ingress_drawn := None\<rparr>)"
  | (draw) outcome c where "rp_ingress_drawn s = None" "collector_draw h m (n_collector (rp_node s)) = Some (outcome, c)"
      "ingress_move b s = Some (s\<lparr>rp_node := (rp_node s)\<lparr>n_collector := c\<rparr>, rp_ingress := (h, m) # rest, rp_ingress_drawn := Some outcome\<rparr>)"
  | (call) w ms where "rp_ingress_drawn s = None" "call_effect h m (rp_node s) w ms"
      "ingress_move b s = Some (s\<lparr>rp_node := w, rp_ingress := concat (map (tasks (replay_bus b)) ms) @ rest, rp_ingress_drawn := None\<rparr>)"
      "replay_inv b fi msgs (s\<lparr>rp_node := w, rp_ingress := concat (map (tasks (replay_bus b)) ms) @ rest, rp_ingress_drawn := None\<rparr>)"
proof (cases "rp_ingress_drawn s")
  case (Some outcome)
  then show thesis by (intro store) (simp_all add: ingress_move_def todo call_move_simps)
next
  case None
  note idle = this
  show thesis
  proof (cases "collector_draw h m (n_collector (rp_node s))")
    case (Some r)
    then obtain outcome c where r: "collector_draw h m (n_collector (rp_node s)) = Some (outcome, c)" by (cases r) simp
    from draw [OF idle r] show thesis by (simp add: ingress_move_def todo idle call_move_simps(2) [OF r])
  next
    case None
    note 2 = this
    from ingress_call_inv [OF inv todo idle 2] obtain w ms where eff: "call_effect h m (rp_node s) w ms"
      and inv': "replay_inv b fi msgs (s\<lparr>rp_node := w, rp_ingress := concat (map (tasks (replay_bus b)) ms) @ rest, rp_ingress_drawn := None\<rparr>)"
      by blast
    from call [OF idle eff _ inv'] show thesis by (simp add: ingress_move_def todo idle call_move_simps(3) [OF 2 eff])
  qed
qed

lemma worker_call_moves:
  assumes inv: "replay_inv b fi msgs s" and todo: "rp_worker s = (h, m) # rest"
  obtains (store) outcome where "rp_worker_drawn s = Some outcome"
      "worker_move b s = Some (s\<lparr>rp_node := (rp_node s)\<lparr>n_collector := collector_push outcome (n_collector (rp_node s))\<rparr>,
         rp_worker := rest, rp_worker_drawn := None\<rparr>)"
  | (draw) outcome c where "rp_worker_drawn s = None" "collector_draw h m (n_collector (rp_node s)) = Some (outcome, c)"
      "worker_move b s = Some (s\<lparr>rp_node := (rp_node s)\<lparr>n_collector := c\<rparr>, rp_worker := (h, m) # rest, rp_worker_drawn := Some outcome\<rparr>)"
  | (call) w where "rp_worker_drawn s = None" "call_effect h m (rp_node s) w []" "h \<noteq> ProcessorRx"
      "worker_move b s = Some (s\<lparr>rp_node := w, rp_worker := rest, rp_worker_drawn := None\<rparr>)"
      "replay_inv b fi msgs (s\<lparr>rp_node := w, rp_worker := rest, rp_worker_drawn := None\<rparr>)"
proof (cases "rp_worker_drawn s")
  case (Some outcome)
  then show thesis by (intro store) (simp_all add: worker_move_def todo call_move_simps)
next
  case None
  note idle = this
  show thesis
  proof (cases "collector_draw h m (n_collector (rp_node s))")
    case (Some r)
    then obtain outcome c where r: "collector_draw h m (n_collector (rp_node s)) = Some (outcome, c)" by (cases r) simp
    from draw [OF idle r] show thesis by (simp add: worker_move_def todo idle call_move_simps(2) [OF r])
  next
    case None
    note 2 = this
    from worker_call_inv [OF inv todo idle 2] obtain w where eff: "call_effect h m (rp_node s) w []" "h \<noteq> ProcessorRx"
      and inv': "replay_inv b fi msgs (s\<lparr>rp_node := w, rp_worker := rest, rp_worker_drawn := None\<rparr>)" by blast
    from call [OF idle eff _ inv'] show thesis by (simp add: worker_move_def todo idle call_move_simps(3) [OF 2 eff(1)])
  qed
qed

lemma replay_step_cases:
  assumes "replay_step b s s'" and inv: "replay_inv b fi msgs s"
  obtains (publish) m ms where "rp_ingress s = []" "rp_input s = m # ms"
      "s' = s\<lparr>rp_ingress := tasks (replay_bus b) m, rp_input := ms\<rparr>"
  | (ingress_store) x rest outcome where "rp_ingress s = x # rest" "rp_ingress_drawn s = Some outcome"
      "s' = s\<lparr>rp_node := (rp_node s)\<lparr>n_collector := collector_push outcome (n_collector (rp_node s))\<rparr>,
              rp_ingress := rest, rp_ingress_drawn := None\<rparr>"
  | (ingress_draw) h m rest outcome c where "rp_ingress s = (h, m) # rest" "rp_ingress_drawn s = None"
      "collector_draw h m (n_collector (rp_node s)) = Some (outcome, c)"
      "s' = s\<lparr>rp_node := (rp_node s)\<lparr>n_collector := c\<rparr>, rp_ingress := (h, m) # rest, rp_ingress_drawn := Some outcome\<rparr>"
  | (ingress_call) h m rest w ms where "rp_ingress s = (h, m) # rest" "rp_ingress_drawn s = None" "call_effect h m (rp_node s) w ms"
      "s' = s\<lparr>rp_node := w, rp_ingress := concat (map (tasks (replay_bus b)) ms) @ rest, rp_ingress_drawn := None\<rparr>"
      "replay_inv b fi msgs s'"
  | (worker_store) x rest outcome where "rp_worker s = x # rest" "rp_worker_drawn s = Some outcome"
      "s' = s\<lparr>rp_node := (rp_node s)\<lparr>n_collector := collector_push outcome (n_collector (rp_node s))\<rparr>,
              rp_worker := rest, rp_worker_drawn := None\<rparr>"
  | (worker_draw) h m rest outcome c where "rp_worker s = (h, m) # rest" "rp_worker_drawn s = None"
      "collector_draw h m (n_collector (rp_node s)) = Some (outcome, c)"
      "s' = s\<lparr>rp_node := (rp_node s)\<lparr>n_collector := c\<rparr>, rp_worker := (h, m) # rest, rp_worker_drawn := Some outcome\<rparr>"
  | (worker_call) h m rest w where "rp_worker s = (h, m) # rest" "rp_worker_drawn s = None" "call_effect h m (rp_node s) w []"
      "h \<noteq> ProcessorRx" "s' = s\<lparr>rp_node := w, rp_worker := rest, rp_worker_drawn := None\<rparr>" "replay_inv b fi msgs s'"
  | (process) packet p e ms where "rp_worker s = []" "rp_held s = Some packet"
      "processPacket packet (n_processor (rp_node s), n_env (rp_node s)) = ((p, e), ms)"
      "s' = s\<lparr>rp_node := (rp_node s)\<lparr>n_processor := p, n_env := e\<rparr>, rp_held := None,
              rp_worker := concat (map (tasks (replay_bus b)) ms)\<rparr>"
  | (take) packet p where "rp_worker s = []" "rp_held s = None" "processLoop_step (n_processor (rp_node s)) = Took packet p"
      "s' = s\<lparr>rp_node := (rp_node s)\<lparr>n_processor := p\<rparr>, rp_held := Some packet\<rparr>"
proof -
  obtain t where "replay_move b t s = Some s'" using assms(1) by (auto simp: replay_step_def)
  then consider (i) "ingress_move b s = Some s'" | (w) "worker_move b s = Some s'"
    by (cases t) (simp_all add: replay_move_def)
  then show thesis
  proof cases
    case i
    show thesis
    proof (cases "rp_ingress s")
      case Nil
      with i show thesis by (cases "rp_input s") (auto simp: ingress_move_def intro: publish)
    next
      case (Cons x rest)
      then obtain h m where x: "rp_ingress s = (h, m) # rest" by (cases x) simp
      from inv x show thesis
        by (cases rule: ingress_call_moves) (use i x in \<open>simp_all add: ingress_store ingress_draw ingress_call\<close>)
    qed
  next
    case w
    show thesis
    proof (cases "rp_worker s")
      case Nil
      with w show thesis
        by (cases "rp_held s") (auto simp: worker_move_def split: prod.splits loop_step.splits intro: process take)
    next
      case (Cons x rest)
      then obtain h m where x: "rp_worker s = (h, m) # rest" by (cases x) simp
      from inv x show thesis
        by (cases rule: worker_call_moves) (use w x in \<open>simp_all add: worker_store worker_draw worker_call\<close>)
    qed
  qed
qed

lemma replay_step_inv:
  assumes "replay_step b s s'" and "replay_inv b fi msgs s"
  shows "replay_inv b fi msgs s'"
  using assms
proof (cases rule: replay_step_cases)
  case publish
  then show ?thesis using publish_replay_inv [OF assms(2)] by simp
next
  case process
  then show ?thesis using process_replay_inv [OF assms(2)] by simp
next
  case take
  then show ?thesis using take_replay_inv [OF assms(2)] by simp
qed (use ingress_collector_inv [OF assms(2)] worker_collector_inv [OF assms(2)] in simp_all)

interpretation replaying: transition_system "\<lambda>s. rx_stream msgs \<and> replay_start fi msgs s" "replay_step b" "replay_inv b fi msgs"
  for b fi msgs
  by unfold_locales (auto intro: replay_start_inv replay_step_inv)

end
