(* ===== verification/Replay_Determinism.thy ===== *)
theory Replay_Determinism
  imports Replay_Runtime
begin

text \<open>
  The replay contract of docs/runtime/replay-determinism.md, from the invariant of \<open>Replay_Runtime\<close>: runs end; at the
  end the history is an interleaving of two sequences that the ingress packets and the failure policy
  determine, whatever the schedule; so replaying a recording gives the same outcomes, and in the same order whenever one of
  the two sequences is empty, or packets are published one by one as the failure tests do. Without either, the order depends
  on the schedule.
\<close>

section \<open>Runs end\<close>

text \<open>A call of the collector is two moves; receiving a packet is worth one more than its place in the queue.\<close>

definition task_weight :: "handler \<times> Message \<Rightarrow> nat" where
  "task_weight x = (if fst x = ProcessorRx then 6 else if fst x \<in> {CollectorProcessed, CollectorDropped} then 2 else 1)"

definition todo_work :: "ReplayOutcome option \<Rightarrow> todo \<Rightarrow> nat" where
  "todo_work drawn ts = sum_list (map task_weight ts) - length (option_list drawn)"

definition replay_work :: "replay_run \<Rightarrow> nat" where
  "replay_work s = 9 * length (rp_input s) + todo_work (rp_ingress_drawn s) (rp_ingress s) +
     todo_work (rp_worker_drawn s) (rp_worker s) + 4 * length (option_list (rp_held s)) +
     5 * length (pp_queue (n_processor (rp_node s)))"

lemma weight_drop: "map task_weight (tasks (replay_bus b) (drop_message r ts i l)) = [1, 2]"
  by (simp add: tasks_def replay_callbacks task_weight_def)

lemma weight_tasks:
  "m_type m = T_PacketRx \<Longrightarrow> sum_list (map task_weight (tasks (replay_bus b) m)) \<le> 8"
  by (simp add: tasks_def replay_callbacks task_weight_def)

lemma weight_keys: "task_keys x \<noteq> [] \<Longrightarrow> task_weight x = 2"
  by (auto simp: task_keys_def task_weight_def split: if_splits)

lemma todo_work_None [simp]: "todo_work None ts = sum_list (map task_weight ts)"
  by (simp add: todo_work_def)

lemma weight_pos: "0 < task_weight x"
  by (simp add: task_weight_def)

lemma todo_work_drawn:
  "task_keys x \<noteq> [] \<Longrightarrow> todo_work (Some outcome) (x # ts) = Suc (sum_list (map task_weight ts))"
  by (simp add: todo_work_def weight_keys)

lemma worked_off:
  assumes "processPacket packet (p, e) = ((p', e'), ms)"
  shows "sum_list (map task_weight (concat (map (tasks (replay_bus b)) ms))) \<le> 3 \<and> pp_queue p' = pp_queue p"
proof -
  obtain fwd t where ms: "ms = fwd @ [t]" and q: "pp_queue p' = pp_queue p"
    and t: "is_terminal_for (pk_lifecycle_id packet) t" and fwd: "\<forall>m \<in> set fwd. m_type m = T_ForwardingDecisionMade"
    using process_outcome [of packet p e] assms by auto
  have "concat (map (tasks (replay_bus b)) fwd) = []" using fwd by (simp add: tasks_def replay_callbacks)
  moreover have "sum_list (map task_weight (tasks (replay_bus b) t)) \<le> 3"
    using t by (auto simp: is_terminal_for_def tasks_def replay_callbacks task_weight_def)
  ultimately show ?thesis using ms q by (simp del: concat_eq_Nil_conv)
qed

lemma call_work:
  assumes "rp_ingress s = (h, m) # rest" and "rp_ingress_drawn s = None" and "call_effect h m (rp_node s) w ms"
  shows "replay_work (s\<lparr>rp_node := w, rp_ingress := concat (map (tasks (replay_bus b)) ms) @ rest, rp_ingress_drawn := None\<rparr>) < replay_work s"
proof (cases "h = ProcessorRx")
  case True
  with assms show ?thesis
    by (auto simp: replay_work_def call_effect_def Let_def task_weight_def [of "(ProcessorRx, m)"] weight_drop)
next
  case False
  with assms show ?thesis using weight_pos [of "(h, m)"] by (simp add: replay_work_def call_effect_def)
qed

lemma replay_step_work:
  assumes "replay_step b s s'" and "replay_inv b fi msgs s"
  shows "replay_work s' < replay_work s"
proof -
  have ok: "drawn_ok (rp_ingress_drawn s) (rp_ingress s)" "drawn_ok (rp_worker_drawn s) (rp_worker s)" "rx_stream (rp_input s)"
    using assms(2) by (simp_all add: replay_inv_def replay_wf_def)
  from assms show ?thesis
  proof (cases rule: replay_step_cases)
    case (publish m ms)
    then have "m_type m = T_PacketRx" using ok by (simp add: rx_stream_def)
    from weight_tasks [OF this, of b] publish ok show ?thesis by (simp add: replay_work_def)
  next
    case (ingress_store x rest outcome)
    then have "task_keys x \<noteq> []" using ok by (auto simp: drawn_ok_def)
    from todo_work_drawn [OF this] ingress_store show ?thesis by (simp add: replay_work_def collector_push_def)
  next
    case (ingress_draw h m rest outcome c)
    then have k: "task_keys (h, m) \<noteq> []" using draw_keys(1) by fastforce
    from todo_work_drawn [OF k] weight_keys [OF k] ingress_draw show ?thesis by (simp add: replay_work_def)
  next
    case ingress_call
    then show ?thesis using call_work [OF ingress_call(1-3)] by simp
  next
    case (worker_store x rest outcome)
    then have "task_keys x \<noteq> []" using ok by (auto simp: drawn_ok_def)
    from todo_work_drawn [OF this] worker_store show ?thesis by (simp add: replay_work_def collector_push_def)
  next
    case (worker_draw h m rest outcome c)
    then have k: "task_keys (h, m) \<noteq> []" using draw_keys(1) by fastforce
    from todo_work_drawn [OF k] weight_keys [OF k] worker_draw show ?thesis by (simp add: replay_work_def)
  next
    case (worker_call h m rest w)
    then show ?thesis using weight_pos [of "(h, m)"] by (simp add: replay_work_def call_effect_def)
  next
    case (process packet p e ms)
    from worked_off [OF process(3), of b] process ok show ?thesis by (simp add: replay_work_def)
  next
    case (take packet p)
    then show ?thesis by (auto simp: replay_work_def processLoop_step_def split: list.splits if_splits)
  qed
qed

lemma replay_steps_work:
  "(replay_step b ^^ k) s s' \<Longrightarrow> replay_inv b fi msgs s \<Longrightarrow> k + replay_work s' \<le> replay_work s \<and> replay_inv b fi msgs s'"
proof (induction k arbitrary: s')
  case (Suc k)
  then obtain s1 where 1: "(replay_step b ^^ k) s s1" "replay_step b s1 s'" by auto
  from Suc.IH [OF this(1) Suc.prems(2)] replay_step_work [OF 1(2)] replay_step_inv [OF 1(2)] show ?case by force
qed simp

lemma replay_can_end:
  "replay_inv b fi msgs s \<Longrightarrow> \<exists>s'. (replay_step b)\<^sup>*\<^sup>* s s' \<and> replay_ends b s'"
proof (induction "replay_work s" arbitrary: s rule: less_induct)
  case less
  show ?case
  proof (cases "replay_ends b s")
    case False
    then obtain s1 where "replay_move b Ingress s = Some s1 \<or> replay_move b Worker s = Some s1"
      by (auto simp: replay_ends_def replay_move_def)
    then have 1: "replay_step b s s1" by (auto simp: replay_step_def)
    from less.hyps [OF replay_step_work [OF 1 less.prems] replay_step_inv [OF 1 less.prems]]
    show ?thesis using 1 by (meson converse_rtranclp_into_rtranclp)
  qed blast
qed

text \<open>A thread that cannot move has nothing to do.\<close>

lemma blocked:
  assumes "replay_inv b fi msgs s"
  shows "ingress_move b s = None \<Longrightarrow> rp_ingress s = [] \<and> rp_input s = []"
    and "worker_move b s = None \<Longrightarrow> rp_worker s = [] \<and> rp_held s = None \<and> pp_queue (n_processor (rp_node s)) = []"
proof -
  assume n: "ingress_move b s = None"
  have 1: "rp_ingress s = []"
  proof (cases "rp_ingress s")
    case (Cons x rest)
    then obtain h m where x: "rp_ingress s = (h, m) # rest" by (cases x) simp
    from assms x show ?thesis by (cases rule: ingress_call_moves) (use n in simp_all)
  qed
  with n show "rp_ingress s = [] \<and> rp_input s = []" by (simp add: ingress_move_def split: list.splits)
next
  assume n: "worker_move b s = None"
  have 1: "rp_worker s = []"
  proof (cases "rp_worker s")
    case (Cons x rest)
    then obtain h m where x: "rp_worker s = (h, m) # rest" by (cases x) simp
    from assms x show ?thesis by (cases rule: worker_call_moves) (use n in simp_all)
  qed
  then have 2: "rp_held s = None" using n by (auto simp: worker_move_def split: option.splits prod.splits)
  with 1 n show "rp_worker s = [] \<and> rp_held s = None \<and> pp_queue (n_processor (rp_node s)) = []"
    by (simp add: worker_move_def processLoop_step_def split: list.splits)
qed

text \<open>At the end nothing is under way.\<close>

lemma replay_ended:
  assumes "replay_inv b fi msgs s" and "replay_ends b s"
  shows "rp_ingress s = [] \<and> rp_input s = [] \<and> rp_worker s = [] \<and> rp_held s = None \<and> pp_queue (n_processor (rp_node s)) = []"
  using blocked [OF assms(1)] assms(2) by (simp add: replay_ends_def)

section \<open>The history at the end\<close>

lemma history_at_end:
  assumes "replay_inv b fi msgs s" and "replay_ends b s"
  shows "history s \<in> shuffles (faults fi (packets_in msgs)) (map worked (passed fi (packets_in msgs)))"
proof -
  obtain seen I W where "accounts fi msgs s seen I W" using assms(1) by (auto simp: replay_inv_def)
  with replay_ended [OF assms] show ?thesis by (auto simp: accounts_def)
qed

lemma recording_at_end:
  assumes "replay_inv True fi msgs s" and "replay_ends True s"
  shows "recorder_snapshot (n_recorder (rp_node s)) = numbered 0 (packets_in msgs)"
proof -
  have "recorded True msgs s" using assms(1) by (simp add: replay_inv_def)
  then show ?thesis using replay_ended [OF assms] by (auto simp: recorded_def recorder_snapshot_def)
qed

text \<open>Each number \<open>0 .. n-1\<close> is stored once.\<close>

lemma drawn_at_end:
  assumes "replay_inv b fi msgs s" and "replay_ends b s"
  shows "drawn_outcomes s = col_outcomes (n_collector (rp_node s))"
  using replay_ended [OF assms] assms(1) by (simp add: replay_inv_def replay_wf_def drawn_outcomes_def)

lemma numbers_at_end:
  assumes "replay_inv b fi msgs s" and "replay_ends b s"
  shows "mset (map ro_sequence (col_outcomes (n_collector (rp_node s)))) =
    mset (map of_nat [0..<length (col_outcomes (n_collector (rp_node s)))])"
  using drawn_at_end [OF assms] assms(1) by (simp add: replay_inv_def replay_wf_def numbers_ok_def)

text \<open>They are stored in order when the two threads never hold an outcome at the same time.\<close>

definition in_order :: "replay_run \<Rightarrow> bool" where
  "in_order s \<longleftrightarrow> map ro_sequence (drawn_outcomes s) = map of_nat [0..<length (drawn_outcomes s)]"

definition contended :: "replay_run \<Rightarrow> bool" where
  "contended s \<longleftrightarrow> rp_ingress_drawn s \<noteq> None \<and> rp_worker_drawn s \<noteq> None"

lemma start_in_order: "replay_start fi msgs s \<Longrightarrow> in_order s"
  by (simp add: replay_start_def in_order_def drawn_outcomes_def ReplayOutcomeCollector_new_def)

lemma draw_in_order:
  assumes "in_order s" and "numbers_ok s" and "collector_draw h m (n_collector (rp_node s)) = Some (outcome, c)"
    and "drawn_outcomes s' = drawn_outcomes s @ [outcome]"
  shows "in_order s'"
  using assms draw_keys(1) [OF assms(3)] by (simp add: in_order_def numbers_ok_def)

lemma step_in_order:
  assumes "replay_step b s s'" and "replay_inv b fi msgs s" and "in_order s" and "\<not> contended s" and "\<not> contended s'"
  shows "in_order s'"
proof -
  have num: "numbers_ok s" using assms(2) by (simp add: replay_inv_def replay_wf_def)
  from assms(1,2) show ?thesis
  proof (cases rule: replay_step_cases)
    case ingress_draw
    with assms(5) have "rp_worker_drawn s = None" by (simp add: contended_def)
    then show ?thesis
      using ingress_draw(2,4) draw_keys(1) [OF ingress_draw(3)]
      by (intro draw_in_order [OF assms(3) num ingress_draw(3)]) (simp add: drawn_outcomes_def)
  next
    case worker_draw
    then show ?thesis
      using worker_draw(2,4) draw_keys(1) [OF worker_draw(3)]
      by (intro draw_in_order [OF assms(3) num worker_draw(3)]) (simp add: drawn_outcomes_def)
  qed (use assms(3,4) in \<open>auto simp: in_order_def drawn_outcomes_def collector_push_def call_effect_def contended_def\<close>)
qed

text \<open>A thread that never has an outcome to report never draws a number.\<close>

lemma not_contended:
  assumes "replay_inv b fi msgs s" and "faults fi (packets_in msgs) = [] \<or> map worked (passed fi (packets_in msgs)) = []"
  shows "\<not> contended s"
proof
  assume "contended s"
  then have k: "todo_keys (rp_ingress s) \<noteq> []" "todo_keys (rp_worker s) \<noteq> []"
    using assms(1) by (auto simp: contended_def replay_inv_def replay_wf_def drawn_ok_def)
  obtain seen I W where acc: "accounts fi msgs s seen I W" using assms(1) by (auto simp: replay_inv_def)
  have "faults fi (seen @ ps) = faults fi seen @ faults (injector_after fi seen) ps"
    "passed fi (seen @ ps) = passed fi seen @ passed (injector_after fi seen) ps" for ps
    by (induction seen arbitrary: fi) simp_all
  then have "faults fi seen = [] \<or> map worked (passed fi seen) = []" using acc assms(2) by (auto simp: accounts_def)
  with acc k show False unfolding accounts_def by (metis append_is_Nil_conv)
qed

lemma uncontended_in_order:
  assumes "(replay_step b)\<^sup>*\<^sup>* s t" and "rx_stream msgs" and "replay_start fi msgs s"
    and "faults fi (packets_in msgs) = [] \<or> map worked (passed fi (packets_in msgs)) = []"
  shows "in_order t"
  using assms(1)
proof (induction rule: rtranclp_induct)
  case (step t u)
  have inv: "replay_inv b fi msgs t" using replaying.reachable_invariant [OF conjI [OF assms(2,3)] step(1)] .
  show ?case
    using step_in_order [OF step(2) inv step(3)] not_contended [OF inv assms(4)]
      not_contended [OF replay_step_inv [OF step(2) inv] assms(4)] .
qed (rule start_in_order [OF assms(3)])

text \<open>Then equal histories are equal lists of outcomes.\<close>

lemma outcomes_by_history:
  assumes "map outcome_key xs = map outcome_key ys" and "map ro_sequence xs = map ro_sequence ys"
  shows "xs = ys"
  using assms
proof (induction xs arbitrary: ys)
  case (Cons x xs)
  then obtain y ys' where ys: "ys = y # ys'" by (cases ys) auto
  have "x = y" using Cons.prems ys by (cases x; cases y) (simp add: outcome_key_def)
  with Cons ys show ?case by simp
qed simp

lemma outcomes_equal:
  assumes "replay_inv b fi msgs s" and "replay_ends b s" and "in_order s"
    and "replay_inv b' fi' msgs' t" and "replay_ends b' t" and "in_order t" and "history s = history t"
  shows "col_outcomes (n_collector (rp_node s)) = col_outcomes (n_collector (rp_node t))"
proof -
  have "length (history s) = length (history t)" using assms(7) by simp
  then have "length (col_outcomes (n_collector (rp_node s))) = length (col_outcomes (n_collector (rp_node t)))"
    by (simp add: history_def)
  with assms(3,6,7) show ?thesis
    by (intro outcomes_by_history) (simp_all add: history_def in_order_def drawn_at_end [OF assms(1,2)] drawn_at_end [OF assms(4,5)])
qed

lemma packets_in_recording: "packets_in (replay (numbered 0 ps)) = ps"
  by (simp add: packets_in_replay)

lemma recording_stream: "rx_stream msgs \<Longrightarrow> rx_stream (replay (numbered 0 (packets_in msgs)))"
proof -
  assume a: "rx_stream msgs"
  let ?r = "replay (numbered 0 (packets_in msgs))"
  have "length ?r = length msgs" using rx_stream_packets [OF a] by (simp add: replay_def)
  then show ?thesis using a replay_typed [of _ "numbered 0 (packets_in msgs)"] by (auto simp: rx_stream_def)
qed

section \<open>Packets published one by one\<close>

text \<open>
  The failure tests publish a packet only when as many outcomes have been stored as packets were published
  before it; \<open>n\<close> is the number of packets of the run.
\<close>

definition paced_step :: "bool \<Rightarrow> nat \<Rightarrow> replay_run \<Rightarrow> replay_run \<Rightarrow> bool" where
  "paced_step b n s s' \<longleftrightarrow> replay_step b s s' \<and>
     (rp_input s' \<noteq> rp_input s \<longrightarrow> length (history s) + length (rp_input s) = n)"

definition paced_inv :: "bool \<Rightarrow> FailureInjector \<Rightarrow> Message list \<Rightarrow> replay_run \<Rightarrow> bool" where
  "paced_inv b fi msgs s \<longleftrightarrow> replay_inv b fi msgs s \<and> in_order s \<and>
     history s = take (length (history s)) (verdicts fi (packets_in msgs)) \<and>
     length msgs \<le> length (history s) + length (rp_input s) + 1"

lemma step_history:
  assumes "replay_step b s s'" and "replay_inv b fi msgs s"
  shows "history s' = history s \<or> (\<exists>x. history s' = history s @ [x]) \<and> rp_input s' = rp_input s"
  using assms
proof (cases rule: replay_step_cases)
  case (ingress_draw h m rest outcome c)
  then show ?thesis using draw_keys(1) by (fastforce simp: history_def)
next
  case (worker_draw h m rest outcome c)
  then show ?thesis using draw_keys(1) by (fastforce simp: history_def)
next
  case (ingress_store x rest outcome)
  then have "history s' = history s @ [outcome_key outcome]" by (simp add: history_def collector_push_def)
  moreover have "rp_input s' = rp_input s" using ingress_store by simp
  ultimately show ?thesis by blast
next
  case (worker_store x rest outcome)
  then have "history s' = history s @ [outcome_key outcome]" by (simp add: history_def collector_push_def)
  moreover have "rp_input s' = rp_input s" using worker_store by simp
  ultimately show ?thesis by blast
qed (simp_all add: history_def call_effect_def)

lemma step_input: "replay_step b s s' \<Longrightarrow> replay_inv b fi msgs s \<Longrightarrow> length (rp_input s) \<le> Suc (length (rp_input s'))"
  by (erule replay_step_cases) simp_all

lemma take_verdicts: "verdicts fi (take n ps) = take n (verdicts fi ps)"
  by (induction ps arbitrary: fi n) (simp_all add: take_Cons split: nat.split)

lemma mset_verdicts: "mset (verdicts fi ps) = mset (faults fi ps) + mset (map worked (passed fi ps))"
  using mset_shuffles [OF verdicts_shuffle] .

text \<open>How many outcomes are stored and how many are under way, by the number of packets published.\<close>

lemma history_count:
  assumes "replay_inv b fi msgs s" and "accounts fi msgs s seen I W"
  shows "length (history s) + length (todo_keys (rp_ingress s)) + length (todo_keys (rp_worker s)) +
      length (option_list (rp_held s) @ pp_queue (n_processor (rp_node s))) = length seen"
    and "length msgs = length seen + length (todo_rx ProcessorRx (rp_ingress s)) + length (rp_input s)"
proof -
  let ?p = "n_processor (rp_node s)"
  have st: "rx_stream msgs" "rx_stream (rp_input s)" using assms(1) by (simp_all add: replay_inv_def replay_wf_def)
  have I: "I @ todo_keys (rp_ingress s) = faults fi seen"
    and W: "W @ todo_keys (rp_worker s) @ map worked (option_list (rp_held s) @ pp_queue ?p) = map worked (passed fi seen)"
    and ps: "packets_in msgs = seen @ todo_rx ProcessorRx (rp_ingress s) @ packets_in (rp_input s)"
    and h: "length (history s) = length I + length W" using assms(2) length_shuffles by (auto simp: accounts_def)
  have "length I + length (todo_keys (rp_ingress s)) = length (faults fi seen)" using I by (metis length_append)
  moreover have "length W + length (todo_keys (rp_worker s)) + length (option_list (rp_held s) @ pp_queue ?p) = length (passed fi seen)"
    using W by (metis add.assoc length_append length_map)
  moreover have "length (faults fi seen) + length (passed fi seen) = length seen"
    using length_shuffles [OF verdicts_shuffle [of fi seen]] by simp
  ultimately show "length (history s) + length (todo_keys (rp_ingress s)) + length (todo_keys (rp_worker s)) +
      length (option_list (rp_held s) @ pp_queue ?p) = length seen" using h by simp
  show "length msgs = length seen + length (todo_rx ProcessorRx (rp_ingress s)) + length (rp_input s)"
    using ps rx_stream_packets st by (metis add.assoc length_append)
qed

lemma paced_not_contended:
  assumes "replay_inv b fi msgs s" and "length msgs \<le> length (history s) + length (rp_input s) + 1"
  shows "\<not> contended s"
proof
  assume "contended s"
  then obtain x xs y ys where "rp_ingress s = x # xs" "task_keys x \<noteq> []" "rp_worker s = y # ys" "task_keys y \<noteq> []"
    using assms(1) by (auto simp: contended_def replay_inv_def replay_wf_def drawn_ok_def)
  then have "length (todo_keys (rp_ingress s)) \<ge> 1" "length (todo_keys (rp_worker s)) \<ge> 1"
    by (simp_all add: Suc_le_eq)
  moreover obtain seen I W where "accounts fi msgs s seen I W" using assms(1) by (auto simp: replay_inv_def)
  ultimately show False using history_count [OF assms(1)] assms(2) by fastforce
qed

text \<open>Once there is an outcome for every packet published, they are the outcomes of these packets.\<close>

lemma paced_full:
  assumes "replay_inv b fi msgs s" and "length msgs \<le> length (history s) + length (rp_input s)"
  shows "mset (history s) = mset (take (length (history s)) (verdicts fi (packets_in msgs)))"
proof -
  obtain seen I W where acc: "accounts fi msgs s seen I W" using assms(1) by (auto simp: replay_inv_def)
  note c = history_count [OF assms(1) acc]
  have "length (history s) = length seen" "length (todo_keys (rp_ingress s)) = 0" "length (todo_keys (rp_worker s)) = 0"
    "length (option_list (rp_held s) @ pp_queue (n_processor (rp_node s))) = 0" using c assms(2) by linarith+
  then have "mset (history s) = mset (verdicts fi seen)" "seen = take (length (history s)) (packets_in msgs)"
    using acc by (auto simp: accounts_def mset_verdicts dest: mset_shuffles)
  then show ?thesis by (simp add: take_verdicts [symmetric])
qed

lemma paced_step_inv:
  assumes "paced_step b (length msgs) s s'" and "paced_inv b fi msgs s"
  shows "paced_inv b fi msgs s'"
proof -
  have step: "replay_step b s s'" and inv: "replay_inv b fi msgs s" and ord: "in_order s"
    and pace: "length msgs \<le> length (history s) + length (rp_input s) + 1"
    and hist: "history s = take (length (history s)) (verdicts fi (packets_in msgs))"
    using assms by (simp_all add: paced_step_def paced_inv_def)
  note inv' = replay_step_inv [OF step inv]
  have wait: "rp_input s' \<noteq> rp_input s \<Longrightarrow> length (history s) + length (rp_input s) = length msgs"
    using assms(1) by (simp add: paced_step_def)
  have "length msgs \<le> length (history s') + length (rp_input s') + 1 \<and>
    history s' = take (length (history s')) (verdicts fi (packets_in msgs))"
    using step_history [OF step inv]
  proof
    assume h: "history s' = history s"
    then show ?thesis using pace hist wait step_input [OF step inv] by (cases "rp_input s' = rp_input s") simp_all
  next
    assume "(\<exists>x. history s' = history s @ [x]) \<and> rp_input s' = rp_input s"
    then obtain x where x: "history s' = history s @ [x]" "rp_input s' = rp_input s" by blast
    let ?v = "verdicts fi (packets_in msgs)" and ?n = "length (history s)"
    have full: "mset (history s') = mset (take (Suc ?n) ?v)" using paced_full [OF inv'] pace x by simp
    then have n: "?n < length ?v" using mset_eq_length [OF full] x by simp
    have "add_mset x (mset (take ?n ?v)) = add_mset (?v ! ?n) (mset (take ?n ?v))"
      using full x hist n by (simp add: take_Suc_conv_app_nth)
    then have "history s' = take (Suc ?n) ?v" using x hist n by (simp add: take_Suc_conv_app_nth)
    moreover have "length (history s') = Suc ?n" using x by simp
    ultimately show ?thesis using x(2) pace by simp
  qed
  moreover from this have "in_order s'"
    using step_in_order [OF step inv ord] paced_not_contended [OF inv pace] paced_not_contended [OF inv'] by blast
  ultimately show ?thesis using inv' by (simp add: paced_inv_def)
qed

interpretation pacing: transition_system "\<lambda>s. rx_stream msgs \<and> replay_start fi msgs s" "paced_step b (length msgs)" "paced_inv b fi msgs"
  for b fi msgs
proof unfold_locales
  show "rx_stream msgs \<and> replay_start fi msgs s \<Longrightarrow> paced_inv b fi msgs s" for s
    using replay_start_inv start_in_order
    by (auto simp: paced_inv_def replay_start_def [of _ _ s] history_def ReplayOutcomeCollector_new_def)
qed (rule paced_step_inv)

lemma paced_history:
  assumes "paced_inv b fi msgs s" and "replay_ends b s"
  shows "history s = verdicts fi (packets_in msgs)"
proof -
  have inv: "replay_inv b fi msgs s" using assms(1) by (simp add: paced_inv_def)
  have "mset (history s) = mset (verdicts fi (packets_in msgs))"
    using mset_shuffles [OF history_at_end [OF inv assms(2)]] by (simp add: mset_verdicts)
  then have "length (history s) = length (verdicts fi (packets_in msgs))" by (rule mset_eq_length)
  moreover have "history s = take (length (history s)) (verdicts fi (packets_in msgs))"
    using assms(1) by (simp add: paced_inv_def)
  ultimately show ?thesis by simp
qed

text \<open>A run in this pace is never stuck: when nothing else can move, the next packet may be published.\<close>

lemma worker_input:
  "worker_move b s = Some s' \<Longrightarrow> rp_input s' = rp_input s"
  by (auto simp: worker_move_def split: list.splits option.splits prod.splits loop_step.splits)

lemma paced_progress:
  assumes "paced_inv b fi msgs s" and "\<not> replay_ends b s"
  shows "\<exists>s'. paced_step b (length msgs) s s'"
proof (cases "worker_move b s")
  case (Some s')
  then have "replay_step b s s'" by (auto simp: replay_step_def replay_move_def intro!: exI [of _ Worker])
  then show ?thesis using worker_input [OF Some] by (auto simp: paced_step_def)
next
  case None
  then obtain s' where i: "ingress_move b s = Some s'" using assms(2) by (auto simp: replay_ends_def)
  then have step: "replay_step b s s'" by (auto simp: replay_step_def replay_move_def intro!: exI [of _ Ingress])
  have inv: "replay_inv b fi msgs s" using assms(1) by (simp add: paced_inv_def)
  show ?thesis
  proof (cases "rp_input s' = rp_input s")
    case True
    with step show ?thesis by (auto simp: paced_step_def)
  next
    case False
    with i have quiet: "rp_ingress s = []" by (auto simp: ingress_move_def split: list.splits)
    obtain seen I W where "accounts fi msgs s seen I W" using inv by (auto simp: replay_inv_def)
    from history_count [OF inv this] have "length (history s) + length (rp_input s) = length msgs"
      using quiet blocked(2) [OF inv None] by simp
    with step show ?thesis by (auto simp: paced_step_def)
  qed
qed

lemma paced_can_end:
  "paced_inv b fi msgs s \<Longrightarrow> \<exists>s'. (paced_step b (length msgs))\<^sup>*\<^sup>* s s' \<and> replay_ends b s'"
proof (induction "replay_work s" arbitrary: s rule: less_induct)
  case less
  show ?case
  proof (cases "replay_ends b s")
    case False
    then obtain s1 where 1: "paced_step b (length msgs) s s1" using paced_progress [OF less.prems] by blast
    then have "replay_work s1 < replay_work s" using less.prems replay_step_work by (auto simp: paced_step_def paced_inv_def)
    from less.hyps [OF this paced_step_inv [OF 1 less.prems]] show ?thesis
      using 1 by (meson converse_rtranclp_into_rtranclp)
  qed blast
qed

section \<open>Properties\<close>

text \<open>
  \<^bold>\<open>C4\<close> Replay determinism under every schedule. Let the ingress thread and the worker of a runtime handle
  at most 1024 received packets in any interleaving to the end, and let another runtime with the
  same failure policy, scheduled in any other way, handle the replay of what the first recorded. The recording is the
  ingress stream; the histories of both runs are interleavings of the same two sequences, the injected
  drops and the worker's outcomes, which the packets and the policy alone determine; both have the same outcomes (type,
  lifecycle and drop reason, with their multiplicities) under the sequence numbers \<open>0 .. n-1\<close>, each once; and when the policy injects no fault into this stream, or
  one into every packet, the replay stores exactly the outcomes of the original run, sequence numbers included.
\<close>

theorem replay_determinism:
  assumes "rx_messages msgs \<and> length msgs \<le> 1024"
    and "replay_start fi msgs s" and "(replay_step True)\<^sup>*\<^sup>* s t" and "replay_ends True t"
    and "replay_start fi (replay (recorder_snapshot (n_recorder (rp_node t)))) s'"
    and "(replay_step False)\<^sup>*\<^sup>* s' t'" and "replay_ends False t'"
  shows "map rr_packet (recorder_snapshot (n_recorder (rp_node t))) = packets_in msgs \<and>
    (let F = faults fi (packets_in msgs); W = map worked (passed fi (packets_in msgs)) in
     history t \<in> shuffles F W \<and> history t' \<in> shuffles F W \<and> mset (history t') = mset (history t) \<and>
     mset (map ro_sequence (col_outcomes (n_collector (rp_node t')))) = mset (map of_nat [0..<length msgs]) \<and>
     (F = [] \<or> W = [] \<longrightarrow> col_outcomes (n_collector (rp_node t')) = col_outcomes (n_collector (rp_node t))))"
proof -
  have stream: "rx_stream msgs" using assms(1) rx_streamI by blast
  have inv: "replay_inv True fi msgs t" using replaying.reachable_invariant stream assms(2,3) by blast
  have rec: "recorder_snapshot (n_recorder (rp_node t)) = numbered 0 (packets_in msgs)"
    by (rule recording_at_end [OF inv assms(4)])
  have inv': "replay_inv False fi (replay (numbered 0 (packets_in msgs))) t'"
    using replaying.reachable_invariant recording_stream [OF stream] assms(5,6) unfolding rec by blast
  note h = history_at_end [OF inv assms(4)]
  note h' = history_at_end [OF inv' assms(7), unfolded packets_in_recording]
  have eq: "col_outcomes (n_collector (rp_node t')) = col_outcomes (n_collector (rp_node t))"
    if 0: "faults fi (packets_in msgs) = [] \<or> map worked (passed fi (packets_in msgs)) = []"
  proof -
    have "in_order t" by (rule uncontended_in_order [OF assms(3) stream assms(2) 0])
    moreover have "in_order t'"
      using uncontended_in_order [OF assms(6) recording_stream [OF stream]] assms(5) 0 by (simp add: rec packets_in_recording)
    moreover have "history t' = history t" using 0 h h' by auto
    ultimately show ?thesis using outcomes_equal [OF inv' assms(7) _ inv assms(4)] by blast
  qed
  have "length (history t') = length (verdicts fi (packets_in msgs))"
    using length_shuffles [OF h'] length_shuffles [OF verdicts_shuffle] by metis
  then have "length (col_outcomes (n_collector (rp_node t'))) = length msgs"
    using rx_stream_packets [OF stream] by (simp add: history_def)
  with numbers_at_end [OF inv' assms(7)]
  have num: "mset (map ro_sequence (col_outcomes (n_collector (rp_node t')))) = mset (map of_nat [0..<length msgs])" by simp
  show ?thesis
    using rec h h' eq num mset_shuffles [OF h] mset_shuffles [OF h'] by (simp add: Let_def)
qed

text \<open>
  \<^bold>\<open>C27\<close> Replay of a paced run of at most 1024 received packets is exact: when every packet is published only after the outcomes of all packets
  before it have been stored (in the original run and in the replay), both runs store the same outcomes in the same
  order, namely the outcome that policy and packet determine for each packet in the order of reception,
  whatever faults the policy injects.
\<close>

theorem paced_replay_exact:
  assumes "rx_messages msgs \<and> length msgs \<le> 1024"
    and "replay_start fi msgs s" and "(paced_step True (length msgs))\<^sup>*\<^sup>* s t" and "replay_ends True t"
    and "replay_start fi (replay (recorder_snapshot (n_recorder (rp_node t)))) s'"
    and "(paced_step False (length (recorder_snapshot (n_recorder (rp_node t)))))\<^sup>*\<^sup>* s' t'" and "replay_ends False t'"
  shows "history t = verdicts fi (packets_in msgs) \<and>
    col_outcomes (n_collector (rp_node t')) = col_outcomes (n_collector (rp_node t))"
proof -
  have stream: "rx_stream msgs" using assms(1) rx_streamI by blast
  have inv: "paced_inv True fi msgs t" using pacing.reachable_invariant stream assms(2,3) by blast
  then have rinv: "replay_inv True fi msgs t" by (simp add: paced_inv_def)
  have rec: "recorder_snapshot (n_recorder (rp_node t)) = numbered 0 (packets_in msgs)"
    by (rule recording_at_end [OF rinv assms(4)])
  let ?r = "replay (numbered 0 (packets_in msgs))"
  have "(paced_step False (length ?r))\<^sup>*\<^sup>* s' t'" using assms(6) by (simp add: rec replay_def)
  then have inv': "paced_inv False fi ?r t'"
    using pacing.reachable_invariant recording_stream [OF stream] assms(5) unfolding rec by blast
  note h = paced_history [OF inv assms(4)]
  note h' = paced_history [OF inv' assms(7), unfolded packets_in_recording]
  have "replay_inv False fi ?r t'" "in_order t'" "in_order t" using inv inv' by (simp_all add: paced_inv_def)
  then show ?thesis using outcomes_equal [OF _ assms(7) _ rinv assms(4)] h h' by simp
qed

text \<open>
  Runs end: with \<open>n\<close> packets, at most 1024, to publish no run has more than \<open>9 n\<close> moves, and every state of a run
  can be continued to an end; there nothing is under way, so every packet has its outcome.
\<close>

theorem replay_runs_end:
  assumes "rx_messages msgs \<and> length msgs \<le> 1024" and "replay_start fi msgs s" and "(replay_step b ^^ k) s t"
  shows "k \<le> 9 * length msgs \<and>
    (\<exists>t'. (replay_step b)\<^sup>*\<^sup>* t t' \<and> replay_ends b t' \<and> length (col_outcomes (n_collector (rp_node t'))) = length msgs)"
proof -
  have stream: "rx_stream msgs" using assms(1) rx_streamI by blast
  have inv: "replay_inv b fi msgs s" by (rule replay_start_inv [OF stream assms(2)])
  have "replay_work s = 9 * length msgs" using assms(2) by (simp add: replay_start_def replay_work_def)
  then have k: "k \<le> 9 * length msgs" and inv1: "replay_inv b fi msgs t"
    using replay_steps_work [OF assms(3) inv] by auto
  obtain t' where t': "(replay_step b)\<^sup>*\<^sup>* t t'" "replay_ends b t'" using replay_can_end [OF inv1] by blast
  have "(replay_step b)\<^sup>*\<^sup>* s t'" using assms(3) t'(1) by (meson relpowp_imp_rtranclp rtranclp_trans)
  then have inv2: "replay_inv b fi msgs t'" using replaying.steps_invariant inv by blast
  have "mset (history t') = mset (verdicts fi (packets_in msgs))"
    using mset_shuffles [OF history_at_end [OF inv2 t'(2)]] by (simp add: mset_verdicts)
  then have "length (history t') = length msgs" using mset_eq_length rx_stream_packets [OF stream] by fastforce
  with k t' show ?thesis by (auto simp: history_def)
qed

section \<open>Examples\<close>

definition replay_packet :: "u64 \<Rightarrow> Packet" where
  "replay_packet l = Packet_default\<lparr>pk_lifecycle_id := l, pk_timestamp_ms := 5, pk_payload := ''data''\<rparr>"

definition replay_rx :: "Packet \<Rightarrow> Message" where
  "replay_rx p = \<lparr>m_type = T_PacketRx, m_timestamp_ms = pk_timestamp_ms p, m_payload = P_Packet p\<rparr>"

text \<open>Loss of one lifecycle, the failure policy of the failure tests.\<close>

definition loss_of :: "u64 \<Rightarrow> FailureInjector" where
  "loss_of l = FailureInjector_new (FailureConfig_default\<lparr>fc_enabled := True,
     fc_lifecycle_rules := [\<lparr>rule_lifecycle_id = l, rule_type = InjectedLoss\<rparr>]\<rparr>)"

definition replay_demo :: "FailureInjector \<Rightarrow> Message list \<Rightarrow> replay_run" where
  "replay_demo fi msgs = \<lparr>rp_node = node_demo\<lparr>n_processor := PacketProcessor_new None None fi\<rparr>, rp_ingress = [],
     rp_worker = [], rp_ingress_drawn = None, rp_worker_drawn = None, rp_held = None, rp_input = msgs\<rparr>"

definition replay_traffic :: "Message list" where
  "replay_traffic = [replay_rx (replay_packet 9001), replay_rx (replay_packet 9002)]"

lemma replay_demo_start: "replay_start fi msgs (replay_demo fi msgs)"
  by (simp add: replay_start_def replay_demo_def node_demo_def PacketProcessor_new_def)

lemma replay_traffic_short: "rx_messages replay_traffic \<and> length replay_traffic \<le> 1024"
  by (simp add: rx_messages_def replay_traffic_def replay_rx_def well_typed_def)

lemma replay_traffic_stream: "rx_stream replay_traffic"
  by (simp add: rx_stream_def replay_traffic_def replay_rx_def well_typed_def MAX_QUEUE_SIZE_def)

lemma replay_traffic_packets: "packets_in replay_traffic = [replay_packet 9001, replay_packet 9002]"
  by (simp add: replay_traffic_def replay_rx_def)

lemma replay_demo_runs:
  assumes "rx_stream msgs"
  obtains t where "(replay_step b)\<^sup>*\<^sup>* (replay_demo fi msgs) t" and "replay_ends b t" and "replay_inv b fi msgs t"
  using replay_can_end [OF replay_start_inv [OF assms replay_demo_start]] replaying.steps_invariant
    replay_start_inv [OF assms replay_demo_start] by blast

theorem replay_determinism_witness:
  "\<exists>t t'. (replay_step True)\<^sup>*\<^sup>* (replay_demo (loss_of 7) replay_traffic) t \<and> replay_ends True t \<and>
     (replay_step False)\<^sup>*\<^sup>* (replay_demo (loss_of 7) (replay (recorder_snapshot (n_recorder (rp_node t))))) t' \<and> replay_ends False t' \<and>
     col_outcomes (n_collector (rp_node t')) = col_outcomes (n_collector (rp_node t)) \<and>
     history t' = [(OutcomeProcessed, 9001, Unknown), (OutcomeProcessed, 9002, Unknown)]"
proof -
  let ?fi = "loss_of 7"
  obtain t where t: "(replay_step True)\<^sup>*\<^sup>* (replay_demo ?fi replay_traffic) t" "replay_ends True t" "replay_inv True ?fi replay_traffic t"
    by (rule replay_demo_runs [OF replay_traffic_stream])
  let ?r = "replay (recorder_snapshot (n_recorder (rp_node t)))"
  have "rx_stream ?r" using recording_stream [OF replay_traffic_stream] by (simp add: recording_at_end [OF t(3,2)])
  then obtain t' where t': "(replay_step False)\<^sup>*\<^sup>* (replay_demo ?fi ?r) t'" "replay_ends False t'" by (rule replay_demo_runs)
  have f: "faults ?fi (packets_in replay_traffic) = []"
    "map worked (passed ?fi (packets_in replay_traffic)) = [(OutcomeProcessed, 9001, Unknown), (OutcomeProcessed, 9002, Unknown)]"
    by (simp_all add: replay_traffic_packets replay_packet_def loss_of_def FailureInjector_new_def FailureConfig_default_def
        inject_def no_failure_def worked_def PROCESSOR_MAX_PAYLOAD_SIZE_def)
  from replay_determinism [OF replay_traffic_short replay_demo_start t(1,2) replay_demo_start t']
  have "history t' = [(OutcomeProcessed, 9001, Unknown), (OutcomeProcessed, 9002, Unknown)]"
    "col_outcomes (n_collector (rp_node t')) = col_outcomes (n_collector (rp_node t))"
    by (simp_all add: Let_def f)
  with t(1,2) t' show ?thesis by blast
qed

theorem paced_replay_exact_witness:
  "\<exists>t t'. (paced_step True 2)\<^sup>*\<^sup>* (replay_demo (loss_of 9002) replay_traffic) t \<and> replay_ends True t \<and>
     history t = [(OutcomeProcessed, 9001, Unknown), (OutcomeDropped, 9002, SimulatedLoss)] \<and>
     (paced_step False 2)\<^sup>*\<^sup>* (replay_demo (loss_of 9002) (replay (recorder_snapshot (n_recorder (rp_node t))))) t' \<and>
     replay_ends False t' \<and> col_outcomes (n_collector (rp_node t')) = col_outcomes (n_collector (rp_node t))"
proof -
  let ?fi = "loss_of 9002"
  have len: "length replay_traffic = 2" by (simp add: replay_traffic_def)
  have can: "\<exists>t. (paced_step b (length msgs))\<^sup>*\<^sup>* (replay_demo ?fi msgs) t \<and> replay_ends b t" if "rx_stream msgs" for b msgs
    using paced_can_end pacing.start_invariant [OF conjI [OF that replay_demo_start]] by blast
  obtain t where t: "(paced_step True (length replay_traffic))\<^sup>*\<^sup>* (replay_demo ?fi replay_traffic) t" "replay_ends True t"
    using can [OF replay_traffic_stream] by blast
  have inv: "replay_inv True ?fi replay_traffic t"
    using pacing.reachable_invariant [OF conjI [OF replay_traffic_stream replay_demo_start] t(1)] by (simp add: paced_inv_def)
  let ?rec = "recorder_snapshot (n_recorder (rp_node t))"
  have rec: "?rec = numbered 0 (packets_in replay_traffic)" by (rule recording_at_end [OF inv t(2)])
  have r: "rx_stream (replay ?rec)" "length (replay ?rec) = length ?rec" "length ?rec = 2"
    using recording_stream [OF replay_traffic_stream] len rx_stream_packets [OF replay_traffic_stream]
    by (simp_all add: rec replay_def)
  obtain t' where t': "(paced_step False (length ?rec))\<^sup>*\<^sup>* (replay_demo ?fi (replay ?rec)) t'" "replay_ends False t'"
    using can [OF r(1)] r(2) by force
  have "verdicts ?fi (packets_in replay_traffic) = [(OutcomeProcessed, 9001, Unknown), (OutcomeDropped, 9002, SimulatedLoss)]"
    by (simp add: replay_traffic_packets replay_packet_def loss_of_def FailureInjector_new_def FailureConfig_default_def
        inject_def makeFailureResult_def no_failure_def worked_def fault_def PROCESSOR_MAX_PAYLOAD_SIZE_def Let_def)
  with paced_replay_exact [OF replay_traffic_short replay_demo_start t replay_demo_start t'] t t' r(3) len show ?thesis
    by (intro exI [of _ t] exI [of _ t']) simp
qed

theorem replay_runs_end_witness:
  "\<exists>t. (replay_step True)\<^sup>*\<^sup>* (replay_demo (loss_of 9002) replay_traffic) t \<and> replay_ends True t \<and>
     length (col_outcomes (n_collector (rp_node t))) = 2"
proof -
  have "(replay_step True ^^ 0) (replay_demo (loss_of 9002) replay_traffic) (replay_demo (loss_of 9002) replay_traffic)" by simp
  from replay_runs_end [OF replay_traffic_short replay_demo_start this] show ?thesis
    by (simp add: replay_traffic_def numeral_2_eq_2)
qed

lemma schedule_reachable: "(replay_step b)\<^sup>*\<^sup>* s (replay_schedule b ts s)"
proof (induction ts arbitrary: s)
  case (Cons t ts)
  show ?case
  proof (cases "replay_move b t s")
    case (Some s1)
    then have "replay_step b s s1" by (auto simp: replay_step_def)
    with Cons [of s1] Some show ?thesis by (simp add: replay_schedule_def converse_rtranclp_into_rtranclp)
  qed (use Cons [of s] in \<open>simp add: replay_schedule_def\<close>)
qed (simp add: replay_schedule_def)

text \<open>
  Without the pacing the order is not reproduced: with loss of the second lifecycle, one schedule of the same stream
  ends with the first packet's outcome first, another with the injected drop first.
\<close>

lemma replay_order_depends_on_schedule:
  "\<exists>t t'. (replay_step False)\<^sup>*\<^sup>* (replay_demo (loss_of 9002) replay_traffic) t \<and>
     (replay_step False)\<^sup>*\<^sup>* (replay_demo (loss_of 9002) replay_traffic) t' \<and> replay_ends False t \<and> replay_ends False t' \<and>
     history t = [(OutcomeProcessed, 9001, Unknown), (OutcomeDropped, 9002, SimulatedLoss)] \<and>
     history t' = [(OutcomeDropped, 9002, SimulatedLoss), (OutcomeProcessed, 9001, Unknown)]"
proof -
  let ?s = "replay_demo (loss_of 9002) replay_traffic"
  let ?t = "replay_schedule False (replicate 3 Ingress @ replicate 5 Worker @ replicate 6 Ingress) ?s"
  let ?t' = "replay_schedule False (replicate 9 Ingress @ replicate 5 Worker) ?s"
  have "history ?t = [(OutcomeProcessed, 9001, Unknown), (OutcomeDropped, 9002, SimulatedLoss)]" "replay_ends False ?t"
    by code_simp+
  moreover have "history ?t' = [(OutcomeDropped, 9002, SimulatedLoss), (OutcomeProcessed, 9001, Unknown)]" "replay_ends False ?t'"
    by code_simp+
  ultimately show ?thesis using schedule_reachable by blast
qed

end
