(* ===== verification/Packet_Parser.thy ===== *)
theory Packet_Parser
  imports Packet_Types
begin

text \<open>
  \<^verbatim>\<open>parsePacket\<close> (packet/PacketParser) reads the \<open>id\<close> and \<open>payload\<close> fields of a datagram;
  \<^verbatim>\<open>PacketValidator\<close> (packet/PacketValidator) decides whether a parsed packet is admitted. The parser
  is modelled with the exceptions its library calls can raise, and is proved never to let one
  escape.
\<close>

section \<open>Parser\<close>

text \<open>Subtraction of two \<^verbatim>\<open>size_t\<close> values.\<close>

definition size_sub :: "nat \<Rightarrow> nat \<Rightarrow> nat" where
  "size_sub a b = (if b \<le> a then a - b else 2 ^ 64 + a - b)"

text \<open>
  The value of a field whose key of length \<open>klen\<close> starts at \<open>pos\<close>: the text up to the next semicolon,
  or to the end of the data.
\<close>

definition field_value :: "string \<Rightarrow> nat \<Rightarrow> nat \<Rightarrow> exn + string" where
  "field_value data pos klen =
     (case str_find_from '';'' data pos of
        Some e \<Rightarrow> substr data (pos + klen) (size_sub e (pos + klen))
      | None \<Rightarrow> substr_to_end data (pos + klen))"

definition parsePacket :: "string \<Rightarrow> exn + Packet" where
  "parsePacket data =
     (let p = Packet_default\<lparr>pk_valid := False\<rparr> in
      if data = [] then Inr p
      else case str_find ''id='' data of
        None \<Rightarrow> Inr p
      | Some idPos \<Rightarrow>
        (case field_value data idPos 3 of
           Inl ex \<Rightarrow> Inl ex
         | Inr idStr \<Rightarrow>
           if idStr = [] then Inr p
           else case stoull idStr of
             Inl _ \<Rightarrow> Inr p
           | Inr i \<Rightarrow>
             let p = p\<lparr>pk_id := i\<rparr> in
             (case (case str_find ''payload='' data of
                      None \<Rightarrow> Inr (pk_payload p)
                    | Some payloadPos \<Rightarrow> field_value data payloadPos 8) of
                Inl ex \<Rightarrow> Inl ex
              | Inr payload \<Rightarrow>
                let p = p\<lparr>pk_payload := payload\<rparr> in
                Inr (p\<lparr>pk_payload_size := of_nat (length (pk_payload p)), pk_valid := True\<rparr>))))"

section \<open>Validator\<close>

datatype PacketRejectReason = RejectNone | InvalidFormat | EmptyPayload | MissingSource | PayloadTooLarge

record ValidationResult =
  vr_accepted :: bool
  vr_reason :: PacketRejectReason

fun reject_toString :: "PacketRejectReason \<Rightarrow> string" where
  "reject_toString RejectNone = ''none''"
| "reject_toString InvalidFormat = ''invalid_format''"
| "reject_toString EmptyPayload = ''empty_payload''"
| "reject_toString MissingSource = ''missing_source''"
| "reject_toString PayloadTooLarge = ''payload_too_large''"

definition MAX_PAYLOAD_SIZE :: nat where
  "MAX_PAYLOAD_SIZE = 512"

definition validate :: "Packet \<Rightarrow> ValidationResult" where
  "validate packet =
     (if \<not> pk_valid packet then \<lparr>vr_accepted = False, vr_reason = InvalidFormat\<rparr>
      else if pk_payload packet = [] \<or> list_all isspace (pk_payload packet)
      then \<lparr>vr_accepted = False, vr_reason = EmptyPayload\<rparr>
      else if pk_source_ip packet = [] then \<lparr>vr_accepted = False, vr_reason = MissingSource\<rparr>
      else if length (pk_payload packet) > MAX_PAYLOAD_SIZE
      then \<lparr>vr_accepted = False, vr_reason = PayloadTooLarge\<rparr>
      else \<lparr>vr_accepted = True, vr_reason = RejectNone\<rparr>)"

section \<open>Fields\<close>

lemma str_find_from_zero: "str_find_from pat s 0 = str_find pat s"
  by (simp add: str_find_from_def map_option_case split: option.split)

text \<open>A semicolon found from the start of a key lies behind the key, so the slice is within the data.\<close>

lemma semicolon_after_key:
  assumes key: "prefix key (drop pos data)" and no: "CHR '';'' \<notin> set key"
    and found: "str_find_from '';'' data pos = Some e"
  shows "pos + length key \<le> e \<and> e < length data"
proof -
  obtain i where i: "str_find '';'' (drop pos data) = Some i" "e = pos + i" "pos \<le> length data"
    using found by (auto simp: str_find_from_def split: if_splits)
  obtain rest where rest: "drop pos data = key @ rest" using key by (auto simp: prefix_def)
  have "str_find '';'' (drop pos data) = map_option (\<lambda>i. length key + i) (str_find '';'' rest)"
    unfolding rest by (rule str_find_skip [OF no])
  then have "length key \<le> i" using i(1) by (cases "str_find '';'' rest") auto
  moreover have "i < length (drop pos data)" using str_find_bound [OF i(1)] by simp
  ultimately show ?thesis using i by simp
qed

lemma field_value_ok:
  assumes "str_find key data = Some pos" and "CHR '';'' \<notin> set key" and klen: "klen = length key"
  obtains v where "field_value data pos klen = Inr v" and "CHR '';'' \<notin> set v"
    and "prefix v (drop (pos + klen) data)"
proof -
  have key: "prefix key (drop pos data)" and len: "pos + length key \<le> length data"
    using assms(1) str_find_prefix str_find_bound by auto
  obtain rest where rest: "drop pos data = key @ rest" using key by (auto simp: prefix_def)
  have rest': "drop (pos + length key) data = rest"
    using rest by (metis add.commute append_eq_conv_conj drop_drop)
  show ?thesis
  proof (cases "str_find_from '';'' data pos")
    case None
    then have "str_find '';'' (key @ rest) = None"
      using len rest by (simp add: str_find_from_def)
    then have "\<forall>j. \<not> prefix '';'' (drop j rest)"
      using str_find_skip [OF assms(2), of "[]" rest] str_find_None [of "'';''" rest] by simp
    then have "CHR '';'' \<notin> set rest"
      by (metis append_Cons append_Nil append_eq_conv_conj prefixI split_list)
    then show ?thesis
      using that [of rest] None len rest' klen by (simp add: field_value_def substr_to_end_def)
  next
    case (Some e)
    have e: "pos + length key \<le> e" "e < length data"
      using semicolon_after_key [OF key assms(2) Some] by auto
    obtain i where i: "str_find '';'' (drop pos data) = Some i" "e = pos + i"
      using Some by (auto simp: str_find_from_def split: if_splits)
    let ?n = "e - (pos + length key)"
    have "CHR '';'' \<notin> set (take ?n rest)"
    proof
      assume "CHR '';'' \<in> set (take ?n rest)"
      then obtain k where k: "k < ?n" "k < length rest" "rest ! k = CHR '';''"
        by (auto simp: in_set_conv_nth)
      have "drop (length key + k) (drop pos data) = drop k rest"
        using rest by simp
      then have "prefix '';'' (drop (length key + k) (drop pos data))"
        using k by (simp add: Cons_nth_drop_Suc [symmetric])
      moreover have "length key + k < i" using k(1) i(2) by simp
      ultimately show False using str_find_first [OF i(1)] by blast
    qed
    moreover have "field_value data pos (length key) = Inr (take ?n rest)"
      using Some e len rest' by (simp add: field_value_def substr_def size_sub_def)
    ultimately show ?thesis
      using that [of "take ?n rest"] rest' klen by (simp add: take_is_prefix)
  qed
qed

text \<open>Reading back a field that was written with its key, its value and a terminator.\<close>

lemma field_value_block:
  assumes "CHR '';'' \<notin> set key" and "CHR '';'' \<notin> set v" and "tail = [] \<or> hd tail = CHR '';''"
    and n: "n = length pre" and klen: "klen = length key"
  shows "field_value (pre @ key @ v @ tail) n klen = Inr v"
proof -
  let ?data = "pre @ key @ v @ tail"
  have kv: "CHR '';'' \<notin> set (key @ v)" using assms by simp
  have find: "str_find_from '';'' ?data (length pre) =
      map_option (\<lambda>i. length pre + i) (map_option (\<lambda>i. length (key @ v) + i) (str_find '';'' tail))"
    using str_find_skip [OF kv, of "[]" tail] by (simp add: str_find_from_def)
  show ?thesis
  proof (cases tail)
    case Nil
    then show ?thesis using find n klen by (simp add: field_value_def substr_to_end_def)
  next
    case (Cons c cs)
    then have "str_find '';'' tail = Some 0"
      using assms(3) by simp
    then show ?thesis
      using find n klen by (simp add: field_value_def substr_def size_sub_def)
  qed
qed

lemma digits_no_char: "\<not> isdigit c \<Longrightarrow> c \<notin> set (to_string w)"
  using nat_to_string_digits by (auto simp: to_string_def)

lemma parsePacket_cases:
  obtains (invalid) "parsePacket data = Inr Packet_default"
  | (valid) i payload where
      "parsePacket data = Inr (Packet_default\<lparr>pk_id := i, pk_payload := payload,
         pk_payload_size := of_nat (length payload), pk_valid := True\<rparr>)"
      and "CHR '';'' \<notin> set payload" and "length payload \<le> length data"
proof -
  have default: "Packet_default\<lparr>pk_valid := False\<rparr> = Packet_default"
    by (simp add: Packet_default_def)
  show ?thesis
  proof (cases "str_find ''id='' data")
    case None
    then show ?thesis by (intro invalid) (simp add: parsePacket_def Let_def default)
  next
    case (Some idPos)
    then have ne: "data \<noteq> []" by auto
    obtain idStr where id: "field_value data idPos 3 = Inr idStr"
      by (rule field_value_ok [OF Some, of 3]) auto
    show ?thesis
    proof (cases "idStr = [] \<or> (\<exists>ex. stoull idStr = Inl ex)")
      case True
      with Some id ne show ?thesis
        by (intro invalid) (auto simp: parsePacket_def Let_def default)
    next
      case False
      then obtain i where i: "idStr \<noteq> []" "stoull idStr = Inr i" by (cases "stoull idStr") auto
      show ?thesis
      proof (cases "str_find ''payload='' data")
        case None
        with Some id i ne show ?thesis
          by (intro valid [where i = i and payload = "[]"]) (auto simp: parsePacket_def Let_def Packet_default_def)
      next
        case pp: (Some payloadPos)
        obtain v where v: "field_value data payloadPos 8 = Inr v" "CHR '';'' \<notin> set v"
          and pre: "prefix v (drop (payloadPos + 8) data)"
          by (rule field_value_ok [OF pp, of 8]) auto
        have "length v \<le> length data"
          using prefix_length_le [OF pre] by simp
        with Some id i ne pp v show ?thesis
          by (intro valid [where i = i and payload = v]) (auto simp: parsePacket_def Let_def Packet_default_def)
      qed
    qed
  qed
qed

section \<open>Properties\<close>

text \<open>
  The parser is total: on every datagram it returns a packet and lets no exception escape.
  Either the packet is the default one, marked invalid, or it is valid, its payload contains no
  field separator, is no longer than the datagram, and \<open>payload_size\<close> is its length; every other field
  is left at its default for the receiver to fill in.
\<close>

theorem parsePacket_total:
  "\<exists>p. parsePacket data = Inr p \<and>
     (if pk_valid p
      then p = Packet_default\<lparr>pk_id := pk_id p, pk_payload := pk_payload p,
                 pk_payload_size := of_nat (length (pk_payload p)), pk_valid := True\<rparr>
           \<and> CHR '';'' \<notin> set (pk_payload p) \<and> length (pk_payload p) \<le> length data
      else p = Packet_default)"
proof (cases rule: parsePacket_cases [of data])
  case invalid
  then show ?thesis by (simp add: Packet_default_def)
next
  case (valid i payload)
  then show ?thesis by (simp add: Packet_default_def)
qed

text \<open>
  \<^bold>\<open>C37\<close> Round trip: the text \<open>id=<n>;payload=<data>\<close>, alone or followed by further fields, parses to a
  valid packet with exactly that 64-bit identity and that payload, for every identity and every
  payload without a separator.
\<close>

theorem parsePacket_round_trip:
  assumes "CHR '';'' \<notin> set payload" and "tail = [] \<or> hd tail = CHR '';''"
  shows "parsePacket (''id='' @ to_string (i :: u64) @ '';payload='' @ payload @ tail) =
    Inr (Packet_default\<lparr>pk_id := i, pk_payload := payload,
           pk_payload_size := of_nat (length payload), pk_valid := True\<rparr>)"
proof -
  let ?data = "''id='' @ to_string i @ '';payload='' @ payload @ tail"
  let ?pre = "''id='' @ to_string i @ '';''"
  have noid: "CHR '';'' \<notin> set (to_string i)" and nop: "CHR ''p'' \<notin> set (to_string i)"
    by (auto intro!: digits_no_char simp: isdigit_def)
  have "str_find ''id='' ?data = Some 0"
    by (rule str_find_hit) simp
  moreover have "field_value ?data 0 3 = Inr (to_string i)"
    using field_value_block [of "''id=''" "to_string i" "'';payload='' @ payload @ tail" 0 "[]" 3] noid by simp
  moreover have "to_string i \<noteq> []" by (simp add: to_string_def)
  moreover have "stoull (to_string i) = Inr i" by (rule stoull_to_string)
  moreover have "str_find ''payload='' ?data = Some (length ?pre)"
  proof -
    have "CHR ''p'' \<notin> set ?pre" using nop by simp
    moreover have "str_find ''payload='' (''payload='' @ payload @ tail) = Some 0"
      by (rule str_find_hit) simp
    ultimately show ?thesis
      using str_find_skip [of "CHR ''p''" ?pre "''ayload=''" "''payload='' @ payload @ tail"] by simp
  qed
  moreover have "field_value ?data (length ?pre) 8 = Inr payload"
    using field_value_block [of "''payload=''" payload tail "length ?pre" ?pre 8] assms by simp
  ultimately show ?thesis
    by (simp add: parsePacket_def Let_def Packet_default_def del: str_find.simps)
qed

theorem parsePacket_round_trip_witness:
  "parsePacket (''id='' @ to_string (42 :: u64) @ '';payload='' @ ''hello'' @ '';foo=bar'') =
    Inr (Packet_default\<lparr>pk_id := 42, pk_payload := ''hello'', pk_payload_size := 5, pk_valid := True\<rparr>)"
proof -
  have 1: "CHR '';'' \<notin> set ''hello''" and 2: "'';foo=bar'' = [] \<or> hd '';foo=bar'' = CHR '';''" by simp_all
  show ?thesis using parsePacket_round_trip [OF 1 2, of 42] by simp
qed

text \<open>
  Admission: a packet is accepted exactly when it parsed, its payload has a character that is
  not white space and at most 512 bytes, and its source is known; a rejected packet is never
  reported with the reason \<open>none\<close>, and the reasons are tested in the order format, payload, source,
  size.
\<close>

theorem validate_accepts_iff:
  "(vr_accepted (validate p) \<longleftrightarrow>
      pk_valid p \<and> (\<exists>c \<in> set (pk_payload p). \<not> isspace c) \<and> pk_source_ip p \<noteq> [] \<and>
      length (pk_payload p) \<le> 512) \<and>
   (vr_reason (validate p) = RejectNone \<longleftrightarrow> vr_accepted (validate p)) \<and>
   (vr_reason (validate p) = PayloadTooLarge \<longleftrightarrow>
      pk_valid p \<and> (\<exists>c \<in> set (pk_payload p). \<not> isspace c) \<and> pk_source_ip p \<noteq> [] \<and>
      512 < length (pk_payload p))"
  by (auto simp: validate_def MAX_PAYLOAD_SIZE_def list_all_iff)

end
