(* ===== verification/Udp_Ingress.thy ===== *)
theory Udp_Ingress
  imports Concurrent_Runtime Packet_Parser
begin

text \<open>
  \<^verbatim>\<open>UdpReceiver\<close> (network/UdpReceiver): the socket's life cycle, the handling of one readable
  datagram (parse, validate, echo, publish) and the bounded read loop of one wake-up. What \<^verbatim>\<open>recvfrom\<close>
  answers to its \<open>n\<close>-th call is the function \<open>recv\<close>, the results of the calls that set up the socket are a
  record of answers, \<^verbatim>\<open>strerror\<close> is a parameter. Publishing is the parameter \<open>pub\<close>; the daemon's is
  \<open>daemon_publish\<close>. Error numbers are those of Linux, where \<^verbatim>\<open>EWOULDBLOCK\<close> is \<^verbatim>\<open>EAGAIN\<close>.
\<close>

section \<open>Definitions\<close>

datatype IngressMode = Blocking | NonBlocking

datatype UdpReadResult = ReadPacketProcessed | ReadNoData | ReadClosed | ReadError

record UdpReceiver =
  ur_port :: int
  ur_socket :: FileDescriptor
  ur_registry :: bool
  ur_running :: bool
  ur_joinable :: bool
  ur_lifecycle_gen :: LifecycleIdGenerator
  ur_mode :: IngressMode
  ur_recv_calls :: nat

definition UdpReceiver_new :: "int \<Rightarrow> bool \<Rightarrow> IngressMode \<Rightarrow> UdpReceiver" where
  "UdpReceiver_new port registry mode =
     \<lparr>ur_port = port, ur_socket = FileDescriptor_default, ur_registry = registry, ur_running = False,
      ur_joinable = False, ur_lifecycle_gen = LifecycleIdGenerator_new, ur_mode = mode, ur_recv_calls = 0\<rparr>"

subsection \<open>Setting up and closing the socket\<close>

record socket_answers =
  sa_socket :: int
  sa_bind :: int
  sa_getfl :: int
  sa_setfl :: int

definition err_line :: "string \<Rightarrow> env \<Rightarrow> env" where
  "err_line s e = e\<lparr>stderr_lines := stderr_lines e @ [s]\<rparr>"

definition close_socket :: "UdpReceiver \<Rightarrow> fd_world \<Rightarrow> UdpReceiver \<times> fd_world" where
  "close_socket r w = (let (d, w) = fd_reset (-1) UnknownFd (ur_socket r) w in (r\<lparr>ur_socket := d\<rparr>, w))"

definition initializeSocket ::
  "socket_answers \<Rightarrow> UdpReceiver \<Rightarrow> fd_world \<Rightarrow> env \<Rightarrow> UdpReceiver \<times> fd_world \<times> env" where
  "initializeSocket a r w e =
     (if sa_socket a < 0 then (r, w, err_line ''Failed to create socket'' e)
      else
        let (temp, w) = FileDescriptor_new (sa_socket a) (ur_registry r) UdpSocket w;
            (sock, temp, w) = fd_move_assign (ur_socket r) temp w;
            (temp, w) = fd_destroy temp w;
            r = r\<lparr>ur_socket := sock\<rparr> in
        if sa_bind a < 0 then
          let (r, w) = close_socket r w in (r, w, err_line ''Failed to bind socket'' e)
        else if ur_mode r = NonBlocking then
          (if sa_getfl a < 0 then
             let (r, w) = close_socket r w in (r, w, log_error ''Failed to get socket flags'' e)
           else if sa_setfl a < 0 then
             let (r, w) = close_socket r w in (r, w, log_error ''Failed to enable O_NONBLOCK'' e)
           else (r, w, log_info ''UDP receiver running in non-blocking mode'' e))
        else (r, w, log_info ''UDP receiver running in blocking mode'' e))"

definition udp_start ::
  "socket_answers \<Rightarrow> UdpReceiver \<Rightarrow> fd_world \<Rightarrow> env \<Rightarrow> UdpReceiver \<times> fd_world \<times> env" where
  "udp_start a r w e =
     (if ur_running r then (r, w, e)
      else let (r, w, e) = initializeSocket a r w e;
               r = r\<lparr>ur_running := True, ur_joinable := True\<rparr>
           in (r, w, e\<lparr>stdout_lines := stdout_lines e @ [''[UDP] Listening on port '' @ int_to_string (ur_port r)]\<rparr>))"

definition udp_stop :: "UdpReceiver \<Rightarrow> fd_world \<Rightarrow> env \<Rightarrow> UdpReceiver \<times> fd_world \<times> env" where
  "udp_stop r w e =
     (if \<not> ur_running r \<and> \<not> fd_valid (ur_socket r) \<and> \<not> ur_joinable r then (r, w, e)
      else
        let e = log_info ''[UDP][SHUTDOWN] Stop requested'' e;
            r = r\<lparr>ur_running := False\<rparr>;
            (r, w, e) = (if fd_valid (ur_socket r)
                         then let (r, w) = close_socket r w in (r, w, log_debug ''[UDP][SHUTDOWN] Socket closed'' e)
                         else (r, w, e));
            (r, e) = (if ur_joinable r
                      then (r\<lparr>ur_joinable := False\<rparr>,
                            log_info ''[UDP][SHUTDOWN] Worker thread stopped''
                              (log_info ''[UDP][SHUTDOWN] Waiting for worker thread'' e))
                      else (r, e))
        in (r, w, log_info ''[UDP][SHUTDOWN] UDP receiver stopped'' e))"

subsection \<open>Reading a datagram\<close>

datatype recv_answer = RecvError int | Datagram string u32 u16

definition EINTR :: int where "EINTR = 4"

definition EBADF :: int where "EBADF = 9"

definition EAGAIN :: int where "EAGAIN = 11"

definition BUFFER_SIZE :: nat where "BUFFER_SIZE = 1024"

definition inet_ntoa :: "u32 \<Rightarrow> string" where
  "inet_ntoa a = to_string (drop_bit 24 a) @ ''.'' @ to_string (drop_bit 16 a mod 256) @ ''.'' @
     to_string (drop_bit 8 a mod 256) @ ''.'' @ to_string (a mod 256)"

definition idle_message :: "u64 \<Rightarrow> Message" where
  "idle_message ts = \<lparr>m_type = T_IngressIdlePoll, m_timestamp_ms = ts, m_payload = P_IdlePoll \<lparr>ip_timestamp_ms = ts\<rparr>\<rparr>"

definition rx_message :: "Packet \<Rightarrow> Message" where
  "rx_message packet = \<lparr>m_type = T_PacketRx, m_timestamp_ms = pk_timestamp_ms packet, m_payload = P_Packet packet\<rparr>"

text \<open>The lines logged.\<close>

definition received_line :: "string \<Rightarrow> string" where
  "received_line data = ''[UDP] Packet received ('' @ nat_to_string (length data) @ '' bytes)''"

definition parse_drop_line :: "string \<Rightarrow> string" where
  "parse_drop_line data = ''[DROP][UDP][PARSE] len='' @ nat_to_string (length data) @ '' data=['' @ data @ '']''"

definition validation_drop_line :: "PacketRejectReason \<Rightarrow> string" where
  "validation_drop_line reason = ''[DROP][UDP][VALIDATION] Packet rejected: reason='' @ reject_toString reason"

definition handleDatagram ::
  "(Message \<Rightarrow> node \<Rightarrow> node delivery) \<Rightarrow> string \<Rightarrow> u32 \<Rightarrow> u16 \<Rightarrow> UdpReceiver \<Rightarrow> node \<Rightarrow>
     (UdpReadResult \<times> UdpReceiver \<times> node) delivery" where
  "handleDatagram pub data addr port r w =
     (let (ingress_ts, e) = nowNs (n_env w);
          e = log_info (received_line data) e;
          (lifecycle_id, gen) = next_id (ur_lifecycle_gen r);
          r = r\<lparr>ur_lifecycle_gen := gen\<rparr> in
      case parsePacket data of
        Inl ex \<Rightarrow> Raised ex
      | Inr packet \<Rightarrow>
          let packet = packet\<lparr>pk_lifecycle_id := lifecycle_id, pk_ingress_timestamp_ns := ingress_ts\<rparr> in
          if \<not> pk_valid packet then
            let (ts, e) = nowMs e in
            and_then (pub (drop_message ParseError ts 0 lifecycle_id) (with_env w e)) (\<lambda>w.
              Delivered (ReadPacketProcessed, r,
                with_env w (log_warn (parse_drop_line data) (n_env w))))
          else
            let (ts, e) = nowMs e;
                packet = packet\<lparr>pk_timestamp_ms := ts, pk_wire_size := of_nat (length data),
                                pk_source_ip := inet_ntoa addr, pk_source_port := port\<rparr>;
                result = validate packet in
            if \<not> vr_accepted result then
              let (ts, e) = nowMs e in
              and_then (pub (drop_message ValidationError ts (pk_id packet) lifecycle_id) (with_env w e)) (\<lambda>w.
                Delivered (ReadPacketProcessed, r,
                  with_env w (log_warn (validation_drop_line (vr_reason result)) (n_env w))))
            else
              let (sent, errno, e) = sys_sendto
                    \<lparr>dg_fd = d_fd (ur_socket r), dg_payload = data, dg_addr = addr, dg_port = port\<rparr> e in
              and_then (pub (rx_message packet) (with_env w e)) (\<lambda>w. Delivered (ReadPacketProcessed, r, w)))"

definition handleReadable ::
  "(Message \<Rightarrow> node \<Rightarrow> node delivery) \<Rightarrow> (nat \<Rightarrow> recv_answer) \<Rightarrow> (int \<Rightarrow> string) \<Rightarrow> UdpReceiver \<Rightarrow> node \<Rightarrow>
     (UdpReadResult \<times> UdpReceiver \<times> node) delivery" where
  "handleReadable pub recv strerror r w =
     (let answer = recv (ur_recv_calls r);
          r = r\<lparr>ur_recv_calls := Suc (ur_recv_calls r)\<rparr> in
      case answer of
        RecvError errno \<Rightarrow>
          if errno = EBADF then Delivered (ReadClosed, r\<lparr>ur_running := False\<rparr>, w)
          else if errno = EINTR then Delivered (ReadNoData, r, w)
          else if errno = EAGAIN then
            let (ts, e) = nowMs (n_env w) in
            and_then (pub (idle_message ts) (with_env w e)) (\<lambda>w. Delivered (ReadNoData, r, w))
          else Delivered (ReadError, r, with_env w (log_error (''[UDP] recvfrom failed: '' @ strerror errno) (n_env w)))
      | Datagram payload addr port \<Rightarrow> handleDatagram pub (take BUFFER_SIZE payload) addr port r w)"

text \<open>The thread of the blocking mode; \<open>stopped n\<close> tells whether \<open>stop()\<close> came before the \<open>n\<close>-th test of the flag.\<close>

fun udp_run ::
  "(Message \<Rightarrow> node \<Rightarrow> node delivery) \<Rightarrow> (nat \<Rightarrow> recv_answer) \<Rightarrow> (int \<Rightarrow> string) \<Rightarrow> (nat \<Rightarrow> bool) \<Rightarrow> nat \<Rightarrow> nat \<Rightarrow> UdpReceiver \<Rightarrow> node \<Rightarrow>
     (UdpReceiver \<times> node) delivery" where
  "udp_run pub recv strerror stopped 0 n r w = Unfinished"
| "udp_run pub recv strerror stopped (Suc fuel) n r w =
     (let r = (if stopped n then r\<lparr>ur_running := False\<rparr> else r) in
      if \<not> ur_running r then Delivered (r, w)
      else and_then (handleReadable pub recv strerror r w) (\<lambda>(_, r, w). udp_run pub recv strerror stopped fuel (Suc n) r w))"

definition MaxPacketsPerWakeup :: nat where "MaxPacketsPerWakeup = 256"

fun read_loop ::
  "(Message \<Rightarrow> node \<Rightarrow> node delivery) \<Rightarrow> (nat \<Rightarrow> recv_answer) \<Rightarrow> (int \<Rightarrow> string) \<Rightarrow> nat \<Rightarrow> nat \<Rightarrow> UdpReceiver \<Rightarrow> node \<Rightarrow>
     (nat \<times> UdpReceiver \<times> node) delivery" where
  "read_loop pub recv strerror 0 packets_processed r w = Delivered (packets_processed, r, w)"
| "read_loop pub recv strerror (Suc budget) packets_processed r w =
     and_then (handleReadable pub recv strerror r w) (\<lambda>(result, r, w).
       case result of
         ReadPacketProcessed \<Rightarrow> read_loop pub recv strerror budget (Suc packets_processed) r w
       | ReadNoData \<Rightarrow> Delivered (packets_processed, r,
           with_env w (log_debug (''[UDP] drained queue packets='' @ nat_to_string packets_processed) (n_env w)))
       | ReadClosed \<Rightarrow> Delivered (packets_processed, r, w)
       | ReadError \<Rightarrow> Delivered (packets_processed, r, w))"

definition processReadableEvent ::
  "(Message \<Rightarrow> node \<Rightarrow> node delivery) \<Rightarrow> (nat \<Rightarrow> recv_answer) \<Rightarrow> (int \<Rightarrow> string) \<Rightarrow> UdpReceiver \<Rightarrow> node \<Rightarrow>
     (nat \<times> UdpReceiver \<times> node) delivery" where
  "processReadableEvent pub recv strerror r w =
     and_then (read_loop pub recv strerror MaxPacketsPerWakeup 0 r w) (\<lambda>(packets_processed, r, w).
       Delivered (packets_processed, r,
         if packets_processed = MaxPacketsPerWakeup
         then with_env w (log_debug ''[UDP] receive budget exhausted'' (n_env w)) else w))"

definition UdpReady_onEvent ::
  "(Message \<Rightarrow> node \<Rightarrow> node delivery) \<Rightarrow> (nat \<Rightarrow> recv_answer) \<Rightarrow> (int \<Rightarrow> string) \<Rightarrow> UdpReceiver \<Rightarrow> node \<Rightarrow>
     (nat \<times> UdpReceiver \<times> node) delivery" where
  "UdpReady_onEvent pub recv strerror r w =
     processReadableEvent pub recv strerror r (with_env w (log_debug ''[EPOLL] UDP readable'' (n_env w)))"

section \<open>One datagram\<close>

text \<open>The datagrams that pass parser and validator.\<close>

definition accepted :: "string \<Rightarrow> bool" where
  "accepted data \<longleftrightarrow> (\<exists>p. parsePacket data = Inr p \<and> pk_valid p \<and> (\<exists>c \<in> set (pk_payload p). \<not> isspace c) \<and>
     length (pk_payload p) \<le> 512)"

definition echo_datagram :: "UdpReceiver \<Rightarrow> string \<Rightarrow> u32 \<Rightarrow> u16 \<Rightarrow> datagram" where
  "echo_datagram r data addr port =
     \<lparr>dg_fd = d_fd (ur_socket r), dg_payload = data, dg_addr = addr, dg_port = port\<rparr>"

lemma inet_ntoa_nonempty: "inet_ntoa a \<noteq> []"
  by (simp add: inet_ntoa_def)

lemma validate_source:
  "pk_valid p \<Longrightarrow> pk_source_ip p \<noteq> [] \<Longrightarrow>
     vr_accepted (validate p) \<longleftrightarrow> (\<exists>c \<in> set (pk_payload p). \<not> isspace c) \<and> length (pk_payload p) \<le> 512"
  by (auto simp: validate_def MAX_PAYLOAD_SIZE_def list_all_iff)

lemma handleDatagram_outcome:
  "\<exists>m e after. handleDatagram pub data addr port r w =
       and_then (pub m (with_env w e)) (\<lambda>w'. Delivered (ReadPacketProcessed,
         r\<lparr>ur_lifecycle_gen := ur_lifecycle_gen r + 1\<rparr>, with_env w' (after (n_env w')))) \<and>
     well_typed m \<and> m_type m \<in> publishes Ingress \<and> message_ids m = [ur_lifecycle_gen r] \<and>
     (m_type m = T_PacketRx \<longleftrightarrow> accepted data) \<and>
     send_calls e = send_calls (n_env w) @ (if accepted data then [echo_datagram r data addr port] else [])"
proof -
  obtain its e0 where ns: "nowNs (n_env w) = (its, e0)" by (cases "nowNs (n_env w)")
  let ?e1 = "log_info (received_line data) e0"
  have s1: "send_calls ?e1 = send_calls (n_env w)"
    using nowNs_frame(1) [of "n_env w"] ns by (simp add: log_defs frame_simps)
  obtain ts e2 where ms: "nowMs ?e1 = (ts, e2)" by (cases "nowMs ?e1")
  have s2: "send_calls e2 = send_calls (n_env w)" using nowMs_frame(1) [of ?e1] ms s1 by simp
  obtain ts' e3 where ms': "nowMs e2 = (ts', e3)" by (cases "nowMs e2")
  have s3: "send_calls e3 = send_calls (n_env w)" using nowMs_frame(1) [of e2] ms' s2 by simp
  have types: "m_type (drop_message a b c d) \<in> publishes Ingress" "m_type (rx_message p) \<in> publishes Ingress"
    "well_typed (rx_message p)" "message_ids (rx_message p) = [pk_lifecycle_id p]" "message_ids (drop_message a b c d) = [d]"
    "m_type (rx_message p) = T_PacketRx" for a b c d p
    by (simp_all add: publishes_def rx_message_def well_typed_def message_ids_def)
  obtain p where p: "parsePacket data = Inr p" by (cases rule: parsePacket_cases [of data]) auto
  let ?p = "p\<lparr>pk_lifecycle_id := ur_lifecycle_gen r, pk_ingress_timestamp_ns := its\<rparr>"
  let ?q = "?p\<lparr>pk_timestamp_ms := ts, pk_wire_size := of_nat (length data), pk_source_ip := inet_ntoa addr, pk_source_port := port\<rparr>"
  note unf = handleDatagram_def ns next_id_def p ms Let_def
  consider (parse) "\<not> pk_valid p" | (reject) "pk_valid p" "\<not> vr_accepted (validate ?q)" | (ok) "pk_valid p" "vr_accepted (validate ?q)"
    by blast
  then show ?thesis
  proof cases
    case parse
    then have "\<not> accepted data" by (auto simp: accepted_def p)
    then show ?thesis
      using parse s2 types(1) [of ParseError ts 0 "ur_lifecycle_gen r"]
      by (intro exI [of _ "drop_message ParseError ts 0 (ur_lifecycle_gen r)"] exI [of _ e2]
          exI [of _ "log_warn (parse_drop_line data)"])
        (simp add: unf types)
  next
    case reject
    then have "\<not> accepted data"
      using validate_source [of ?q] inet_ntoa_nonempty by (auto simp: accepted_def p)
    then show ?thesis
      using reject s3 types(1) [of ValidationError ts' "pk_id p" "ur_lifecycle_gen r"]
      by (intro exI [of _ "drop_message ValidationError ts' (pk_id p) (ur_lifecycle_gen r)"] exI [of _ e3]
          exI [of _ "log_warn (validation_drop_line (vr_reason (validate ?q)))"])
        (simp add: unf ms' types)
  next
    case ok
    then have acc: "accepted data"
      using validate_source [of ?q] inet_ntoa_nonempty by (auto simp: accepted_def p)
    obtain sent errno e4 where snd: "sys_sendto (echo_datagram r data addr port) e2 = (sent, errno, e4)"
      by (cases "sys_sendto (echo_datagram r data addr port) e2")
    then have "send_calls e4 = send_calls (n_env w) @ [echo_datagram r data addr port]"
      using s2 by (auto simp: sys_sendto_def split: prod.splits)
    with ok acc snd show ?thesis
      by (intro exI [of _ "rx_message ?q"] exI [of _ e4] exI [of _ "\<lambda>e. e"])
        (simp add: unf types echo_datagram_def publishes_def)
  qed
qed

section \<open>One wake-up\<close>

lemma handleReadable_safe:
  assumes pub: "reliable pub"
    and inv: "node_inv w"
  shows "\<exists>res r' w'. handleReadable pub recv strerror r w = Delivered (res, r', w') \<and> node_inv w' \<and>
    ur_recv_calls r' = Suc (ur_recv_calls r) \<and>
    ur_lifecycle_gen r' = ur_lifecycle_gen r + (if res = ReadPacketProcessed then 1 else 0)"
proof (cases "recv (ur_recv_calls r)")
  case (RecvError errno)
  obtain ts e where ms: "nowMs (n_env w) = (ts, e)" by (cases "nowMs (n_env w)")
  have "well_typed (idle_message ts)" by (simp add: idle_message_def well_typed_def)
  then obtain w' where "pub (idle_message ts) (with_env w e) = Delivered w'" "node_inv w'"
    using reliableE [OF pub, of "idle_message ts" "with_env w e"] inv by auto
  then show ?thesis using inv by (simp add: handleReadable_def RecvError Let_def ms)
next
  case (Datagram payload addr port)
  let ?r = "r\<lparr>ur_recv_calls := Suc (ur_recv_calls r)\<rparr>"
  obtain m e after where h: "handleDatagram pub (take BUFFER_SIZE payload) addr port ?r w =
       and_then (pub m (with_env w e)) (\<lambda>w'. Delivered (ReadPacketProcessed,
         ?r\<lparr>ur_lifecycle_gen := ur_lifecycle_gen ?r + 1\<rparr>, with_env w' (after (n_env w'))))" "well_typed m"
    using handleDatagram_outcome [of pub "take BUFFER_SIZE payload" addr port ?r w] by blast
  obtain w' where "pub m (with_env w e) = Delivered w'" "node_inv w'"
    using reliableE [OF pub h(2), of "with_env w e"] inv by auto
  then show ?thesis by (simp add: handleReadable_def Datagram Let_def h(1))
qed

lemma udp_run_ends:
  assumes pub: "reliable pub" and stop: "stopped (n + k)"
  shows "node_inv w \<Longrightarrow> \<exists>r' w'. udp_run pub recv strerror stopped (Suc k) n r w = Delivered (r', w') \<and> node_inv w' \<and>
    \<not> ur_running r' \<and> ur_recv_calls r' \<le> ur_recv_calls r + k"
  using stop
proof (induction k arbitrary: n r w)
  case 0
  then show ?case by simp
next
  case (Suc k)
  let ?r = "if stopped n then r\<lparr>ur_running := False\<rparr> else r"
  show ?case
  proof (cases "ur_running ?r")
    case True
    obtain res r1 w1 where h: "handleReadable pub recv strerror ?r w = Delivered (res, r1, w1)" "node_inv w1"
      "ur_recv_calls r1 = Suc (ur_recv_calls r)" using handleReadable_safe [OF pub Suc.prems(1), of recv strerror ?r] by auto
    have "stopped (Suc n + k)" using Suc.prems(2) by simp
    from Suc.IH [OF h(2) this, of r1] h(3) True show ?thesis
      by (subst udp_run.simps(2)) (auto simp: h(1) Let_def simp del: udp_run.simps)
  next
    case False
    then show ?thesis using Suc.prems(1) by (subst udp_run.simps(2)) (auto simp: Let_def simp del: udp_run.simps)
  qed
qed

lemma read_loop_safe:
  assumes pub: "reliable pub"
  shows "node_inv w \<Longrightarrow> \<exists>k r' w'. read_loop pub recv strerror budget n r w = Delivered (n + k, r', w') \<and> k \<le> budget \<and>
    node_inv w' \<and> ur_lifecycle_gen r' = ur_lifecycle_gen r + of_nat k \<and>
    ur_recv_calls r' \<le> ur_recv_calls r + budget"
proof (induction budget arbitrary: n r w)
  case (Suc budget)
  obtain res r1 w1 where h: "handleReadable pub recv strerror r w = Delivered (res, r1, w1)" "node_inv w1"
    "ur_recv_calls r1 = Suc (ur_recv_calls r)" "ur_lifecycle_gen r1 = ur_lifecycle_gen r + (if res = ReadPacketProcessed then 1 else 0)"
    using handleReadable_safe [OF pub Suc.prems] by blast
  show ?case
  proof (cases "res = ReadPacketProcessed")
    case True
    from Suc.IH [OF h(2), of "Suc n" r1] obtain k r' w' where
      "read_loop pub recv strerror budget (Suc n) r1 w1 = Delivered (Suc n + k, r', w')" "k \<le> budget" "node_inv w'"
      "ur_lifecycle_gen r' = ur_lifecycle_gen r1 + of_nat k" "ur_recv_calls r' \<le> ur_recv_calls r1 + budget"
      by blast
    then show ?thesis using True h by (intro exI [of _ "Suc k"] exI [of _ r'] exI [of _ w']) simp
  next
    case False
    then show ?thesis using h by (cases res) (simp_all add: exI [of _ 0])
  qed
qed (simp add: exI [of _ 0])

section \<open>The socket\<close>

lemma close_socket_world:
  "close_socket r w = (r', w') \<Longrightarrow> fd_valid (ur_socket r) \<Longrightarrow> d_registry (ur_socket r) \<Longrightarrow> d_fd (ur_socket r) \<in> set (fw_open w) \<Longrightarrow>
     \<not> fd_valid (ur_socket r') \<and> set (fw_open w') = set (fw_open w) - {d_fd (ur_socket r)} \<and>
     active_fds (fw_registry w') = active_fds (fw_registry w) - {d_fd (ur_socket r)} \<and> fw_bad_closes w' = fw_bad_closes w"
  by (auto simp: close_socket_def fd_reset_def fd_valid_def sys_close_def Let_def)

section \<open>Properties\<close>

text \<open>
  \<^bold>\<open>C14\<close> One lifecycle per datagram: whatever the subscribers do, reading a datagram (its first 1024 bytes)
  draws exactly one fresh lifecycle identity and publishes exactly one well-typed message for it, a
  received packet when the datagram parses and validates and a drop otherwise; accepted datagrams, and only
  those, are echoed to their sender byte for byte, before they are published.
\<close>

theorem datagram_one_lifecycle:
  assumes "recv (ur_recv_calls r) = Datagram payload addr port" and "data = take 1024 payload"
  shows "\<exists>m e after. handleReadable pub recv strerror r w =
       and_then (pub m (with_env w e)) (\<lambda>w'. Delivered (ReadPacketProcessed,
         r\<lparr>ur_recv_calls := Suc (ur_recv_calls r), ur_lifecycle_gen := ur_lifecycle_gen r + 1\<rparr>, with_env w' (after (n_env w')))) \<and>
     well_typed m \<and> message_ids m = [ur_lifecycle_gen r] \<and>
     m_type m = (if accepted data then T_PacketRx else T_PacketDropped) \<and>
     send_calls e = send_calls (n_env w) @ (if accepted data then [echo_datagram r data addr port] else [])"
proof -
  let ?r = "r\<lparr>ur_recv_calls := Suc (ur_recv_calls r)\<rparr>"
  have read: "handleReadable pub recv strerror r w = handleDatagram pub data addr port ?r w"
    by (simp add: handleReadable_def assms BUFFER_SIZE_def)
  obtain m e after where "handleDatagram pub data addr port ?r w =
       and_then (pub m (with_env w e)) (\<lambda>w'. Delivered (ReadPacketProcessed,
         ?r\<lparr>ur_lifecycle_gen := ur_lifecycle_gen ?r + 1\<rparr>, with_env w' (after (n_env w'))))"
    and m: "well_typed m" "m_type m \<in> publishes Ingress" "message_ids m = [ur_lifecycle_gen ?r]"
      "m_type m = T_PacketRx \<longleftrightarrow> accepted data"
    and e: "send_calls e = send_calls (n_env w) @ (if accepted data then [echo_datagram ?r data addr port] else [])"
    using handleDatagram_outcome by blast
  moreover have "m_type m \<noteq> T_IngressIdlePoll"
    using m(3) by (auto simp: message_ids_def)
  then have "m_type m = (if accepted data then T_PacketRx else T_PacketDropped)"
    using m(2,4) by (auto simp: publishes_def)
  moreover have "echo_datagram ?r data addr port = echo_datagram r data addr port" by (simp add: echo_datagram_def)
  ultimately show ?thesis unfolding read by (intro exI [of _ m] exI [of _ e] exI [of _ after]) simp
qed

definition udp_demo :: UdpReceiver where
  "udp_demo = UdpReceiver_new 9000 True NonBlocking"

theorem datagram_one_lifecycle_witness:
  "\<exists>m e after. handleReadable daemon_publish (\<lambda>_. Datagram ''id=7;payload=hi'' 0x7F000001 4000) (\<lambda>_. []) udp_demo node_demo =
     and_then (daemon_publish m (with_env node_demo e)) (\<lambda>w'. Delivered (ReadPacketProcessed,
       udp_demo\<lparr>ur_recv_calls := 1, ur_lifecycle_gen := 2\<rparr>, with_env w' (after (n_env w')))) \<and>
     message_ids m = [1]"
  using datagram_one_lifecycle [where recv = "\<lambda>_. Datagram ''id=7;payload=hi'' 0x7F000001 4000" and r = udp_demo
      and pub = daemon_publish and strerror = "\<lambda>_. []" and w = node_demo, OF refl refl]
  by (auto simp: udp_demo_def UdpReceiver_new_def LifecycleIdGenerator_new_def)

text \<open>
  \<^bold>\<open>C15\<close> One wake-up is bounded: in the wired daemon, handling a readable socket always ends, whatever the socket
  delivers; it handles at most 256 datagrams and calls \<^verbatim>\<open>recvfrom\<close> at most 256 times (so other
  descriptors get their turn), hands out as many identities as it handled datagrams, raises no exception
  and keeps the component invariants.
\<close>

theorem wakeup_bounded:
  assumes "node_inv w"
  shows "\<exists>n r' w'. UdpReady_onEvent daemon_publish recv strerror r w = Delivered (n, r', w') \<and> n \<le> 256 \<and>
    ur_recv_calls r' \<le> ur_recv_calls r + 256 \<and> ur_lifecycle_gen r' = ur_lifecycle_gen r + of_nat n \<and> node_inv w'"
proof -
  let ?w = "with_env w (log_debug ''[EPOLL] UDP readable'' (n_env w))"
  have "node_inv ?w" using assms by simp
  then obtain n r' w' where "read_loop daemon_publish recv strerror MaxPacketsPerWakeup 0 r ?w = Delivered (0 + n, r', w')"
    "n \<le> MaxPacketsPerWakeup" "node_inv w'" "ur_lifecycle_gen r' = ur_lifecycle_gen r + of_nat n"
    "ur_recv_calls r' \<le> ur_recv_calls r + MaxPacketsPerWakeup"
    using read_loop_safe [OF reliable_daemon_publish] by blast
  then show ?thesis by (simp add: UdpReady_onEvent_def processReadableEvent_def MaxPacketsPerWakeup_def)
qed

theorem wakeup_bounded_witness:
  "\<exists>n r' w'. UdpReady_onEvent daemon_publish (\<lambda>_. Datagram ''id=7;payload=hi'' 0x7F000001 4000) (\<lambda>_. []) udp_demo node_demo =
     Delivered (n, r', w') \<and> n \<le> 256 \<and> node_inv w'"
  using wakeup_bounded [OF node_demo_inv] by blast

text \<open>
  A socket that cannot be set up is not leaked: when the system opens a descriptor for a receiver without a socket and
  binding or switching to non-blocking mode then fails, the descriptor is closed again and not
  registered as active, and the receiver has no socket; otherwise the receiver owns the open, registered
  descriptor.
\<close>

theorem socket_setup_no_leak:
  assumes "ur_socket r = FileDescriptor_default" and "ur_registry r" and "ur_mode r = NonBlocking"
    and "sa_socket a \<ge> 0" and "sa_socket a \<in> set (fw_open w)" and "sa_socket a \<notin> active_fds (fw_registry w)"
    and "initializeSocket a r w e = (r', w', e')"
  shows "if sa_bind a < 0 \<or> sa_getfl a < 0 \<or> sa_setfl a < 0
    then \<not> fd_valid (ur_socket r') \<and> set (fw_open w') = set (fw_open w) - {sa_socket a} \<and>
         active_fds (fw_registry w') = active_fds (fw_registry w) \<and> fw_bad_closes w' = fw_bad_closes w
    else d_fd (ur_socket r') = sa_socket a \<and> fw_open w' = fw_open w \<and>
         active_fds (fw_registry w') = insert (sa_socket a) (active_fds (fw_registry w))"
proof -
  let ?s = "sa_socket a"
  let ?w1 = "w\<lparr>fw_registry := registerFd ?s Active UdpSocket (fw_registry w)\<rparr>"
  let ?r1 = "r\<lparr>ur_socket := \<lparr>d_fd = ?s, d_registry = True, d_type = UnknownFd\<rparr>\<rparr>"
  have steps: "FileDescriptor_new ?s (ur_registry r) UdpSocket w = (\<lparr>d_fd = ?s, d_registry = True, d_type = UdpSocket\<rparr>, ?w1)"
    "fd_move_assign (ur_socket r) \<lparr>d_fd = ?s, d_registry = True, d_type = UdpSocket\<rparr> ?w1 =
       (\<lparr>d_fd = ?s, d_registry = True, d_type = UnknownFd\<rparr>, \<lparr>d_fd = -1, d_registry = False, d_type = UdpSocket\<rparr>, ?w1)"
    "fd_destroy \<lparr>d_fd = -1, d_registry = False, d_type = UdpSocket\<rparr> ?w1 = (\<lparr>d_fd = -1, d_registry = False, d_type = UdpSocket\<rparr>, ?w1)"
    using assms(1-4)
    by (simp_all add: FileDescriptor_new_def fd_valid_def fd_move_assign_def fd_destroy_def fd_reset_def FileDescriptor_default_def)
  obtain r2 w2 where c: "close_socket ?r1 ?w1 = (r2, w2)" by (cases "close_socket ?r1 ?w1")
  note closed = close_socket_world [OF c]
  have "initializeSocket a r w e =
      (if sa_bind a < 0 then (r2, w2, err_line ''Failed to bind socket'' e)
       else if sa_getfl a < 0 then (r2, w2, log_error ''Failed to get socket flags'' e)
       else if sa_setfl a < 0 then (r2, w2, log_error ''Failed to enable O_NONBLOCK'' e)
       else (?r1, ?w1, log_info ''UDP receiver running in non-blocking mode'' e))"
    using assms(3,4) by (simp add: initializeSocket_def steps c Let_def)
  then have res: "(r', w') = (if sa_bind a < 0 \<or> sa_getfl a < 0 \<or> sa_setfl a < 0 then (r2, w2) else (?r1, ?w1))"
    using assms(7) by (simp split: if_splits)
  show ?thesis
  proof (cases "sa_bind a < 0 \<or> sa_getfl a < 0 \<or> sa_setfl a < 0")
    case True
    then have "r' = r2" "w' = w2" using res by simp_all
    then show ?thesis using True closed assms(4-6) by (simp add: fd_valid_def)
  next
    case False
    then have "r' = ?r1" "w' = ?w1" using res by simp_all
    then show ?thesis using False by simp
  qed
qed

theorem socket_setup_no_leak_witness:
  "let (r', w', e') = initializeSocket \<lparr>sa_socket = 5, sa_bind = -1, sa_getfl = 0, sa_setfl = 0\<rparr> udp_demo
     \<lparr>fw_registry = [], fw_open = [5], fw_bad_closes = 0\<rparr> env_demo
   in \<not> fd_valid (ur_socket r') \<and> set (fw_open w') = {}"
proof -
  let ?a = "\<lparr>sa_socket = 5, sa_bind = -1, sa_getfl = 0, sa_setfl = 0\<rparr>"
  let ?w = "\<lparr>fw_registry = [], fw_open = [5], fw_bad_closes = 0\<rparr>"
  obtain r' w' e' where run: "initializeSocket ?a udp_demo ?w env_demo = (r', w', e')"
    by (cases "initializeSocket ?a udp_demo ?w env_demo")
  have "active_fds [] = {}" by (simp add: active_fds_def)
  then have "\<not> fd_valid (ur_socket r') \<and> set (fw_open w') = {}"
    using socket_setup_no_leak [OF _ _ _ _ _ _ run] by (simp add: udp_demo_def UdpReceiver_new_def)
  then show ?thesis unfolding run Let_def prod.case .
qed

end
