(* ===== verification/Ingress_Accounting.thy ===== *)
theory Ingress_Accounting
  imports Udp_Ingress Control_Dispatch
begin

text \<open>
  From the socket to the statistics: the threads of \<open>Concurrent_Runtime\<close> with the event-loop thread's work spelled out.
  It reads datagrams (network/UdpReceiver), one call of \<^verbatim>\<open>handleReadable\<close> after another, and between two of them it
  may answer \<^verbatim>\<open>send-packet\<close> requests, which inject packets with fixed identities (control/ControlDispatch). While it runs
  the subscribers of what it published, the main thread and the worker go on. \<open>publication\<close> is \<open>handleReadable\<close> cut
  at its publication, for any publisher.
\<close>

section \<open>The publication of one read\<close>

text \<open>What is published, the environment then, what is still to be logged, and result and receiver.\<close>

type_synonym pending_read = "Message option \<times> env \<times> (env \<Rightarrow> env) \<times> UdpReadResult \<times> UdpReceiver"

definition datagram_publication :: "string \<Rightarrow> u32 \<Rightarrow> u16 \<Rightarrow> UdpReceiver \<Rightarrow> env \<Rightarrow> exn + pending_read" where
  "datagram_publication data addr port r e =
     (let (ingress_ts, e) = nowNs e;
          e = log_info (received_line data) e;
          (lifecycle_id, gen) = next_id (ur_lifecycle_gen r);
          r = r\<lparr>ur_lifecycle_gen := gen\<rparr> in
      case parsePacket data of
        Inl ex \<Rightarrow> Inl ex
      | Inr packet \<Rightarrow>
          let packet = packet\<lparr>pk_lifecycle_id := lifecycle_id, pk_ingress_timestamp_ns := ingress_ts\<rparr> in
          if \<not> pk_valid packet then
            let (ts, e) = nowMs e in
            Inr (Some (drop_message ParseError ts 0 lifecycle_id), e, log_warn (parse_drop_line data), ReadPacketProcessed, r)
          else
            let (ts, e) = nowMs e;
                packet = packet\<lparr>pk_timestamp_ms := ts, pk_wire_size := of_nat (length data),
                                pk_source_ip := inet_ntoa addr, pk_source_port := port\<rparr>;
                result = validate packet in
            if \<not> vr_accepted result then
              let (ts, e) = nowMs e in
              Inr (Some (drop_message ValidationError ts (pk_id packet) lifecycle_id), e,
                   log_warn (validation_drop_line (vr_reason result)), ReadPacketProcessed, r)
            else
              let (sent, errno, e) = sys_sendto
                    \<lparr>dg_fd = d_fd (ur_socket r), dg_payload = data, dg_addr = addr, dg_port = port\<rparr> e in
              Inr (Some (rx_message packet), e, (\<lambda>e. e), ReadPacketProcessed, r))"

definition publication :: "(nat \<Rightarrow> recv_answer) \<Rightarrow> (int \<Rightarrow> string) \<Rightarrow> UdpReceiver \<Rightarrow> env \<Rightarrow> exn + pending_read" where
  "publication recv strerror r e =
     (let answer = recv (ur_recv_calls r);
          r = r\<lparr>ur_recv_calls := Suc (ur_recv_calls r)\<rparr> in
      case answer of
        RecvError errno \<Rightarrow>
          if errno = EBADF then Inr (None, e, (\<lambda>e. e), ReadClosed, r\<lparr>ur_running := False\<rparr>)
          else if errno = EINTR then Inr (None, e, (\<lambda>e. e), ReadNoData, r)
          else if errno = EAGAIN then
            let (ts, e) = nowMs e in Inr (Some (idle_message ts), e, (\<lambda>e. e), ReadNoData, r)
          else Inr (None, e, log_error (''[UDP] recvfrom failed: '' @ strerror errno), ReadError, r)
      | Datagram payload addr port \<Rightarrow> datagram_publication (take BUFFER_SIZE payload) addr port r e)"

definition publish_then ::
  "(Message \<Rightarrow> node \<Rightarrow> node delivery) \<Rightarrow> node \<Rightarrow> exn + pending_read \<Rightarrow> (UdpReadResult \<times> UdpReceiver \<times> node) delivery" where
  "publish_then pub w v =
     (case v of
        Inl ex \<Rightarrow> Raised ex
      | Inr (None, e, after, res, r) \<Rightarrow> Delivered (res, r, with_env w (after e))
      | Inr (Some m, e, after, res, r) \<Rightarrow>
          and_then (pub m (with_env w e)) (\<lambda>w. Delivered (res, r, with_env w (after (n_env w)))))"

lemma with_own_env [simp]: "with_env w (n_env w) = w"
  by (cases w) simp

lemma handleDatagram_publication:
  "handleDatagram pub data addr port r w = publish_then pub w (datagram_publication data addr port r (n_env w))"
  by (simp add: handleDatagram_def datagram_publication_def publish_then_def Let_def split: prod.split sum.split)

lemma handleReadable_publication:
  "handleReadable pub recv strerror r w = publish_then pub w (publication recv strerror r (n_env w))"
  by (simp add: handleReadable_def publication_def publish_then_def handleDatagram_publication Let_def
      split: prod.split sum.split recv_answer.split)

lemma datagram_publication_message:
  "\<exists>m e' after. datagram_publication data addr port r e =
       Inr (Some m, e', after, ReadPacketProcessed, r\<lparr>ur_lifecycle_gen := ur_lifecycle_gen r + 1\<rparr>) \<and>
     well_typed m \<and> m_type m \<in> publishes Ingress \<and> message_ids m = [ur_lifecycle_gen r]"
proof -
  obtain p where p: "parsePacket data = Inr p" by (cases rule: parsePacket_cases [of data]) auto
  have types: "T_PacketDropped \<in> publishes Ingress" "m_type (rx_message q) \<in> publishes Ingress"
    "well_typed (rx_message q)" "message_ids (rx_message q) = [pk_lifecycle_id q]" "message_ids (drop_message a b c d) = [d]"
    for a b c d q
    by (simp_all add: publishes_def rx_message_def well_typed_def message_ids_def)
  show ?thesis
    by (simp add: datagram_publication_def next_id_def p Let_def split_beta types)
qed

definition is_datagram :: "recv_answer \<Rightarrow> bool" where
  "is_datagram a = (case a of Datagram _ _ _ \<Rightarrow> True | RecvError _ \<Rightarrow> False)"

definition message_list_ids :: "Message option \<Rightarrow> u64 list" where
  "message_list_ids mo = (case mo of None \<Rightarrow> [] | Some m \<Rightarrow> message_ids m)"

text \<open>A read never raises; it publishes at most one message, which carries an identity exactly for a datagram.\<close>

lemma publication_message:
  "\<exists>mo e' after res r'. publication recv strerror r e = Inr (mo, e', after, res, r') \<and>
     (\<forall>m. mo = Some m \<longrightarrow> well_typed m \<and> m_type m \<in> publishes Ingress) \<and>
     message_list_ids mo = (if is_datagram (recv (ur_recv_calls r)) then [ur_lifecycle_gen r] else []) \<and>
     ur_recv_calls r' = Suc (ur_recv_calls r) \<and>
     ur_lifecycle_gen r' = ur_lifecycle_gen r + (if is_datagram (recv (ur_recv_calls r)) then 1 else 0)"
proof (cases "recv (ur_recv_calls r)")
  case (RecvError errno)
  have "well_typed (idle_message ts)" "m_type (idle_message ts) \<in> publishes Ingress" "message_ids (idle_message ts) = []" for ts
    by (simp_all add: idle_message_def well_typed_def publishes_def message_ids_def)
  then show ?thesis
    by (simp add: publication_def RecvError Let_def split_beta is_datagram_def message_list_ids_def)
next
  case (Datagram payload addr port)
  let ?r = "r\<lparr>ur_recv_calls := Suc (ur_recv_calls r)\<rparr>"
  obtain m e' after where "datagram_publication (take BUFFER_SIZE payload) addr port ?r e =
       Inr (Some m, e', after, ReadPacketProcessed, ?r\<lparr>ur_lifecycle_gen := ur_lifecycle_gen ?r + 1\<rparr>)"
     "well_typed m" "m_type m \<in> publishes Ingress" "message_ids m = [ur_lifecycle_gen ?r]"
    using datagram_publication_message by blast
  then show ?thesis by (simp add: publication_def Datagram Let_def is_datagram_def message_list_ids_def)
qed

section \<open>The system\<close>

record ingress_system =
  is_sys :: system
  is_udp :: UdpReceiver
  is_after :: "(env \<Rightarrow> env) option"
  is_injected :: "u64 list"

definition set_env :: "env \<Rightarrow> system \<Rightarrow> system" where
  "set_env e s = s\<lparr>s_node := with_env (s_node s) e\<rparr>"

text \<open>A thread starts to publish: the calls of the message's subscribers are its work.\<close>

definition start_publish :: "thread \<Rightarrow> Message \<Rightarrow> system \<Rightarrow> system" where
  "start_publish t m s = s\<lparr>s_todo := (s_todo s)(t := tasks daemon_bus m), s_received := s_received s @ message_ids m\<rparr>"

definition injectable :: "(u64 \<times> string \<times> string \<times> string \<times> u32) list" where
  "injectable = broadcast_packets @ learn_packets @ topology_packets"

text \<open>The message of \<^verbatim>\<open>publishSyntheticPacket\<close> for one entry of the tables.\<close>

definition injected_message :: "u64 \<times> string \<times> string \<times> string \<times> u32 \<Rightarrow> u64 \<Rightarrow> Message option" where
  "injected_message = (\<lambda>(packet_id, payload, src, dst, port) ts.
     case (fromString src, fromString dst) of
       (Some source_mac, Some destination_mac) \<Rightarrow>
         Some \<lparr>m_type = T_PacketRx, m_timestamp_ms = ts, m_payload = P_Packet (Packet_default\<lparr>pk_id := packet_id,
           pk_lifecycle_id := packet_id, pk_timestamp_ms := ts, pk_payload := payload,
           pk_payload_size := of_nat (length payload), pk_valid := True, pk_source_mac := Some source_mac,
           pk_destination_mac := Some destination_mac, pk_ingress_port := Some port\<rparr>)\<rparr>
     | _ \<Rightarrow> None)"

lemma publishSyntheticPacket_message:
  "publishSyntheticPacket pub packet_id payload src dst port w =
     (case injected_message (packet_id, payload, src, dst, port) (fst (nowMs (n_env w))) of
        None \<Rightarrow> Delivered w
      | Some m \<Rightarrow> pub m (with_env w (snd (nowMs (n_env w)))))"
  by (simp add: publishSyntheticPacket_def injected_message_def Let_def split_beta split: option.split)

inductive ingress_step :: "(nat \<Rightarrow> recv_answer) \<Rightarrow> (int \<Rightarrow> string) \<Rightarrow> ingress_system \<Rightarrow> ingress_system \<Rightarrow> bool"
  for recv strerror where
  work: "internal_step (is_sys x) s \<Longrightarrow> ingress_step recv strerror x (x\<lparr>is_sys := s\<rparr>)"
| main: "s_todo (is_sys x) Main = [] \<Longrightarrow> well_typed m \<Longrightarrow> m_type m \<in> publishes Main \<Longrightarrow>
    ingress_step recv strerror x (x\<lparr>is_sys := start_publish Main m (is_sys x)\<rparr>)"
| stop: "ingress_step recv strerror x (x\<lparr>is_sys := (is_sys x)\<lparr>s_node := (s_node (is_sys x))\<lparr>
    n_processor := processor_stop (n_processor (s_node (is_sys x)))\<rparr>\<rparr>\<rparr>)"
| read: "s_todo (is_sys x) Ingress = [] \<Longrightarrow> is_after x = None \<Longrightarrow>
    publication recv strerror (is_udp x) (n_env (s_node (is_sys x))) = Inr (mo, e, after, res, r) \<Longrightarrow>
    ingress_step recv strerror x (x\<lparr>is_sys := (case mo of None \<Rightarrow> set_env e (is_sys x)
      | Some m \<Rightarrow> start_publish Ingress m (set_env e (is_sys x))), is_udp := r, is_after := Some after\<rparr>)"
| finish: "s_todo (is_sys x) Ingress = [] \<Longrightarrow> is_after x = Some after \<Longrightarrow>
    ingress_step recv strerror x (x\<lparr>is_sys := set_env (after (n_env (s_node (is_sys x)))) (is_sys x), is_after := None\<rparr>)"
| inject: "s_todo (is_sys x) Ingress = [] \<Longrightarrow> is_after x = None \<Longrightarrow> q \<in> set injectable \<Longrightarrow>
    nowMs (n_env (s_node (is_sys x))) = (ts, e) \<Longrightarrow> injected_message q ts = Some m \<Longrightarrow>
    ingress_step recv strerror x (x\<lparr>is_sys := start_publish Ingress m (set_env e (is_sys x)), is_injected := is_injected x @ [fst q]\<rparr>)"

definition ingress_start :: "ingress_system \<Rightarrow> bool" where
  "ingress_start x \<longleftrightarrow> sys_start (is_sys x) \<and> ur_recv_calls (is_udp x) = 0 \<and>
     ur_lifecycle_gen (is_udp x) = LifecycleIdGenerator_new \<and> is_after x = None \<and> is_injected x = []"

text \<open>The datagrams among the first \<open>k\<close> answers of \<^verbatim>\<open>recvfrom\<close>.\<close>

definition datagrams :: "(nat \<Rightarrow> recv_answer) \<Rightarrow> nat \<Rightarrow> nat" where
  "datagrams recv k = length (filter is_datagram (map recv [0..<k]))"

lemma datagrams_simps [simp]:
  "datagrams recv 0 = 0" "datagrams recv (Suc k) = datagrams recv k + (if is_datagram (recv k) then 1 else 0)"
  by (simp_all add: datagrams_def)

text \<open>Received: the identities \<open>1 .. n\<close> of \<open>n\<close> datagrams and the injected ones.\<close>

definition ingress_inv :: "(nat \<Rightarrow> recv_answer) \<Rightarrow> ingress_system \<Rightarrow> bool" where
  "ingress_inv recv x \<longleftrightarrow>
     (let n = datagrams recv (ur_recv_calls (is_udp x)) in
      sys_inv (is_sys x) \<and> ur_lifecycle_gen (is_udp x) = of_nat (Suc n) \<and>
      mset (s_received (is_sys x)) = mset (map of_nat [1..<Suc n]) + mset (is_injected x) \<and>
      set (is_injected x) \<subseteq> fst ` set injectable)"

lemma set_env_inv [simp]: "sys_inv (set_env e s) = sys_inv s"
  by (simp add: set_env_def sys_inv_def in_flight_def)

lemma set_env_simps [simp]:
  "s_received (set_env e s) = s_received s" "s_todo (set_env e s) = s_todo s"
  by (simp_all add: set_env_def)

lemma start_publish_inv:
  "sys_inv s \<Longrightarrow> s_todo s t = [] \<Longrightarrow> well_typed m \<Longrightarrow> m_type m \<in> publishes t \<Longrightarrow> sys_inv (start_publish t m s)"
  unfolding start_publish_def by (rule publish_inv)

lemma received_internal: "internal_step s s' \<Longrightarrow> s_received s' = s_received s"
  by (induction rule: internal_step.induct) simp_all

lemma injected_message_facts:
  "injected_message q ts = Some m \<Longrightarrow> well_typed m \<and> m_type m \<in> publishes Ingress \<and> message_ids m = [fst q]"
  by (auto simp: injected_message_def well_typed_def publishes_def message_ids_def split: prod.splits option.splits)

lemma ingress_step_inv:
  assumes "ingress_step recv strerror x y" and "ingress_inv recv x"
  shows "ingress_inv recv y"
  using assms
proof (cases rule: ingress_step.cases)
  case (work s)
  then show ?thesis using assms(2) internal_inv received_internal by (auto simp: ingress_inv_def Let_def)
next
  case (main m)
  then have "message_ids m = []" by (auto simp: publishes_def message_ids_def)
  moreover have "sys_inv (is_sys y)" using main assms(2) start_publish_inv by (simp add: ingress_inv_def Let_def)
  moreover have "s_received (is_sys y) = s_received (is_sys x) @ message_ids m" using main by (simp add: start_publish_def)
  ultimately show ?thesis using main(1) assms(2) by (simp add: ingress_inv_def Let_def)
next
  case stop
  have "sys_step (is_sys x) ((is_sys x)\<lparr>s_node := (s_node (is_sys x))\<lparr>n_processor := processor_stop (n_processor (s_node (is_sys x)))\<rparr>\<rparr>)"
    by (rule sys_step.stop)
  from sys_step_inv [OF this] show ?thesis using stop assms(2) by (simp add: ingress_inv_def Let_def)
next
  case (read mo e after res r)
  have pub: "\<forall>m. mo = Some m \<longrightarrow> well_typed m \<and> m_type m \<in> publishes Ingress"
    "message_list_ids mo = (if is_datagram (recv (ur_recv_calls (is_udp x))) then [ur_lifecycle_gen (is_udp x)] else [])"
    "ur_recv_calls r = Suc (ur_recv_calls (is_udp x))"
    "ur_lifecycle_gen r = ur_lifecycle_gen (is_udp x) + (if is_datagram (recv (ur_recv_calls (is_udp x))) then 1 else 0)"
    using publication_message [of recv strerror "is_udp x" "n_env (s_node (is_sys x))"] read(4) by auto
  have "sys_inv (is_sys y)"
    using read pub(1) assms(2) start_publish_inv by (auto simp: ingress_inv_def Let_def split: option.split)
  moreover have "s_received (is_sys y) = s_received (is_sys x) @ message_list_ids mo"
    using read by (simp add: start_publish_def message_list_ids_def split: option.split)
  ultimately show ?thesis using read(1) pub(2-4) assms(2) by (simp add: ingress_inv_def Let_def)
next
  case (finish after)
  then show ?thesis using assms(2) by (simp add: ingress_inv_def Let_def)
next
  case (inject q ts e m)
  note f = injected_message_facts [OF inject(6)]
  have "sys_inv (is_sys y)" using inject f assms(2) start_publish_inv by (simp add: ingress_inv_def Let_def)
  then show ?thesis using inject f assms(2) by (auto simp: ingress_inv_def Let_def start_publish_def)
qed

interpretation receiving: transition_system ingress_start "ingress_step recv strerror" "ingress_inv recv" for recv strerror
proof unfold_locales
  show "ingress_start x \<Longrightarrow> ingress_inv recv x" for x
    using runtime.start_invariant
    by (simp add: ingress_start_def ingress_inv_def LifecycleIdGenerator_new_def sys_start_def [of "is_sys x"] Let_def)
qed (rule ingress_step_inv)

section \<open>Accounting\<close>

lemma distinct_identities:
  assumes "n < 2 ^ 64"
  shows "distinct (map of_nat [1..<Suc n] :: u64 list)"
proof -
  have "distinct (map of_nat [0..<Suc n] :: u64 list)" using distinct_of_nat_upt [of "Suc n"] assms by simp
  moreover have "[0..<Suc n] = 0 # [1..<Suc n]" by (simp add: upt_conv_Cons del: upt_Suc)
  ultimately show ?thesis by (simp del: upt_Suc)
qed

text \<open>The identity of a packet of the control plane is taken by a datagram once the counter has passed it.\<close>

lemma identity_taken:
  assumes "n < 2 ^ 64" and "0 < unat i"
  shows "i \<in> set (map of_nat [1..<Suc n] :: u64 list) \<longleftrightarrow> unat i \<le> n"
proof
  assume "i \<in> set (map of_nat [1..<Suc n] :: u64 list)"
  then have "i \<in> of_nat ` {1..<Suc n}" by (simp del: upt_Suc)
  then obtain k where k: "k < Suc n" "i = of_nat k" by force
  then have "k < 2 ^ LENGTH(64)" using assms(1) by simp
  then show "unat i \<le> n" using k by (simp add: unat_of_nat_id)
next
  assume "unat i \<le> n"
  then have "unat i \<in> set [1..<Suc n]" using assms(2) by (simp del: upt_Suc)
  moreover have "i = of_nat (unat i)" by simp
  ultimately show "i \<in> set (map of_nat [1..<Suc n] :: u64 list)" by (metis image_eqI list.set_map)
qed

lemma injectable_ids: "i \<in> fst ` set injectable \<Longrightarrow> 999 \<le> unat i"
  by (auto simp: injectable_def broadcast_packets_def learn_packets_def topology_packets_def)

lemma received_distinct:
  assumes "ingress_inv recv x" and "n = datagrams recv (ur_recv_calls (is_udp x))" and "n < 2 ^ 64"
  shows "distinct (s_received (is_sys x)) \<longleftrightarrow> distinct (is_injected x) \<and> (\<forall>i \<in> set (is_injected x). n < unat i)"
proof -
  have "mset (s_received (is_sys x)) = mset (map of_nat [1..<Suc n] @ is_injected x)"
    using assms(1,2) by (simp add: ingress_inv_def Let_def del: upt_Suc)
  then have "distinct (s_received (is_sys x)) \<longleftrightarrow> distinct (map of_nat [1..<Suc n] @ is_injected x)"
    by (rule mset_eq_imp_distinct_iff)
  also have "\<dots> \<longleftrightarrow> distinct (is_injected x) \<and> (\<forall>i \<in> set (is_injected x). i \<notin> set (map of_nat [1..<Suc n]))"
    using distinct_identities [OF assms(3)] by (auto simp del: upt_Suc)
  also have "\<dots> \<longleftrightarrow> distinct (is_injected x) \<and> (\<forall>i \<in> set (is_injected x). n < unat i)"
  proof -
    have "i \<notin> set (map of_nat [1..<Suc n]) \<longleftrightarrow> n < unat i" if "i \<in> set (is_injected x)" for i
    proof -
      have "set (is_injected x) \<subseteq> fst ` set injectable" using assms(1) by (simp add: ingress_inv_def Let_def)
      then have "999 \<le> unat i" using injectable_ids that by blast
      then have "0 < unat i" by simp
      from identity_taken [OF assms(3) this] show ?thesis by (simp add: not_le)
    qed
    then show ?thesis by blast
  qed
  finally show ?thesis .
qed

text \<open>What the statistics say when nothing is in flight.\<close>

lemma quiescent_counts:
  assumes "sys_inv s" and "quiescent s" and "st = n_stats (s_node s)" and "length (s_received s) < 2 ^ 64"
  shows "ps_completed_lifecycles st = set (s_received s)"
    and "ps_terminal_events st + ps_duplicate_events st = of_nat (length (s_received s))"
    and "ps_terminal_events st = ps_processed_packets st + drop_total st"
    and "ps_duplicate_events st = 0 \<longleftrightarrow> distinct (s_received s)"
proof -
  have m: "mset (s_received s) = mset (s_counted s)"
    using assms(1,2) by (simp add: sys_inv_def quiescent_def in_flight_def threads_ids_def)
  then have sl: "set (s_counted s) = set (s_received s)" "length (s_counted s) = length (s_received s)"
    by (metis set_mset_mset, metis size_mset)
  then show c: "ps_completed_lifecycles st = set (s_received s)"
    and sum: "ps_terminal_events st + ps_duplicate_events st = of_nat (length (s_received s))"
    using assms(1,3) by (simp_all add: sys_inv_def)
  have bal: "ps_terminal_events st = ps_processed_packets st + drop_total st"
    "ps_terminal_events st = of_nat (card (ps_completed_lifecycles st))"
    using assms(1,3) unfolding sys_inv_def node_inv_def stats_inv_def by blast+
  then show "ps_terminal_events st = ps_processed_packets st + drop_total st" by simp
  let ?c = "card (set (s_received s))" and ?l = "length (s_received s)"
  have le: "?c \<le> ?l" by (rule card_length)
  have "ps_duplicate_events st = of_nat ?l - of_nat ?c" using sum bal(2) c by (simp add: algebra_simps)
  also have "\<dots> = of_nat (?l - ?c)" using le by (simp add: of_nat_diff)
  finally have dup: "ps_duplicate_events st = of_nat (?l - ?c)" .
  have "?l - ?c < 2 ^ LENGTH(64)" using assms(4) by simp
  then have "unat (of_nat (?l - ?c) :: u64) = ?l - ?c" by (rule unat_of_nat_id)
  then have "ps_duplicate_events st = 0 \<longleftrightarrow> ?l - ?c = 0" unfolding dup by (metis unat_eq_zero)
  then show "ps_duplicate_events st = 0 \<longleftrightarrow> distinct (s_received s)"
    using le by (metis card_distinct diff_is_0_eq distinct_card eq_imp_le le_antisym)
qed

lemma internal_steps_ingress:
  "internal_step\<^sup>*\<^sup>* (is_sys x) s \<Longrightarrow> (ingress_step recv strerror)\<^sup>*\<^sup>* x (x\<lparr>is_sys := s\<rparr>)"
proof (induction rule: rtranclp_induct)
  case (step s s')
  have "ingress_step recv strerror (x\<lparr>is_sys := s\<rparr>) (x\<lparr>is_sys := s\<rparr>\<lparr>is_sys := s'\<rparr>)"
    by (rule ingress_step.work) (simp add: step(2))
  with step.IH show ?case by simp
qed simp

section \<open>Properties\<close>

text \<open>
  \<^bold>\<open>C3\<close> From the socket to the statistics, under any scheduling of the threads: after \<open>n\<close> datagrams were read and some
  packets injected by \<^verbatim>\<open>send-packet\<close>, work never has to stop short as long as the processor has not been stopped: a
  state without work in flight can be reached, and in every such state (after a stop too) the statistics have completed exactly the identities \<open>1 .. n\<close> of the datagrams (received, refused by
  the parser or by the validator) and the injected ones, terminal plus duplicate events are as many as
  datagrams and injections together, and terminal events are processed packets plus drops. Without
  injection there is one terminal event per datagram and no duplicate. With it there is no duplicate
  exactly if no table entry was injected twice and the counter of the datagrams has not reached an injected identity.
\<close>

theorem datagrams_accounted:
  assumes "ingress_start x" and "(ingress_step recv strerror)\<^sup>*\<^sup>* x y"
    and "n = datagrams recv (ur_recv_calls (is_udp y))" and "ids = is_injected y" and "n + length ids < 2 ^ 64"
  shows "(pp_running (n_processor (s_node (is_sys y))) \<longrightarrow>
      (\<exists>z. (ingress_step recv strerror)\<^sup>*\<^sup>* y z \<and> quiescent (is_sys z) \<and> is_udp z = is_udp y \<and> is_injected z = ids)) \<and>
    (let st = n_stats (s_node (is_sys y)) in
     quiescent (is_sys y) \<longrightarrow>
       ps_completed_lifecycles st = of_nat ` {1..n} \<union> set ids \<and>
       ps_terminal_events st + ps_duplicate_events st = of_nat (n + length ids) \<and>
       ps_terminal_events st = ps_processed_packets st + drop_total st \<and>
       (ids = [] \<longrightarrow> ps_terminal_events st = of_nat n \<and> ps_duplicate_events st = 0) \<and>
       (ps_duplicate_events st = 0 \<longleftrightarrow> distinct ids \<and> (\<forall>i \<in> set ids. n < unat i)))"
proof
  have inv: "ingress_inv recv y" by (rule receiving.reachable_invariant [OF assms(1,2)])
  then have sys: "sys_inv (is_sys y)" and rec: "mset (s_received (is_sys y)) = mset (map of_nat [1..<Suc n] @ ids)"
    using assms(3,4) by (simp_all add: ingress_inv_def Let_def del: upt_Suc)
  show "pp_running (n_processor (s_node (is_sys y))) \<longrightarrow>
      (\<exists>z. (ingress_step recv strerror)\<^sup>*\<^sup>* y z \<and> quiescent (is_sys z) \<and> is_udp z = is_udp y \<and> is_injected z = ids)"
  proof
    assume "pp_running (n_processor (s_node (is_sys y)))"
    from reaches_quiescence [OF sys this] obtain s where "internal_step\<^sup>*\<^sup>* (is_sys y) s" "quiescent s" by blast
    then show "\<exists>z. (ingress_step recv strerror)\<^sup>*\<^sup>* y z \<and> quiescent (is_sys z) \<and> is_udp z = is_udp y \<and> is_injected z = ids"
    using internal_steps_ingress assms(4) by (intro exI [of _ "y\<lparr>is_sys := s\<rparr>"]) simp
  qed
  have len: "length (s_received (is_sys y)) = n + length ids" using mset_eq_length [OF rec] by (simp del: upt_Suc)
  have all: "set (s_received (is_sys y)) = of_nat ` {1..n} \<union> set ids"
    using mset_eq_setD [OF rec] by (auto simp: atLeastAtMost_upt simp del: upt_Suc)
  have "n < 2 ^ 64" using assms(5) by simp
  note d = received_distinct [OF inv assms(3) this, folded assms(4)]
  show "let st = n_stats (s_node (is_sys y)) in
     quiescent (is_sys y) \<longrightarrow>
       ps_completed_lifecycles st = of_nat ` {1..n} \<union> set ids \<and>
       ps_terminal_events st + ps_duplicate_events st = of_nat (n + length ids) \<and>
       ps_terminal_events st = ps_processed_packets st + drop_total st \<and>
       (ids = [] \<longrightarrow> ps_terminal_events st = of_nat n \<and> ps_duplicate_events st = 0) \<and>
       (ps_duplicate_events st = 0 \<longleftrightarrow> distinct ids \<and> (\<forall>i \<in> set ids. n < unat i))"
    unfolding Let_def
  proof
    assume q: "quiescent (is_sys y)"
    note c = quiescent_counts [OF sys q refl, unfolded len, OF assms(5)]
    have "ids = [] \<Longrightarrow> ps_duplicate_events (n_stats (s_node (is_sys y))) = 0" using c(4) d by simp
    moreover from this have "ids = [] \<Longrightarrow> ps_terminal_events (n_stats (s_node (is_sys y))) = of_nat n" using c(2) by simp
    ultimately show "ps_completed_lifecycles (n_stats (s_node (is_sys y))) = of_nat ` {1..n} \<union> set ids \<and>
       ps_terminal_events (n_stats (s_node (is_sys y))) + ps_duplicate_events (n_stats (s_node (is_sys y))) = of_nat (n + length ids) \<and>
       ps_terminal_events (n_stats (s_node (is_sys y))) =
         ps_processed_packets (n_stats (s_node (is_sys y))) + drop_total (n_stats (s_node (is_sys y))) \<and>
       (ids = [] \<longrightarrow> ps_terminal_events (n_stats (s_node (is_sys y))) = of_nat n \<and> ps_duplicate_events (n_stats (s_node (is_sys y))) = 0) \<and>
       (ps_duplicate_events (n_stats (s_node (is_sys y))) = 0 \<longleftrightarrow> distinct ids \<and> (\<forall>i \<in> set ids. n < unat i))"
      using c(1-3) c(4) [unfolded d] all by blast
  qed
qed

definition ingress_demo :: ingress_system where
  "ingress_demo = \<lparr>is_sys = sys_demo, is_udp = udp_demo, is_after = None, is_injected = []\<rparr>"

definition demo_recv :: "nat \<Rightarrow> recv_answer" where
  "demo_recv = (\<lambda>_. Datagram ''id=7;payload=hi'' 0x7F000001 4000)"

theorem datagrams_accounted_witness:
  "\<exists>z. (ingress_step demo_recv (\<lambda>_. []))\<^sup>*\<^sup>* ingress_demo z \<and> quiescent (is_sys z) \<and> ur_recv_calls (is_udp z) = 1 \<and>
     ps_terminal_events (n_stats (s_node (is_sys z))) = 1 \<and> ps_duplicate_events (n_stats (s_node (is_sys z))) = 0"
proof -
  have start: "ingress_start ingress_demo"
    using sys_demo_start by (simp add: ingress_start_def ingress_demo_def udp_demo_def UdpReceiver_new_def)
  obtain mo e after res r where pub: "publication demo_recv (\<lambda>_. []) udp_demo (n_env (s_node sys_demo)) = Inr (mo, e, after, res, r)"
    and calls: "ur_recv_calls r = 1"
    using publication_message [of demo_recv "\<lambda>_. []" udp_demo "n_env (s_node sys_demo)"]
    by (auto simp: udp_demo_def UdpReceiver_new_def)
  let ?y = "ingress_demo\<lparr>is_sys := (case mo of None \<Rightarrow> set_env e (is_sys ingress_demo)
      | Some m \<Rightarrow> start_publish Ingress m (set_env e (is_sys ingress_demo))), is_udp := r, is_after := Some after\<rparr>"
  have "ingress_step demo_recv (\<lambda>_. []) ingress_demo ?y"
    by (rule ingress_step.read) (use pub in \<open>simp_all add: ingress_demo_def sys_demo_def\<close>)
  then have y: "(ingress_step demo_recv (\<lambda>_. []))\<^sup>*\<^sup>* ingress_demo ?y" by (rule r_into_rtranclp)
  have udp: "is_udp ?y = r" "is_injected ?y = []" by (simp_all add: ingress_demo_def)
  have small: "datagrams demo_recv (ur_recv_calls (is_udp ?y)) + length (is_injected ?y) < 2 ^ 64"
    using calls by (simp add: ingress_demo_def)
  have run: "pp_running (n_processor (s_node (is_sys ?y)))"
    by (simp add: ingress_demo_def sys_demo_def node_demo_def tx_processor_def PacketProcessor_new_def set_env_def
        start_publish_def split: option.split)
  from datagrams_accounted [OF start y refl refl small, unfolded udp] run obtain z where
    z: "(ingress_step demo_recv (\<lambda>_. []))\<^sup>*\<^sup>* ?y z" "quiescent (is_sys z)" "is_udp z = r" "is_injected z = []"
    by blast
  from y z(1) have yz: "(ingress_step demo_recv (\<lambda>_. []))\<^sup>*\<^sup>* ingress_demo z" by (rule rtranclp_trans)
  have one: "datagrams demo_recv (ur_recv_calls (is_udp z)) = 1"
    using z(3) calls by (simp add: is_datagram_def demo_recv_def)
  have small1: "1 + length ([] :: u64 list) < 2 ^ 64" by simp
  have "ps_terminal_events (n_stats (s_node (is_sys z))) = of_nat 1 \<and> ps_duplicate_events (n_stats (s_node (is_sys z))) = 0"
    using datagrams_accounted [OF start yz one [symmetric] z(4) [symmetric] small1, THEN conjunct2] z(2) unfolding Let_def by blast
  with yz z(2,3) calls show ?thesis by (intro exI [of _ z]) simp
qed

end
