(* ===== verification/Event_Loop.thy ===== *)
theory Event_Loop
  imports Fd_Registry
begin

text \<open>
  The event loop (system/epoll, system/event_source, system/wakeup): \<^verbatim>\<open>EventFd\<close>, \<^verbatim>\<open>EpollManager\<close> and
  \<^verbatim>\<open>EpollEventLoop\<close>. The answers of the operating system to a retried call are a list; a call that has only
  been interrupted so far has no result yet (\<open>None\<close>). \<open>loop_any\<close> interleaves the loop thread with the
  threads that call \<open>stop()\<close>.
\<close>

section \<open>Retried system calls\<close>

abbreviation EINTR_errno :: int where "EINTR_errno \<equiv> 4"

abbreviation EAGAIN_errno :: int where "EAGAIN_errno \<equiv> 11"

text \<open>A descriptor is created and registered, or creation raises.\<close>

definition EventFd_new :: "int \<Rightarrow> bool \<Rightarrow> fd_world \<Rightarrow> (exn + FileDescriptor) \<times> fd_world" where
  "EventFd_new os_fd registry w =
     (if os_fd < 0 then (Inl (RuntimeError ''eventfd creation failed''), w)
      else let (d, w) = FileDescriptor_new os_fd registry EventFd w in (Inr d, w))"

definition EpollManager_new :: "int \<Rightarrow> bool \<Rightarrow> fd_world \<Rightarrow> (exn + FileDescriptor) \<times> fd_world" where
  "EpollManager_new os_fd registry w =
     (if os_fd < 0 then (Inl (RuntimeError ''epoll_create1 failed''), w)
      else let (d, w) = FileDescriptor_new os_fd registry Epoll w in (Inr d, w))"

text \<open>An answer is the return value, \<^verbatim>\<open>errno\<close> and, for a read, the value read.\<close>

fun notify :: "(int \<times> int) list \<Rightarrow> (exn + unit) option" where
  "notify [] = None"
| "notify ((written, errno) # answers) =
     (if written = 8 then Some (Inr ())
      else if written < 0 \<and> errno = EINTR_errno then notify answers
      else Some (Inl (RuntimeError ''eventfd notify failed'')))"

fun drain :: "(int \<times> int \<times> u64) list \<Rightarrow> (exn + u64) option" where
  "drain [] = None"
| "drain ((bytes_read, errno, value) # answers) =
     (if bytes_read = 8 then Some (Inr value)
      else if bytes_read < 0 \<and> errno = EINTR_errno then drain answers
      else if bytes_read < 0 \<and> errno = EAGAIN_errno then Some (Inr 0)
      else Some (Inl (RuntimeError ''eventfd drain failed'')))"

text \<open>The handler of the wake-up descriptor drains it and forgets the value.\<close>

definition ShutdownWakeup_onEvent :: "(int \<times> int \<times> u64) list \<Rightarrow> (exn + unit) option" where
  "ShutdownWakeup_onEvent answers = map_option (map_sum (\<lambda>ex. ex) (\<lambda>_. ())) (drain answers)"

definition epoll_add :: "int \<Rightarrow> (exn + unit)" where
  "epoll_add answer = (if answer < 0 then Inl (RuntimeError ''epoll add failed'') else Inr ())"

definition epoll_remove :: "int \<Rightarrow> (exn + unit)" where
  "epoll_remove answer = (if answer < 0 then Inl (RuntimeError ''epoll remove failed'') else Inr ())"

record EpollEvent =
  ev_fd :: int
  ev_events :: u32

text \<open>An answer of \<^verbatim>\<open>epoll_wait\<close>: the count, \<^verbatim>\<open>errno\<close> and the array it filled.\<close>

fun epoll_wait :: "(int \<times> int \<times> EpollEvent list) list \<Rightarrow> (exn + EpollEvent list) option" where
  "epoll_wait [] = None"
| "epoll_wait ((ready_count, errno, native_events) # answers) =
     (if ready_count \<ge> 0 then Some (Inr (take (nat ready_count) native_events))
      else if errno = EINTR_errno then epoll_wait answers
      else Some (Inl (RuntimeError ''epoll wait failed'')))"

section \<open>The loop\<close>

type_synonym 'h handlers = "(int, 'h) omap"

definition registerHandler :: "int \<Rightarrow> 'h \<Rightarrow> 'h handlers \<Rightarrow> 'h handlers" where
  "registerHandler fd handler handlers = omap_assign fd handler handlers"

fun dispatch_events :: "'h handlers \<Rightarrow> EpollEvent list \<Rightarrow> ('h \<times> EpollEvent) list" where
  "dispatch_events handlers [] = []"
| "dispatch_events handlers (event # events) =
     (case map_of handlers (ev_fd event) of
        None \<Rightarrow> dispatch_events handlers events
      | Some h \<Rightarrow> (h, event) # dispatch_events handlers events)"

datatype loop_pc = NotStarted | Checking | InWait | Dispatching "EpollEvent list" | Exited

record 'h EpollEventLoop =
  el_running :: bool
  el_handlers :: "'h handlers"
  el_pc :: loop_pc
  el_notified :: nat
  el_called :: "('h \<times> EpollEvent) list"

definition EpollEventLoop_new :: "int \<Rightarrow> 'h \<Rightarrow> 'h EpollEventLoop" where
  "EpollEventLoop_new shutdown_fd shutdown_handler =
     \<lparr>el_running = False, el_handlers = registerHandler shutdown_fd shutdown_handler [], el_pc = NotStarted,
      el_notified = 0, el_called = []\<rparr>"

definition loop_stop :: "'h EpollEventLoop \<Rightarrow> 'h EpollEventLoop" where
  "loop_stop l =
     (let was_running = el_running l;
          l = l\<lparr>el_running := False\<rparr>
      in if was_running then l\<lparr>el_notified := Suc (el_notified l)\<rparr> else l)"

text \<open>The steps of \<open>run()\<close>; \<open>wait\<close> returns within its timeout of one second, possibly without events.\<close>

inductive run_step :: "'h EpollEventLoop \<Rightarrow> 'h EpollEventLoop \<Rightarrow> bool" where
  begin_run: "el_pc l = NotStarted \<Longrightarrow> run_step l (l\<lparr>el_running := True, el_pc := Checking\<rparr>)"
| check_running: "el_pc l = Checking \<Longrightarrow> el_running l \<Longrightarrow> run_step l (l\<lparr>el_pc := InWait\<rparr>)"
| check_stopped: "el_pc l = Checking \<Longrightarrow> \<not> el_running l \<Longrightarrow> run_step l (l\<lparr>el_pc := Exited\<rparr>)"
| wait_returns: "el_pc l = InWait \<Longrightarrow> length events \<le> 64 \<Longrightarrow> run_step l (l\<lparr>el_pc := Dispatching events\<rparr>)"
| dispatch_one: "el_pc l = Dispatching (event # events) \<Longrightarrow>
    run_step l (l\<lparr>el_pc := Dispatching events, el_called := el_called l @ dispatch_events (el_handlers l) [event]\<rparr>)"
| dispatch_done: "el_pc l = Dispatching [] \<Longrightarrow> run_step l (l\<lparr>el_pc := Checking\<rparr>)"

inductive_cases run_stepE: "run_step l l'"

section \<open>Lemmas\<close>

lemma dispatch_events_append:
  "dispatch_events hs (evs @ evs') = dispatch_events hs evs @ dispatch_events hs evs'"
  by (induction evs) (simp_all split: option.split)

lemma dispatch_batch:
  "el_pc l = Dispatching evs \<Longrightarrow>
     run_step\<^sup>*\<^sup>* l (l\<lparr>el_pc := Checking, el_called := el_called l @ dispatch_events (el_handlers l) evs\<rparr>)"
proof (induction evs arbitrary: l)
  case Nil
  then have "run_step l (l\<lparr>el_pc := Checking\<rparr>)" by (rule dispatch_done)
  then show ?case by simp
next
  case (Cons ev evs)
  let ?l = "l\<lparr>el_pc := Dispatching evs, el_called := el_called l @ dispatch_events (el_handlers l) [ev]\<rparr>"
  have step: "run_step l ?l" using Cons.prems by (rule dispatch_one)
  have "run_step\<^sup>*\<^sup>* ?l (?l\<lparr>el_pc := Checking, el_called := el_called ?l @ dispatch_events (el_handlers ?l) evs\<rparr>)"
    by (rule Cons.IH) simp
  moreover have "?l\<lparr>el_pc := Checking, el_called := el_called ?l @ dispatch_events (el_handlers ?l) evs\<rparr> =
      l\<lparr>el_pc := Checking, el_called := el_called l @ dispatch_events (el_handlers l) (ev # evs)\<rparr>"
    using dispatch_events_append [of "el_handlers l" "[ev]" evs] by simp
  ultimately show ?case using step by (metis converse_rtranclp_into_rtranclp)
qed

text \<open>The steps a loop that has been told to stop still makes.\<close>

fun remaining :: "loop_pc \<Rightarrow> nat" where
  "remaining NotStarted = 0"
| "remaining Checking = 1"
| "remaining InWait = 68"
| "remaining (Dispatching evs) = length evs + 2"
| "remaining Exited = 0"

lemma stopped_step:
  assumes "run_step l l'" and "\<not> el_running l" and "el_pc l \<noteq> NotStarted"
  shows "\<not> el_running l' \<and> el_pc l' \<noteq> NotStarted \<and> remaining (el_pc l') < remaining (el_pc l)"
  using assms by (cases rule: run_step.cases) auto

lemma loop_not_stuck: "el_pc l \<noteq> Exited \<Longrightarrow> \<exists>l'. run_step l l'"
  by (cases "el_pc l"; cases "el_running l") (use run_step.intros list.exhaust in \<open>metis le0 list.size(3)\<close>)+

section \<open>The loop and its stoppers\<close>

definition loop_any :: "'h EpollEventLoop \<Rightarrow> 'h EpollEventLoop \<Rightarrow> bool" where
  "loop_any l l' \<longleftrightarrow> run_step l l' \<or> l' = loop_stop l"

definition loop_start :: "'h EpollEventLoop \<Rightarrow> bool" where
  "loop_start l \<longleftrightarrow> \<not> el_running l \<and> el_pc l = NotStarted \<and> el_called l = []"

definition batch_ok :: "'h EpollEventLoop \<Rightarrow> bool" where
  "batch_ok l \<longleftrightarrow> remaining (el_pc l) \<le> 68"

lemma batch_ok_step: "loop_any l l' \<Longrightarrow> batch_ok l \<Longrightarrow> batch_ok l'"
proof -
  assume "loop_any l l'" "batch_ok l"
  then consider "run_step l l'" | "l' = loop_stop l" by (auto simp: loop_any_def)
  then show ?thesis
  proof cases
    case 1
    then show ?thesis using \<open>batch_ok l\<close> by (cases rule: run_step.cases) (auto simp: batch_ok_def)
  next
    case 2
    then show ?thesis using \<open>batch_ok l\<close> by (simp add: batch_ok_def loop_stop_def Let_def)
  qed
qed

interpretation el: transition_system loop_start loop_any batch_ok
proof unfold_locales
  show "loop_start l \<Longrightarrow> batch_ok l" for l :: "'h EpollEventLoop" by (simp add: loop_start_def batch_ok_def)
qed (rule batch_ok_step)

lemma stopped_steps:
  "(run_step ^^ n) l l' \<Longrightarrow> \<not> el_running l \<Longrightarrow> el_pc l \<noteq> NotStarted \<Longrightarrow>
     \<not> el_running l' \<and> el_pc l' \<noteq> NotStarted \<and> n + remaining (el_pc l') \<le> remaining (el_pc l)"
proof (induction n arbitrary: l')
  case (Suc n)
  then obtain l1 where l1: "(run_step ^^ n) l l1" "run_step l1 l'" by auto
  from Suc.IH [OF l1(1) Suc.prems(2,3)] stopped_step [OF l1(2)] show ?case by auto
qed simp

lemma stopped_exits:
  "\<not> el_running l \<Longrightarrow> el_pc l \<noteq> NotStarted \<Longrightarrow> \<exists>l'. run_step\<^sup>*\<^sup>* l l' \<and> el_pc l' = Exited"
proof (induction "remaining (el_pc l)" arbitrary: l rule: less_induct)
  case less
  show ?case
  proof (cases "el_pc l = Exited")
    case False
    then obtain l1 where s: "run_step l l1" using loop_not_stuck by blast
    from stopped_step [OF s less.prems] less.hyps [of l1] obtain l' where "run_step\<^sup>*\<^sup>* l1 l'" "el_pc l' = Exited" by blast
    then show ?thesis using s by (meson converse_rtranclp_into_rtranclp)
  qed blast
qed

section \<open>Properties\<close>

text \<open>
  Interrupted system calls are retried and nothing else is: \<open>notify\<close>, \<open>drain\<close> and \<open>wait\<close> skip
  exactly the answers that say the call was interrupted (\<^verbatim>\<open>EINTR\<close>) and return what the first other
  answer says: success, an empty drain when the counter is zero, or the exception; while every answer
  is an interruption there is no result.
\<close>

theorem interrupted_calls_retried:
  "notify ws = (case dropWhile (\<lambda>(n, errno). n < 0 \<and> errno = EINTR_errno) ws of [] \<Rightarrow> None
     | (n, errno) # _ \<Rightarrow> Some (if n = 8 then Inr () else Inl (RuntimeError ''eventfd notify failed''))) \<and>
   drain rs = (case dropWhile (\<lambda>(n, errno, _). n < 0 \<and> errno = EINTR_errno) rs of [] \<Rightarrow> None
     | (n, errno, value) # _ \<Rightarrow> Some (if n = 8 then Inr value else if n < 0 \<and> errno = EAGAIN_errno then Inr 0
         else Inl (RuntimeError ''eventfd drain failed''))) \<and>
   epoll_wait es = (case dropWhile (\<lambda>(n, errno, _). n < 0 \<and> errno = EINTR_errno) es of [] \<Rightarrow> None
     | (n, errno, native) # _ \<Rightarrow> Some (if n < 0 then Inl (RuntimeError ''epoll wait failed'') else Inr (take (nat n) native)))"
proof (intro conjI)
  show "notify ws = (case dropWhile (\<lambda>(n, errno). n < 0 \<and> errno = EINTR_errno) ws of [] \<Rightarrow> None
     | (n, errno) # _ \<Rightarrow> Some (if n = 8 then Inr () else Inl (RuntimeError ''eventfd notify failed'')))"
    by (induction ws rule: notify.induct) auto
  show "drain rs = (case dropWhile (\<lambda>(n, errno, _). n < 0 \<and> errno = EINTR_errno) rs of [] \<Rightarrow> None
     | (n, errno, value) # _ \<Rightarrow> Some (if n = 8 then Inr value else if n < 0 \<and> errno = EAGAIN_errno then Inr 0
         else Inl (RuntimeError ''eventfd drain failed'')))"
    by (induction rs rule: drain.induct) auto
  show "epoll_wait es = (case dropWhile (\<lambda>(n, errno, _). n < 0 \<and> errno = EINTR_errno) es of [] \<Rightarrow> None
     | (n, errno, native) # _ \<Rightarrow> Some (if n < 0 then Inl (RuntimeError ''epoll wait failed'') else Inr (take (nat n) native)))"
    by (induction es rule: epoll_wait.induct) auto
qed

text \<open>
  A batch of events is dispatched in order, each event to the handler registered for its
  descriptor (the latest registration), and events of unregistered descriptors are ignored; then the loop
  looks at the running flag again.
\<close>

theorem batch_dispatched_in_order:
  assumes "el_pc l = Dispatching evs" and "omap_wf (el_handlers l)"
  shows "run_step\<^sup>*\<^sup>* l (l\<lparr>el_pc := Checking, el_called := el_called l @
      map (\<lambda>ev. (the (map_of (el_handlers l) (ev_fd ev)), ev)) (filter (\<lambda>ev. map_of (el_handlers l) (ev_fd ev) \<noteq> None) evs)\<rparr>) \<and>
    map_of (registerHandler fd h (el_handlers l)) = (map_of (el_handlers l))(fd \<mapsto> h)"
proof -
  have "dispatch_events hs evs = map (\<lambda>ev. (the (map_of hs (ev_fd ev)), ev)) (filter (\<lambda>ev. map_of hs (ev_fd ev) \<noteq> None) evs)"
    for hs :: "'a handlers" and evs
    by (induction evs) (auto split: option.split)
  with dispatch_batch [OF assms(1)] om.find_assign [OF assms(2)] show ?thesis by (simp add: registerHandler_def)
qed

theorem batch_dispatched_in_order_witness:
  "let l = (EpollEventLoop_new 3 ''shutdown'')\<lparr>el_pc := Dispatching [\<lparr>ev_fd = 9, ev_events = 1\<rparr>, \<lparr>ev_fd = 3, ev_events = 1\<rparr>]\<rparr>
   in run_step\<^sup>*\<^sup>* l (l\<lparr>el_pc := Checking, el_called := [(''shutdown'', \<lparr>ev_fd = 3, ev_events = 1\<rparr>)]\<rparr>)"
  using batch_dispatched_in_order [of "(EpollEventLoop_new 3 ''shutdown'')\<lparr>el_pc := Dispatching [\<lparr>ev_fd = 9, ev_events = 1\<rparr>, \<lparr>ev_fd = 3, ev_events = 1\<rparr>]\<rparr>"
      "[\<lparr>ev_fd = 9, ev_events = 1\<rparr>, \<lparr>ev_fd = 3, ev_events = 1\<rparr>]" 3 "''shutdown''"]
  by (simp add: EpollEventLoop_new_def registerHandler_def)

text \<open>
  Stopping a running loop works: once \<open>stop()\<close> is called after \<open>run()\<close> has begun, the loop
  makes at most 68 further steps on any schedule (it returns from at most one wait and dispatches at most
  that batch of at most 64 events), cannot get stuck, and exits; if it was running, the wake-up
  descriptor is notified.
\<close>

theorem stop_ends_running_loop:
  assumes "loop_start s" and "loop_any\<^sup>*\<^sup>* s l" and "el_pc l \<noteq> NotStarted"
  shows "(\<forall>n l'. (run_step ^^ n) (loop_stop l) l' \<longrightarrow> n \<le> 68) \<and>
    (\<forall>l'. run_step\<^sup>*\<^sup>* (loop_stop l) l' \<and> el_pc l' \<noteq> Exited \<longrightarrow> (\<exists>l''. run_step l' l'')) \<and>
    (\<exists>l'. run_step\<^sup>*\<^sup>* (loop_stop l) l' \<and> el_pc l' = Exited) \<and>
    el_notified (loop_stop l) = el_notified l + (if el_running l then 1 else 0)"
proof -
  have ok: "batch_ok l" by (rule el.reachable_invariant [OF assms(1,2)])
  have st: "\<not> el_running (loop_stop l)" "el_pc (loop_stop l) = el_pc l"
    "el_notified (loop_stop l) = el_notified l + (if el_running l then 1 else 0)"
    by (simp_all add: loop_stop_def Let_def)
  have "n \<le> 68" if "(run_step ^^ n) (loop_stop l) l'" for n l'
    using stopped_steps [OF that] st assms(3) ok by (simp add: batch_ok_def)
  then show ?thesis using stopped_exits [of "loop_stop l"] st assms(3) loop_not_stuck by auto
qed

theorem stop_ends_running_loop_witness:
  "\<exists>l'. run_step\<^sup>*\<^sup>* (loop_stop ((EpollEventLoop_new 3 ()) \<lparr>el_running := True, el_pc := Checking\<rparr>)) l' \<and> el_pc l' = Exited"
proof -
  let ?s = "EpollEventLoop_new 3 ()"
  have "run_step ?s (?s\<lparr>el_running := True, el_pc := Checking\<rparr>)"
    by (rule begin_run) (simp add: EpollEventLoop_new_def)
  then have "loop_any\<^sup>*\<^sup>* ?s (?s\<lparr>el_running := True, el_pc := Checking\<rparr>)"
    by (intro r_into_rtranclp) (simp add: loop_any_def)
  then show ?thesis
    using stop_ends_running_loop [of ?s "?s\<lparr>el_running := True, el_pc := Checking\<rparr>"]
    by (simp add: loop_start_def EpollEventLoop_new_def)
qed

text \<open>
  \<^bold>\<open>C40\<close> A stop that comes before \<open>run()\<close> has set its flag is lost: \<open>stop()\<close> then neither notifies the wake-up
  descriptor nor has any effect on the loop, which can run for ever (its thread is never joined).
\<close>

theorem stop_before_run_is_lost:
  assumes "loop_start l"
  shows "loop_stop l = l \<and>
    (\<exists>f. f 0 = loop_stop l \<and> (\<forall>i. run_step (f i) (f (Suc i))) \<and> (\<forall>i. el_pc (f i) \<noteq> Exited))"
proof -
  have same: "loop_stop l = l" using assms by (simp add: loop_start_def loop_stop_def Let_def)
  let ?r = "l\<lparr>el_running := True\<rparr>"
  define g where "g i = (if i mod 3 = 0 then ?r\<lparr>el_pc := Checking\<rparr>
    else if i mod 3 = 1 then ?r\<lparr>el_pc := InWait\<rparr> else ?r\<lparr>el_pc := Dispatching []\<rparr>)" for i :: nat
  define f where "f i = (case i of 0 \<Rightarrow> l | Suc j \<Rightarrow> g j)" for i
  have "run_step l (g 0)" using assms begin_run [of l] by (simp add: g_def loop_start_def)
  moreover have "run_step (g i) (g (Suc i))" for i
  proof -
    consider "i mod 3 = 0" | "i mod 3 = 1" | "i mod 3 = 2" by linarith
    then show ?thesis
    proof cases
      case 1
      then have "Suc i mod 3 = 1" by presburger
      with 1 check_running [of "?r\<lparr>el_pc := Checking\<rparr>"] show ?thesis by (simp add: g_def)
    next
      case 2
      then have "Suc i mod 3 = 2" by presburger
      with 2 wait_returns [of "?r\<lparr>el_pc := InWait\<rparr>" "[]"] show ?thesis by (simp add: g_def)
    next
      case 3
      then have "Suc i mod 3 = 0" by presburger
      with 3 dispatch_done [of "?r\<lparr>el_pc := Dispatching []\<rparr>"] show ?thesis by (simp add: g_def)
    qed
  qed
  ultimately have "run_step (f i) (f (Suc i))" for i by (cases i) (simp_all add: f_def)
  moreover have "el_pc (f i) \<noteq> Exited" for i
    using assms by (cases i) (simp_all add: f_def g_def loop_start_def)
  moreover have "f 0 = loop_stop l" by (simp add: f_def same)
  ultimately show ?thesis using same by blast
qed

theorem stop_before_run_is_lost_witness:
  "loop_stop (EpollEventLoop_new 3 ()) = EpollEventLoop_new 3 ()"
  using stop_before_run_is_lost [of "EpollEventLoop_new 3 ()"]
  by (simp add: loop_start_def EpollEventLoop_new_def)

end
