(* ===== verification/Control_Server.thy ===== *)
theory Control_Server
  imports Control_Dispatch Udp_Ingress
begin

text \<open>
  The control server (control/ControlServer, system/epoll/ControlReadyHandler) and its client, the command-line mode of
  the daemon (\<^verbatim>\<open>executeControlCommand\<close> in daemon/main.cpp). What \<^verbatim>\<open>accept4\<close> and \<^verbatim>\<open>read\<close> answer is
  given by a list, one entry per call of \<^verbatim>\<open>accept4\<close>; the loop has no result (\<open>Unfinished\<close>) while
  the list only has clients. What is handed to \<^verbatim>\<open>write\<close> and the descriptors closed are recorded.
\<close>

section \<open>Server\<close>

record ControlServer =
  cv_publisher :: SnapshotPublisher
  cv_config :: Config
  cv_fd_registry :: FdRegistry

record control_io =
  co_written :: "(int \<times> string) list"
  co_closed :: "int list"

text \<open>A client and the bytes it has sent (\<open>None\<close>: the read fails), or an error.\<close>

datatype accept_answer = Accepted int "string option" | AcceptError int

definition close_client :: "int \<Rightarrow> control_io \<Rightarrow> control_io" where
  "close_client fd io = io\<lparr>co_closed := co_closed io @ [fd]\<rparr>"

definition writeControlResponse :: "int \<Rightarrow> ControlResponse \<Rightarrow> control_io \<Rightarrow> control_io" where
  "writeControlResponse client_fd resp io =
     (let wire = (if rp_payload resp = [] then encodeResponse resp else rp_payload resp)
      in io\<lparr>co_written := co_written io @ [(client_fd, wire)]\<rparr>)"

definition blank :: "char \<Rightarrow> bool" where
  "blank c = (c = CHR '' '' \<or> c = CHR 0x0A \<or> c = CHR 0x0D \<or> c = CHR 0x09)"

definition trim_end :: "string \<Rightarrow> string" where
  "trim_end s = rev (dropWhile blank (rev s))"

definition READ_SIZE :: nat where "READ_SIZE = 127"

definition server_context :: "(Message \<Rightarrow> node \<Rightarrow> node delivery) \<Rightarrow> ControlServer \<Rightarrow> node \<Rightarrow> ControlContext" where
  "server_context pub s w =
     \<lparr>cx_publisher = Some (cv_publisher s), cx_config = Some (cv_config s), cx_bus = Some pub,
      cx_forwarding_engine = pp_forwarding_engine (n_processor w), cx_fd_registry = Some (cv_fd_registry s),
      cx_transport_manager = pp_transport_manager (n_processor w)\<rparr>"

definition received_command_line :: "string \<Rightarrow> string" where
  "received_command_line command = ''Control command received: '' @ command"

definition parse_request :: "string \<Rightarrow> ControlRequest option" where
  "parse_request cmd =
     (case str_find ''|'' cmd of
        None \<Rightarrow> None
      | Some sep \<Rightarrow> Some \<lparr>rq_version = take sep cmd, rq_command = trim_end (drop (sep + 1) cmd)\<rparr>)"

definition handleClient ::
  "control_params \<Rightarrow> (Message \<Rightarrow> node \<Rightarrow> node delivery) \<Rightarrow> ControlServer \<Rightarrow> int \<Rightarrow> string option \<Rightarrow>
     node \<times> control_io \<Rightarrow> (node \<times> control_io) delivery" where
  "handleClient p pub s client_fd data = (\<lambda>(w, io).
     case map_option (take READ_SIZE) data of
       Some (c # cs) \<Rightarrow>
         (case parse_request (c # cs) of
            None \<Rightarrow>
              and_then (makeJsonError (cp_dump p) err_InvalidRequest ''malformed_request'') (\<lambda>resp.
                Delivered (w, close_client client_fd (writeControlResponse client_fd resp io)))
          | Some req \<Rightarrow>
              let w = with_env w (log_info (received_command_line (rq_command req)) (n_env w)) in
              and_then (dispatchControlRequest p req (server_context pub s w) w) (\<lambda>(resp, w).
                Delivered (w, close_client client_fd (writeControlResponse client_fd resp io))))
     | _ \<Rightarrow> Delivered (w, close_client client_fd io))"

fun control_accept_loop ::
  "control_params \<Rightarrow> (Message \<Rightarrow> node \<Rightarrow> node delivery) \<Rightarrow> ControlServer \<Rightarrow> accept_answer list \<Rightarrow>
     node \<times> control_io \<Rightarrow> (node \<times> control_io) delivery" where
  "control_accept_loop p pub s [] st = Unfinished"
| "control_accept_loop p pub s (AcceptError errno # rest) (w, io) =
     Delivered (if errno = EAGAIN then (w, io) else (with_env w (log_error ''Control socket accept failed'' (n_env w)), io))"
| "control_accept_loop p pub s (Accepted client_fd data # rest) st =
     and_then (handleClient p pub s client_fd data st) (control_accept_loop p pub s rest)"

definition control_processReadableEvent ::
  "control_params \<Rightarrow> (Message \<Rightarrow> node \<Rightarrow> node delivery) \<Rightarrow> ControlServer \<Rightarrow> accept_answer list \<Rightarrow>
     node \<times> control_io \<Rightarrow> (node \<times> control_io) delivery" where
  "control_processReadableEvent p pub s accepts st = control_accept_loop p pub s accepts st"

definition ControlReady_onEvent ::
  "control_params \<Rightarrow> (Message \<Rightarrow> node \<Rightarrow> node delivery) \<Rightarrow> ControlServer \<Rightarrow> accept_answer list \<Rightarrow>
     node \<times> control_io \<Rightarrow> (node \<times> control_io) delivery" where
  "ControlReady_onEvent p pub s accepts st = control_processReadableEvent p pub s accepts st"

section \<open>Command-line client\<close>

record cli_answers =
  ca_socket :: int
  ca_connect :: int
  ca_reads :: "(int \<times> string) list"

definition cliTitleForCommand :: "string \<Rightarrow> string" where
  "cliTitleForCommand command =
     (if command = ''status'' then ''Runtime Status''
      else if command = ''health'' then ''Health Status''
      else if command = ''metrics'' then ''Metrics''
      else if command = ''version'' then ''Version''
      else if command = ''help'' then ''Help''
      else if command = [] then ''Command'' else command)"

text \<open>The read loop gathers what the calls return until one returns nothing.\<close>

fun read_response :: "(int \<times> string) list \<Rightarrow> string \<Rightarrow> string option" where
  "read_response [] accum = None"
| "read_response ((n, buffer) # rest) accum =
     (if n \<le> 0 then Some accum else read_response rest (accum @ take (nat n) buffer))"

definition request_wire :: "ControlRequest \<Rightarrow> string" where
  "request_wire req = rq_version req @ ''|'' @ rq_command req"

datatype cli_verdict = NotJson | StatusOk | StatusOther

text \<open>How the client reads the answer: an object with a string \<^verbatim>\<open>status\<close>, or anything else.\<close>

definition verdict :: "'j json_api \<Rightarrow> string \<Rightarrow> cli_verdict" where
  "verdict api accum =
     (case ja_parse api accum of
        Inl _ \<Rightarrow> NotJson
      | Inr parsed \<Rightarrow>
          if \<not> ja_is_object api parsed then NotJson
          else case ja_find api parsed ''status'' of
            None \<Rightarrow> NotJson
          | Some v \<Rightarrow> (case ja_get_string api v of
                         Inl _ \<Rightarrow> NotJson
                       | Inr s \<Rightarrow> if s = ''ok'' then StatusOk else StatusOther))"

text \<open>The result is the exit status, what was written, whether the socket was closed, and the environment.\<close>

definition executeControlCommand ::
  "'j json_api \<Rightarrow> cli_answers \<Rightarrow> string \<Rightarrow> env \<Rightarrow> (bool \<times> string \<times> bool \<times> env) option" where
  "executeControlCommand api a command e =
     (if ca_socket a < 0 then Some (False, [], False, log_error ''CLI: failed to create socket'' e)
      else if ca_connect a < 0 then Some (False, [], True, log_error ''CLI: connect() failed (is daemon running?)'' e)
      else
        let wire = request_wire \<lparr>rq_version = ''1.2'', rq_command = command\<rparr> in
        case read_response (ca_reads a) [] of
          None \<Rightarrow> None
        | Some accum \<Rightarrow>
            if accum = [] then Some (False, wire, True, log_warn ''CLI: no response from daemon'' e)
            else
              let e = log_info ''--------------'' (log_info (cliTitleForCommand command) e) in
              Some (case verdict api accum of
                StatusOk \<Rightarrow> (True, wire, False, log_info accum e)
              | StatusOther \<Rightarrow> (False, wire, False, log_error accum e)
              | NotJson \<Rightarrow> (True, wire, False, log_info accum e)))"

section \<open>Serving a client\<close>

lemma trim_end_split: "\<exists>t. s = trim_end s @ t \<and> list_all (\<lambda>c. code c < 0x80) t"
proof -
  let ?t = "rev (takeWhile blank (rev s))"
  have "rev s = takeWhile blank (rev s) @ dropWhile blank (rev s)" by simp
  then have "s = rev (takeWhile blank (rev s) @ dropWhile blank (rev s))" by (metis rev_rev_ident)
  then have "s = trim_end s @ ?t" by (simp only: trim_end_def rev_append)
  moreover have "list_all (\<lambda>c. code c < 0x80) ?t"
    by (auto simp: list_all_iff blank_def dest!: set_takeWhileD)
  ultimately show ?thesis by blast
qed

lemma trim_end_utf8: "utf8 s \<Longrightarrow> utf8 (trim_end s)"
  using trim_end_split [of s] utf8_ascii_suffix by metis

lemma parse_request_utf8:
  assumes "utf8 cmd" and "parse_request cmd = Some req"
  shows "utf8 (rq_version req) \<and> utf8 (rq_command req)"
proof -
  obtain i where i: "str_find ''|'' cmd = Some i" using assms(2) by (auto simp: parse_request_def split: option.splits)
  then have "cmd = take i cmd @ CHR ''|'' # drop (i + 1) cmd" using str_find_char by blast
  from arg_cong [OF this, of utf8] have "utf8 (take i cmd @ CHR ''|'' # drop (i + 1) cmd)" using assms(1) by (rule iffD1)
  then have "utf8 (take i cmd)" "utf8 (drop (i + 1) cmd)" by (simp_all add: utf8_split)
  moreover have "req = \<lparr>rq_version = take i cmd, rq_command = trim_end (drop (i + 1) cmd)\<rparr>"
    using assms(2) i by (simp add: parse_request_def)
  ultimately show ?thesis by (simp add: trim_end_utf8)
qed

definition server_utf8 :: "ControlServer \<Rightarrow> bool" where
  "server_utf8 s \<longleftrightarrow> utf8 (lc_level (cfg_log (cv_config s))) \<and> utf8 (lc_file (cfg_log (cv_config s)))"

text \<open>The text written for a client: none when it sent nothing, one otherwise.\<close>

definition served :: "int \<Rightarrow> string option \<Rightarrow> (int \<times> string) list \<Rightarrow> bool" where
  "served fd data texts \<longleftrightarrow> (if data = None \<or> data = Some [] then texts = [] else \<exists>t. t \<noteq> [] \<and> texts = [(fd, t)])"

lemma handleClient_serves:
  assumes "strict_dump (cp_dump p)" and "hash_order (cp_table_order p)" and "reliable pub" and "server_utf8 s"
    and "\<forall>b. data = Some b \<longrightarrow> utf8 (take 127 b)" and "node_inv w"
  shows "\<exists>w' texts. handleClient p pub s fd data (w, io) =
    Delivered (w', \<lparr>co_written = co_written io @ texts, co_closed = co_closed io @ [fd]\<rparr>) \<and> node_inv w' \<and> served fd data texts"
proof (cases "data = None \<or> data = Some []")
  case True
  then show ?thesis using assms(6)
    by (intro exI [of _ w] exI [of _ "[]"]) (auto simp: handleClient_def close_client_def served_def)
next
  case False
  then obtain b where b: "data = Some b" "b \<noteq> []" by (cases data) auto
  then obtain c cs where cmd: "take READ_SIZE b = c # cs" by (cases "take READ_SIZE b") (auto simp: READ_SIZE_def)
  have u: "utf8 (c # cs)" using assms(5) b(1) cmd by (simp add: READ_SIZE_def)
  have fin: "\<exists>texts. close_client fd (writeControlResponse fd resp io) =
      \<lparr>co_written = co_written io @ texts, co_closed = co_closed io @ [fd]\<rparr> \<and> served fd data texts"
    if "rp_payload resp \<noteq> []" for resp
    using that b by (intro exI [of _ "[(fd, rp_payload resp)]"])
      (simp add: close_client_def writeControlResponse_def served_def)
  show ?thesis
  proof (cases "parse_request (c # cs)")
    case None
    have "utf8 ''malformed_request''" by (simp add: utf8_all_ascii)
    then obtain r where "makeJsonError (cp_dump p) err_InvalidRequest ''malformed_request'' = Delivered r" "rp_payload r \<noteq> []"
      using answers_error [OF assms(1) utf8_error_codes(1)] unfolding answers_def by metis
    then show ?thesis using fin [of r] None assms(6) by (simp add: handleClient_def b(1) cmd)
  next
    case (Some req)
    let ?w = "with_env w (log_info (received_command_line (rq_command req)) (n_env w))"
    have "utf8 (rq_version req)" "utf8 (rq_command req)" using parse_request_utf8 [OF u Some] by auto
    moreover have "ctx_utf8 (server_context pub s ?w)" "ctx_reliable (server_context pub s ?w)"
      using assms(3,4) by (simp_all add: ctx_utf8_def ctx_reliable_def server_context_def server_utf8_def)
    ultimately obtain r w' where "dispatchControlRequest p req (server_context pub s ?w) ?w = Delivered (r, w')"
      "rp_payload r \<noteq> []" "node_inv w'"
      using dispatch_responds [OF assms(1,2)] assms(6) unfolding responds_def by (metis node_inv_env)
    then show ?thesis using fin [of r] Some by (simp add: handleClient_def b(1) cmd Let_def)
  qed
qed

lemma accept_loop_serves:
  assumes "strict_dump (cp_dump p)" and "hash_order (cp_table_order p)" and "reliable pub" and "server_utf8 s"
  shows "list_all (\<lambda>(fd, data). \<forall>b. data = Some b \<longrightarrow> utf8 (take 127 b)) clients \<Longrightarrow> node_inv w \<Longrightarrow>
    \<exists>w' texts. control_accept_loop p pub s (map (\<lambda>(fd, data). Accepted fd data) clients @ AcceptError errno # rest) (w, io) =
      Delivered (w', \<lparr>co_written = co_written io @ concat texts, co_closed = co_closed io @ map fst clients\<rparr>) \<and>
      node_inv w' \<and> list_all2 (\<lambda>(fd, data). served fd data) clients texts"
proof (induction clients arbitrary: w io)
  case Nil
  then show ?case by (cases "errno = EAGAIN") simp_all
next
  case (Cons client clients)
  obtain fd data where c: "client = (fd, data)" by (cases client)
  obtain w1 t where h: "handleClient p pub s fd data (w, io) =
      Delivered (w1, \<lparr>co_written = co_written io @ t, co_closed = co_closed io @ [fd]\<rparr>)" "node_inv w1" "served fd data t"
    using handleClient_serves [OF assms, of data w fd io] Cons.prems c by auto
  obtain w' texts where "control_accept_loop p pub s (map (\<lambda>(fd, data). Accepted fd data) clients @ AcceptError errno # rest)
      (w1, \<lparr>co_written = co_written io @ t, co_closed = co_closed io @ [fd]\<rparr>) =
      Delivered (w', \<lparr>co_written = (co_written io @ t) @ concat texts, co_closed = (co_closed io @ [fd]) @ map fst clients\<rparr>)"
    "node_inv w'" "list_all2 (\<lambda>(fd, data). served fd data) clients texts"
    using Cons.IH [of w1 "\<lparr>co_written = co_written io @ t, co_closed = co_closed io @ [fd]\<rparr>"] Cons.prems(1) h(2) by auto
  then show ?case using h c by (intro exI [of _ w'] exI [of _ "t # texts"]) simp
qed

lemma request_wire_parsed:
  assumes "length command \<le> 123" and "trim_end command = command"
  shows "take READ_SIZE (request_wire \<lparr>rq_version = ''1.2'', rq_command = command\<rparr>) = ''1.2|'' @ command"
    and "parse_request (''1.2|'' @ command) = Some \<lparr>rq_version = ''1.2'', rq_command = command\<rparr>"
proof -
  show "take READ_SIZE (request_wire \<lparr>rq_version = ''1.2'', rq_command = command\<rparr>) = ''1.2|'' @ command"
    using assms(1) by (simp add: request_wire_def READ_SIZE_def)
  have "str_find ''|'' (''1.2'' @ ''|'' @ command) = Some 3"
    by (subst str_find_skip) (simp_all add: str_find_hit)
  then show "parse_request (''1.2|'' @ command) = Some \<lparr>rq_version = ''1.2'', rq_command = command\<rparr>"
    using assms(2) by (simp add: parse_request_def)
qed

lemma handleClient_request:
  assumes "length command \<le> 123" and "trim_end command = command"
    and "data = request_wire \<lparr>rq_version = ''1.2'', rq_command = command\<rparr>"
    and "w' = with_env w (log_info (received_command_line command) (n_env w))"
  shows "handleClient p pub s fd (Some data) (w, io) =
    and_then (dispatchControlRequest p \<lparr>rq_version = ''1.2'', rq_command = command\<rparr> (server_context pub s w') w')
      (\<lambda>(resp, w). Delivered (w, close_client fd (writeControlResponse fd resp io)))"
  using request_wire_parsed [OF assms(1,2)] unfolding assms(3,4)
  by (simp add: handleClient_def Let_def)

lemma read_response_chunks:
  "list_all (\<lambda>c. c \<noteq> []) chunks \<Longrightarrow>
     read_response (map (\<lambda>c. (int (length c), c)) chunks @ (0, buffer) # rest) accum = Some (accum @ concat chunks)"
  by (induction chunks arbitrary: accum) simp_all

section \<open>Properties\<close>

text \<open>
  \<^bold>\<open>C17\<close> Every control client is served: on the wired bus, when the first 127 bytes of each request, which is all the
  server reads, are UTF-8 by themselves, and the configured log level and log file are, a readable event of the control
  socket accepts every waiting client, writes exactly one text that is not empty to each client that sent
  something and nothing to the others, closes each of them exactly once, in order, ends at the first error of
  \<^verbatim>\<open>accept4\<close>, raises no exception and keeps the invariants of the runtime, whatever else the requests are. A request
  that is UTF-8 as a whole is not enough: the cut after 127 bytes may fall inside a character.
\<close>

theorem control_clients_served:
  assumes "strict_dump (cp_dump p)" and "hash_order (cp_table_order p)" and "server_utf8 s" and "node_inv w"
    and "list_all (\<lambda>(fd, data). \<forall>b. data = Some b \<longrightarrow> utf8 (take 127 b)) clients"
  shows "\<exists>w' texts. ControlReady_onEvent p daemon_publish s
      (map (\<lambda>(fd, data). Accepted fd data) clients @ AcceptError errno # rest) (w, io) =
      Delivered (w', \<lparr>co_written = co_written io @ concat texts, co_closed = co_closed io @ map fst clients\<rparr>) \<and>
    node_inv w' \<and>
    list_all2 (\<lambda>(fd, data) ts. if data = None \<or> data = Some [] then ts = [] else \<exists>t. t \<noteq> [] \<and> ts = [(fd, t)]) clients texts"
proof -
  have "(\<lambda>(fd, data) ts. if data = None \<or> data = Some [] then ts = [] else \<exists>t. t \<noteq> [] \<and> ts = [(fd, t)]) =
      (\<lambda>(fd, data). served fd data)"
    by (simp add: served_def fun_eq_iff)
  then show ?thesis
    unfolding ControlReady_onEvent_def control_processReadableEvent_def
    using accept_loop_serves [OF assms(1,2) reliable_daemon_publish assms(3,5,4), of errno rest io] by (simp only:)
qed

definition demo_server :: ControlServer where
  "demo_server = \<lparr>cv_publisher = SnapshotPublisher_new,
     cv_config = \<lparr>cfg_log = \<lparr>lc_level = ''info'', lc_file = ''e.log''\<rparr>, cfg_daemon = \<lparr>dc_tick_ms = 100\<rparr>,
       cfg_udp = \<lparr>uc_enabled = True, uc_port = 9000\<rparr>, cfg_rate = \<lparr>rc_alpha = 1, rc_window_ms = 1000\<rparr>\<rparr>,
     cv_fd_registry = []\<rparr>"

lemma demo_server_utf8: "server_utf8 demo_server"
  by (simp add: server_utf8_def demo_server_def utf8_all_ascii)

theorem control_clients_served_witness:
  "\<exists>w' io'. ControlReady_onEvent demo_params daemon_publish demo_server
     [Accepted 7 (Some ''1.2|send-packet:learn''), Accepted 8 None, AcceptError 11] (node_demo, \<lparr>co_written = [], co_closed = []\<rparr>) =
     Delivered (w', io') \<and> co_closed io' = [7, 8] \<and> node_inv w'"
proof -
  have "list_all (\<lambda>(fd, data). \<forall>b. data = Some b \<longrightarrow> utf8 (take 127 b)) [(7 :: int, Some ''1.2|send-packet:learn''), (8, None)]"
    by (simp add: utf8_all_ascii)
  from control_clients_served [OF demo_params_ok demo_server_utf8 node_demo_inv this, of 11 "[]" "\<lparr>co_written = [], co_closed = []\<rparr>"]
  show ?thesis by auto
qed

text \<open>
  \<^bold>\<open>C32\<close> A command name that is not UTF-8 takes the event loop down: when the first 127 bytes of a client's request are a request
  of version 1.2 whose command, up to a colon, is not UTF-8, the answer quotes it in a JSON document, and the library
  raises on text that is not UTF-8; nothing on the way catches the exception, so the handler of the
  control socket raises. This includes requests that are UTF-8, but longer, and are cut inside a character.
\<close>

theorem non_utf8_request_raises:
  assumes "strict_dump (cp_dump p)" and "parse_request (take 127 data) = Some \<lparr>rq_version = ''1.2'', rq_command = command\<rparr>"
    and "\<not> utf8 (fst (split_command command))"
  shows "\<exists>ex. ControlReady_onEvent p pub s (Accepted fd (Some data) # rest) (w, io) = Raised ex"
proof -
  let ?req = "\<lparr>rq_version = ''1.2'', rq_command = command\<rparr>"
  obtain name arg where sp: "split_command command = (name, arg)" by (cases "split_command command")
  have u: "\<not> utf8 name" using assms(3) sp by simp
  have "map_of commandTable name = None"
  proof (rule ccontr)
    assume "map_of commandTable name \<noteq> None"
    then obtain d where "(name, d) \<in> set commandTable" by (auto dest: map_of_SomeD)
    then show False using commandTable_utf8 u by (auto simp: list_all_iff)
  qed
  moreover have "command \<noteq> []" using u sp by (auto simp: split_command_def str_find_absent)
  ultimately have disp: "dispatchControlRequest p ?req ctx w' =
      answer_with (makeJsonError (cp_dump p) err_UnknownCommand (''unknown command: '' @ name)) w'" for ctx w'
    by (simp add: dispatchControlRequest_def dispatchV12_def sp isWellFormedVersion_def isValidProtocolVersion_def isdigit_def)
  have "\<not> utf8 (''unknown command: '' @ name)"
    using u utf8_ascii_prefix [of "''unknown command: ''" name] by simp
  then obtain ex where "makeJsonError (cp_dump p) err_UnknownCommand (''unknown command: '' @ name) = Raised ex"
    using makeJsonError_utf8(2) [OF assms(1) utf8_error_codes(3)] by blast
  then have raised: "dispatchControlRequest p ?req ctx w' = Raised ex" for ctx w' unfolding disp by (simp add: answer_with_def)
  obtain c cs where cmd: "take 127 data = c # cs" using assms(2) by (cases "take 127 data") (simp_all add: parse_request_def str_find_absent)
  then have "handleClient p pub s fd (Some data) (w, io) = Raised ex"
    using assms(2) raised by (simp add: handleClient_def READ_SIZE_def Let_def)
  then show ?thesis by (simp add: ControlReady_onEvent_def control_processReadableEvent_def)
qed

text \<open>A request of 128 bytes that is UTF-8: the last character has two bytes, and the first of them is the last one read.\<close>

definition cut_request :: string where
  "cut_request = ''1.2|'' @ replicate 122 (CHR ''a'') @ [CHR 0xC3, CHR 0xA9]"

theorem non_utf8_request_raises_witness:
  "utf8 cut_request \<and> (\<exists>ex. ControlReady_onEvent demo_params daemon_publish demo_server [Accepted 7 (Some cut_request)]
     (node_demo, \<lparr>co_written = [], co_closed = []\<rparr>) = Raised ex)"
proof
  let ?cmd = "replicate 122 (CHR ''a'') @ [CHR 0xC3]"
  have ascii: "list_all (\<lambda>c. code c < 0x80) (''1.2|'' @ replicate 122 (CHR ''a''))" by (simp add: list_all_iff)
  have "utf8 [CHR 0xC3, CHR 0xA9]" by (simp add: utf8_def lead_def)
  then show "utf8 cut_request"
    using utf8_ascii_prefix [OF ascii, of "[CHR 0xC3, CHR 0xA9]"] by (simp add: cut_request_def)
  have "take 127 cut_request = ''1.2|'' @ ?cmd" by (simp add: cut_request_def)
  moreover have "trim_end ?cmd = ?cmd" by (simp add: trim_end_def blank_def)
  ultimately have parse: "parse_request (take 127 cut_request) = Some \<lparr>rq_version = ''1.2'', rq_command = ?cmd\<rparr>"
    using request_wire_parsed(2) [of ?cmd] by simp
  have "split_command ?cmd = (?cmd, [])" by (simp add: split_command_def str_find_absent)
  moreover have "list_all (\<lambda>c. code c < 0x80) (replicate 122 (CHR ''a''))" by (simp add: list_all_iff)
  then have "utf8 ?cmd = utf8 [CHR 0xC3]" by (rule utf8_ascii_prefix)
  moreover have "\<not> utf8 [CHR 0xC3]" by (simp add: utf8_def lead_def)
  ultimately have "\<not> utf8 (fst (split_command ?cmd))" by simp
  from non_utf8_request_raises [OF demo_params_ok(1) parse this]
  show "\<exists>ex. ControlReady_onEvent demo_params daemon_publish demo_server [Accepted 7 (Some cut_request)]
     (node_demo, \<lparr>co_written = [], co_closed = []\<rparr>) = Raised ex" by blast
qed

text \<open>
  \<^bold>\<open>C30\<close> Client and server agree on the protocol: the bytes the command-line client writes for a command of at most
  123 characters that does not end in a blank reach the dispatcher as version 1.2 of exactly that command;
  the client gathers the response whatever the pieces the reads return, and succeeds unless it is a JSON
  object whose status is not \<^verbatim>\<open>ok\<close>.
\<close>

theorem cli_request_round_trip:
  assumes "length command \<le> 123" and "trim_end command = command"
    and "ca_socket a \<ge> 0" and "ca_connect a \<ge> 0" and "chunks \<noteq> []" and "list_all (\<lambda>c. c \<noteq> []) chunks"
    and "ca_reads a = map (\<lambda>c. (int (length c), c)) chunks @ [(0, [])]"
  shows "\<exists>wire e'. executeControlCommand api a command e = Some (verdict api (concat chunks) \<noteq> StatusOther, wire, False, e') \<and>
    (\<forall>p pub s fd w io. \<exists>w'. handleClient p pub s fd (Some wire) (w, io) =
       and_then (dispatchControlRequest p \<lparr>rq_version = ''1.2'', rq_command = command\<rparr> (server_context pub s w') w')
         (\<lambda>(resp, w). Delivered (w, close_client fd (writeControlResponse fd resp io))))"
proof -
  let ?wire = "request_wire \<lparr>rq_version = ''1.2'', rq_command = command\<rparr>"
  have "concat chunks \<noteq> []" using assms(5,6) by (cases chunks) auto
  moreover have "read_response (ca_reads a) [] = Some (concat chunks)"
    using read_response_chunks [OF assms(6), of "[]" "[]" "[]"] assms(7) by simp
  ultimately have "\<exists>e'. executeControlCommand api a command e = Some (verdict api (concat chunks) \<noteq> StatusOther, ?wire, False, e')"
    using assms(3,4) by (cases "verdict api (concat chunks)") (simp_all add: executeControlCommand_def Let_def)
  then show ?thesis using handleClient_request [OF assms(1,2) refl refl] by blast
qed

theorem cli_request_round_trip_witness:
  "\<exists>wire e'. executeControlCommand demo_api \<lparr>ca_socket = 5, ca_connect = 0, ca_reads = [(2, ''OK''), (4, '' END''), (0, [])]\<rparr> ''status'' env_demo =
     Some (True, wire, False, e')"
proof -
  have "verdict demo_api ''OK END'' \<noteq> StatusOther" by (simp add: verdict_def demo_api_def)
  then show ?thesis
    using cli_request_round_trip [of "''status''" "\<lparr>ca_socket = 5, ca_connect = 0, ca_reads = [(2, ''OK''), (4, '' END''), (0, [])]\<rparr>"
        "[''OK'', '' END'']" demo_api env_demo]
    by (auto simp: trim_end_def blank_def)
qed

end
