(* ===== verification/Daemon_Boot.thy ===== *)
theory Daemon_Boot
  imports Event_Loop Control_Server
begin

text \<open>
  The start of the daemon (daemon/main.cpp, up to the creation of the event-loop thread): construction of
  the components in the order of their declarations, the control socket, the UDP receiver, the exporters,
  the first snapshot and the registrations with the event loop. The answers of the operating system are the
  record \<open>os_answers\<close>; the number a descriptor-creating call returns is a function of the descriptors that
  are open, which is assumed fresh (\<open>fresh_fds\<close>) where a property needs it. An exception that leaves \<open>main\<close>
  ends the process. The socket file (\<^verbatim>\<open>unlink\<close>) is not followed.
\<close>

section \<open>Definitions\<close>

subsection \<open>The operating system\<close>

text \<open>
  The descriptor-creating calls are numbered in the order the daemon makes them (backend socket, epoll,
  eventfd, control socket, receiver socket), the \<^verbatim>\<open>epoll_ctl\<close> calls likewise (eventfd, receiver, control).
\<close>

record os_answers =
  os_fd :: "nat \<Rightarrow> int list \<Rightarrow> int"
  os_errno :: int
  os_inet_pton :: "string \<Rightarrow> u32 option"
  os_epoll_ctl :: "nat \<Rightarrow> int \<Rightarrow> int"
  os_bind :: "int \<Rightarrow> int"
  os_listen :: "int \<Rightarrow> int"
  os_getfl :: "int \<Rightarrow> int"
  os_setfl :: "int \<Rightarrow> int"
  os_file_open :: "string \<Rightarrow> bool"
  os_file_good :: "nat \<Rightarrow> bool"
  os_drop_order :: drop_order

definition sys_open :: "int \<Rightarrow> fd_world \<Rightarrow> fd_world" where
  "sys_open fd w = (if fd < 0 then w else w\<lparr>fw_open := fd # fw_open w\<rparr>)"

definition fresh_fds :: "os_answers \<Rightarrow> bool" where
  "fresh_fds os \<longleftrightarrow> (\<forall>k opens. os_fd os k opens \<notin> set opens)"

subsection \<open>The daemon's state\<close>

datatype ready_handler = ShutdownWakeup | UdpReady | ControlReady

record daemon =
  dm_node :: node
  dm_fds :: fd_world
  dm_telemetry :: Telemetry
  dm_builder :: RuntimeStatusBuilder
  dm_publisher :: SnapshotPublisher
  dm_state :: RuntimeState
  dm_epoll :: FileDescriptor
  dm_event :: FileDescriptor
  dm_control :: FileDescriptor
  dm_udp :: "UdpReceiver option"
  dm_loop :: "ready_handler EpollEventLoop"

abbreviation daemon_env :: "daemon \<Rightarrow> (env \<Rightarrow> env) \<Rightarrow> daemon" where
  "daemon_env d f \<equiv> d\<lparr>dm_node := with_env (dm_node d) (f (n_env (dm_node d)))\<rparr>"

text \<open>The five switch ports, all up.\<close>

definition daemon_interfaces :: InterfaceRegistry where
  "daemon_interfaces =
     fold (\<lambda>(i, name). addPort (port_setState Up (SwitchPort_new i name)))
       [(1, ''eth1''), (2, ''eth2''), (3, ''eth3''), (4, ''eth4''), (5, ''eth5'')] []"

definition backend_endpoint :: UdpEndpoint where
  "backend_endpoint = \<lparr>ue_ip = ''127.0.0.1'', ue_port = 9101\<rparr>"

subsection \<open>The control socket\<close>

definition CONTROL_SOCKET_PATH :: string where
  "CONTROL_SOCKET_PATH = ''/tmp/edgenetswitch.sock''"

definition control_failed :: "string \<Rightarrow> FileDescriptor \<Rightarrow> fd_world \<Rightarrow> env \<Rightarrow> FileDescriptor \<times> fd_world \<times> env" where
  "control_failed line control_fd w e =
     (let (control_fd, w) = fd_reset (-1) UnknownFd control_fd w;
          (control_fd, w) = fd_destroy control_fd w
      in (FileDescriptor_default, w, log_error line e))"

definition createControlSocket :: "os_answers \<Rightarrow> fd_world \<Rightarrow> env \<Rightarrow> FileDescriptor \<times> fd_world \<times> env" where
  "createControlSocket os w e =
     (let raw_fd = os_fd os 3 (fw_open w);
          w = sys_open raw_fd w in
      if raw_fd < 0 then (FileDescriptor_default, w, log_error ''Failed to create control socket'' e)
      else
        let (control_fd, w) = FileDescriptor_new raw_fd True UnixSocket w in
        if os_bind os raw_fd < 0 then control_failed ''Failed to bind the control socket'' control_fd w e
        else if os_listen os raw_fd < 0 then control_failed ''Failed to listen on control socket'' control_fd w e
        else if os_getfl os raw_fd < 0 then control_failed ''Failed to get control socket flags'' control_fd w e
        else if os_setfl os raw_fd < 0 then control_failed ''Failed to enable O_NONBLOCK on control socket'' control_fd w e
        else (control_fd, w,
              log_info (''Control socket listening at '' @ CONTROL_SOCKET_PATH)
                (log_info ''Control socket running in non-blocking mode'' e)))"

subsection \<open>Construction of the components\<close>

definition EpollEventLoop_construct ::
  "os_answers \<Rightarrow> fd_world \<Rightarrow> (FileDescriptor \<times> ready_handler EpollEventLoop \<times> fd_world) delivery" where
  "EpollEventLoop_construct os w =
     (let fd = os_fd os 2 (fw_open w);
          (event, w) = EventFd_new fd True (sys_open fd w) in
      case event of
        Inl ex \<Rightarrow> Raised ex
      | Inr event \<Rightarrow>
          (case epoll_add (os_epoll_ctl os 0 (d_fd event)) of
             Inl ex \<Rightarrow> Raised ex
           | Inr _ \<Rightarrow> Delivered (event, EpollEventLoop_new (d_fd event) ShutdownWakeup, w)))"

definition EpollManager_construct :: "os_answers \<Rightarrow> fd_world \<Rightarrow> (FileDescriptor \<times> fd_world) delivery" where
  "EpollManager_construct os w =
     (let fd = os_fd os 1 (fw_open w);
          (epoll, w) = EpollManager_new fd True (sys_open fd w) in
      case epoll of Inl ex \<Rightarrow> Raised ex | Inr epoll \<Rightarrow> Delivered (epoll, w))"

definition transport_construct :: "os_answers \<Rightarrow> fd_world \<Rightarrow> (PortBackend TransportManager \<times> fd_world) delivery" where
  "transport_construct os w =
     (let fd = os_fd os 0 (fw_open w);
          (backend, w) = UdpPortBackend_new (fd, os_errno os) (os_inet_pton os) 1 backend_endpoint True (sys_open fd w) in
      case backend of
        Inl ex \<Rightarrow> Raised ex
      | Inr b \<Rightarrow> Delivered (registerBackend 1 (UdpBackend b) (TransportManager_new, w)))"

definition daemon_construct :: "os_answers \<Rightarrow> Config \<Rightarrow> env \<Rightarrow> fd_world \<Rightarrow> daemon delivery" where
  "daemon_construct os cfg e w =
     (let (telemetry, e) = Telemetry_new e;
          (healthMonitor, e) = HealthMonitor_new 500 e;
          failureInjector = FailureInjector_new FailureConfig_default;
          forwardingEngine = \<lparr>eng_mac_table = MacTable_new 1024, eng_interfaces = daemon_interfaces\<rparr> in
      and_then (transport_construct os w) (\<lambda>(transportManager, w).
      let packetProcessor = PacketProcessor_new (Some forwardingEngine) (Some transportManager) failureInjector in
      and_then (EpollManager_construct os w) (\<lambda>(epollManager, w).
      and_then (EpollEventLoop_construct os w) (\<lambda>(event, epollLoop, w).
      let (control_fd, w, e) = createControlSocket os w e in
      Delivered
        \<lparr>dm_node = \<lparr>n_env = e, n_processor = packetProcessor, n_stats = PacketStats_new, n_health = healthMonitor,
           n_export = TelemetryExportManager_new 512, n_recorder = ReplayRecorder_new,
           n_collector = ReplayOutcomeCollector_new\<rparr>,
         dm_fds = w, dm_telemetry = telemetry, dm_builder = RuntimeStatusBuilder_new (toSmootherConfig (cfg_rate cfg)),
         dm_publisher = SnapshotPublisher_new, dm_state = Booting, dm_epoll = epollManager, dm_event = event,
         dm_control = control_fd, dm_udp = None, dm_loop = epollLoop\<rparr>))))"

definition register_fd :: "int \<Rightarrow> ready_handler \<Rightarrow> daemon \<Rightarrow> daemon" where
  "register_fd fd h d = d\<lparr>dm_loop := (dm_loop d)\<lparr>el_handlers := registerHandler fd h (el_handlers (dm_loop d))\<rparr>\<rparr>"

definition udp_fd_line :: "int \<Rightarrow> string" where
  "udp_fd_line fd = ''UDP fd = '' @ int_to_string fd"

definition daemon_udp :: "os_answers \<Rightarrow> Config \<Rightarrow> daemon \<Rightarrow> daemon delivery" where
  "daemon_udp os cfg d =
     (if \<not> uc_enabled (cfg_udp cfg) then Delivered d
      else
        let fd = os_fd os 4 (fw_open (dm_fds d));
            answers = \<lparr>sa_socket = fd, sa_bind = os_bind os fd, sa_getfl = os_getfl os fd, sa_setfl = os_setfl os fd\<rparr>;
            (r, w, e) = initializeSocket answers (UdpReceiver_new (uc_port (cfg_udp cfg)) True NonBlocking)
              (sys_open fd (dm_fds d)) (n_env (dm_node d));
            fd = d_fd (ur_socket r);
            e = log_debug (udp_fd_line fd) e;
            d = d\<lparr>dm_node := with_env (dm_node d) e, dm_fds := w, dm_udp := Some r\<rparr> in
        case epoll_add (os_epoll_ctl os 1 fd) of
          Inl ex \<Rightarrow> Raised ex
        | Inr _ \<Rightarrow> Delivered (register_fd fd UdpReady d))"

definition daemon_exporters :: "os_answers \<Rightarrow> daemon \<Rightarrow> daemon" where
  "daemon_exporters os d =
     (let m = n_export (dm_node d); e = n_env (dm_node d);
          (m, e) = addExporter (Some StdoutTelemetryExporter) m e;
          (m, e) = addExporter (Some (InMemoryTelemetryExporter [])) m e;
          (x, e) = FileTelemetryExporter_new ''telemetry.log'' (os_file_open os ''telemetry.log'') (os_file_good os) e;
          (m, e) = addExporter (Some (FileExporter x)) m e;
          (started, m) = export_start m
      in d\<lparr>dm_node := (dm_node d)\<lparr>n_export := m, n_env := e\<rparr>\<rparr>)"

text \<open>Building and publishing a snapshot.\<close>

definition publish_status :: "drop_order \<Rightarrow> daemon \<Rightarrow> daemon" where
  "publish_status order d =
     (let w = dm_node d;
          (now, e) = nowMs (n_env w);
          (status, b, e) = build order (dm_telemetry d) (n_health w) (n_stats w) (dm_state d) now (dm_builder d) e;
          (v, status, p) = publish_snapshot status (dm_publisher d)
      in d\<lparr>dm_node := with_env w e, dm_builder := b, dm_publisher := p\<rparr>)"

text \<open>Without a control socket \<open>main\<close> gives up and returns.\<close>

datatype boot_result = Started daemon | GivenUp daemon

definition daemon_control :: "os_answers \<Rightarrow> daemon \<Rightarrow> boot_result delivery" where
  "daemon_control os d =
     (if fd_valid (dm_control d)
      then
        (case epoll_add (os_epoll_ctl os 2 (d_fd (dm_control d))) of
           Inl ex \<Rightarrow> Raised ex
         | Inr _ \<Rightarrow> Delivered (Started (register_fd (d_fd (dm_control d)) ControlReady d)))
      else Delivered (GivenUp (daemon_env d (log_error ''Fatal: control socket initialization failed''))))"

definition daemon_boot :: "os_answers \<Rightarrow> Config \<Rightarrow> env \<Rightarrow> fd_world \<Rightarrow> boot_result delivery" where
  "daemon_boot os cfg e w =
     and_then (daemon_construct os cfg e w) (\<lambda>d.
     and_then (daemon_udp os cfg d) (\<lambda>d.
     daemon_control os (publish_status (os_drop_order os) (daemon_exporters os d))))"

section \<open>Descriptors the daemon holds\<close>

text \<open>
  The registered descriptors \<open>fs\<close> are open and active, each with one owner; besides them exactly the
  descriptors \<open>base\<close> the process started with are open, and no \<^verbatim>\<open>close\<close> went wrong.
\<close>

definition holds :: "int list \<Rightarrow> int set \<Rightarrow> fd_world \<Rightarrow> bool" where
  "holds fs base w \<longleftrightarrow> distinct fs \<and> set fs \<inter> base = {} \<and> set (fw_open w) = base \<union> set fs \<and>
     active_fds (fw_registry w) = set fs \<and> reg_inv (fw_registry w) \<and> fw_bad_closes w = 0"

lemma holds_open:
  assumes "holds fs base w" and "fresh_fds os" and "fd = os_fd os k (fw_open w)" and "0 \<le> fd"
    and "FileDescriptor_new fd True ty (sys_open fd w) = (d, w')"
  shows "holds (fd # fs) base w'" and "d_fd d = fd" and "d_registry d"
proof -
  have "fd \<notin> set (fw_open w)" using assms(2,3) by (simp add: fresh_fds_def)
  then show "holds (fd # fs) base w'" "d_fd d = fd" "d_registry d"
    using assms(1,4,5) by (auto simp: holds_def FileDescriptor_new_def fd_valid_def sys_open_def reg_inv_ops)
qed

lemma holds_reset:
  assumes "holds fs base w" and "d_fd d \<in> set fs" and "0 \<le> d_fd d" and "d_registry d"
  shows "\<exists>w'. fd_reset (-1) ty d w = (d\<lparr>d_fd := -1\<rparr>, w') \<and> holds (remove1 (d_fd d) fs) base w'"
  using assms by (auto simp: holds_def fd_reset_def sys_close_def Let_def reg_inv_ops)

lemma reset_invalid: "\<not> 0 \<le> d_fd d \<Longrightarrow> fd_reset (-1) ty d w = (d\<lparr>d_fd := -1\<rparr>, w)"
  by (simp add: fd_reset_def Let_def)

text \<open>\<^verbatim>\<open>epoll_ctl\<close> refuses a number that is no descriptor.\<close>

definition refuses_invalid :: "os_answers \<Rightarrow> bool" where
  "refuses_invalid os \<longleftrightarrow> (\<forall>k fd. fd < 0 \<longrightarrow> os_epoll_ctl os k fd < 0)"

section \<open>What a successful start leaves behind\<close>

lemma transport_construct_holds:
  assumes "holds fs base w" and "fresh_fds os" and "transport_construct os w = Delivered (tm, w')"
  shows "\<exists>b. tm_backends tm = [(1, UdpBackend b)] \<and> 0 \<le> d_fd (ub_socket b) \<and> d_registry (ub_socket b) \<and>
    holds (d_fd (ub_socket b) # fs) base w'"
proof -
  let ?fd = "os_fd os 0 (fw_open w)"
  obtain d v where n: "FileDescriptor_new ?fd True UdpSocket (sys_open ?fd w) = (d, v)" by fastforce
  have valid: "fd_valid d" "w' = v" "\<exists>b. tm_backends tm = [(1, UdpBackend b)] \<and> ub_socket b = d"
    using assms(3) by (auto simp: transport_construct_def UdpPortBackend_new_def n registerBackend_def TransportManager_new_def
        Let_def split: if_splits option.splits)
  have "d_fd d = ?fd" using n by (auto simp: FileDescriptor_new_def Let_def)
  then have "0 \<le> ?fd" using valid(1) by (simp add: fd_valid_def)
  from holds_open [OF assms(1,2) refl this n] valid \<open>0 \<le> ?fd\<close> show ?thesis by auto
qed

lemma EpollManager_construct_holds:
  assumes "holds fs base w" and "fresh_fds os" and "EpollManager_construct os w = Delivered (d, w')"
  shows "0 \<le> d_fd d \<and> d_registry d \<and> holds (d_fd d # fs) base w'"
proof -
  let ?fd = "os_fd os 1 (fw_open w)"
  have "0 \<le> ?fd" "FileDescriptor_new ?fd True Epoll (sys_open ?fd w) = (d, w')"
    using assms(3) by (auto simp: EpollManager_construct_def EpollManager_new_def Let_def split: if_splits prod.splits)
  from holds_open [OF assms(1,2) refl this] this(1) show ?thesis by simp
qed

lemma EpollEventLoop_construct_holds:
  assumes "holds fs base w" and "fresh_fds os" and "EpollEventLoop_construct os w = Delivered (d, l, w')"
  shows "0 \<le> d_fd d \<and> d_registry d \<and> holds (d_fd d # fs) base w' \<and> l = EpollEventLoop_new (d_fd d) ShutdownWakeup"
proof -
  let ?fd = "os_fd os 2 (fw_open w)"
  have "0 \<le> ?fd" "FileDescriptor_new ?fd True EventFd (sys_open ?fd w) = (d, w')"
    and l: "l = EpollEventLoop_new (d_fd d) ShutdownWakeup"
    using assms(3) by (auto simp: EpollEventLoop_construct_def EventFd_new_def Let_def split: if_splits prod.splits sum.splits)
  from holds_open [OF assms(1,2) refl this(1,2)] this(1) l show ?thesis by simp
qed

lemma control_failed_default: "fst (control_failed line d w e) = FileDescriptor_default"
  by (simp add: control_failed_def split: prod.split)

lemma createControlSocket_holds:
  assumes "holds fs base w" and "fresh_fds os" and "createControlSocket os w e = (d, w', e')" and "fd_valid d"
  shows "0 \<le> d_fd d \<and> d_registry d \<and> holds (d_fd d # fs) base w'"
proof -
  let ?fd = "os_fd os 3 (fw_open w)"
  have no: "d \<noteq> FileDescriptor_default" using assms(4) by (auto simp: fd_valid_def FileDescriptor_default_def)
  have "0 \<le> ?fd" using assms(3) no by (auto simp: createControlSocket_def Let_def split: if_splits)
  moreover obtain d0 w0 where n: "FileDescriptor_new ?fd True UnixSocket (sys_open ?fd w) = (d0, w0)" by fastforce
  moreover have "control_failed line d0 w0 e \<noteq> (d, w', e')" for line using control_failed_default [of line d0 w0 e] no by auto
  ultimately have "d = d0 \<and> w' = w0"
    using assms(3) by (auto simp: createControlSocket_def Let_def split: if_splits)
  with holds_open [OF assms(1,2) refl \<open>0 \<le> ?fd\<close> n] \<open>0 \<le> ?fd\<close> show ?thesis by simp
qed

lemma initializeSocket_new:
  assumes "initializeSocket a (UdpReceiver_new port True NonBlocking) w e = (r, w', e')" and "0 \<le> d_fd (ur_socket r)"
  shows "d_fd (ur_socket r) = sa_socket a \<and> d_registry (ur_socket r) \<and> ur_running r = False \<and> ur_joinable r = False \<and>
    w' = snd (FileDescriptor_new (sa_socket a) True UdpSocket w)"
  using assms
  by (auto simp: initializeSocket_def UdpReceiver_new_def FileDescriptor_new_def fd_move_assign_def fd_destroy_def fd_reset_def
      close_socket_def FileDescriptor_default_def fd_valid_def Let_def split: if_splits)

text \<open>The descriptors of the daemon, last opened first, and the handles that own them.\<close>

definition daemon_handles :: "daemon \<Rightarrow> FileDescriptor list" where
  "daemon_handles d = (case dm_udp d of None \<Rightarrow> [] | Some r \<Rightarrow> [ur_socket r]) @ [dm_control d, dm_event d, dm_epoll d]"

definition node_backends :: "node \<Rightarrow> (u32, PortBackend) hmap" where
  "node_backends w = (case pp_transport_manager (n_processor w) of None \<Rightarrow> [] | Some tm \<Rightarrow> tm_backends tm)"

definition daemon_fds :: "daemon \<Rightarrow> int set \<Rightarrow> bool" where
  "daemon_fds d base \<longleftrightarrow> (\<exists>b. node_backends (dm_node d) = [(1, UdpBackend b)] \<and>
     (\<forall>h \<in> set (ub_socket b # daemon_handles d). 0 \<le> d_fd h \<and> d_registry h) \<and>
     holds (map d_fd (daemon_handles d) @ [d_fd (ub_socket b)]) base (dm_fds d) \<and>
     (\<forall>r. dm_udp d = Some r \<longrightarrow> \<not> ur_running r \<and> \<not> ur_joinable r))"

lemma daemon_construct_fds:
  assumes "daemon_construct os cfg e w = Delivered d" and "fresh_fds os" and "holds [] base w" and "fd_valid (dm_control d)"
  shows "daemon_fds d base" and "dm_udp d = None" and "node_inv (dm_node d)" and "loop_start (dm_loop d)"
proof -
  obtain tm w1 where tm: "transport_construct os w = Delivered (tm, w1)"
    using assms(1) by (cases "transport_construct os w") (auto simp: daemon_construct_def split: prod.splits)
  obtain b where b: "tm_backends tm = [(1, UdpBackend b)]" "0 \<le> d_fd (ub_socket b)" "d_registry (ub_socket b)"
    "holds [d_fd (ub_socket b)] base w1" using transport_construct_holds [OF assms(3,2) tm] by auto
  obtain ep w2 where ep: "EpollManager_construct os w1 = Delivered (ep, w2)"
    using assms(1) by (cases "EpollManager_construct os w1") (auto simp: daemon_construct_def tm split: prod.splits)
  note epoll = EpollManager_construct_holds [OF b(4) assms(2) ep]
  obtain ev l w3 where ev: "EpollEventLoop_construct os w2 = Delivered (ev, l, w3)"
    using assms(1) by (cases "EpollEventLoop_construct os w2") (auto simp: daemon_construct_def tm ep split: prod.splits)
  note event = EpollEventLoop_construct_holds [OF _ assms(2) ev, of "[d_fd ep, d_fd (ub_socket b)]" base]
  obtain e1 c w4 e4 where c: "createControlSocket os w3 e1 = (c, w4, e4)"
    and d: "dm_control d = c" "dm_fds d = w4" "dm_event d = ev" "dm_epoll d = ep" "dm_udp d = None" "dm_loop d = l"
      "pp_transport_manager (n_processor (dm_node d)) = Some tm" "pp_queue (n_processor (dm_node d)) = []"
      "n_stats (dm_node d) = PacketStats_new" "n_export (dm_node d) = TelemetryExportManager_new 512"
    using assms(1) by (auto simp: daemon_construct_def tm ep ev PacketProcessor_new_def split: prod.splits)
  note control = createControlSocket_holds [OF _ assms(2) c, of "[d_fd ev, d_fd ep, d_fd (ub_socket b)]" base]
  show "daemon_fds d base"
    using assms(4) b epoll event control by (auto simp: daemon_fds_def node_backends_def daemon_handles_def d)
  show "dm_udp d = None" by (rule d)
  show "node_inv (dm_node d)"
    using stats_inv_new by (simp add: node_inv_def d queue_inv_def export_inv_def TelemetryExportManager_new_def)
  show "loop_start (dm_loop d)" using event epoll by (simp add: d loop_start_def EpollEventLoop_new_def)
qed

lemma daemon_udp_frame:
  assumes "daemon_udp os cfg d = Delivered d'"
  shows "dm_control d' = dm_control d" and "dm_state d' = dm_state d" and "dm_telemetry d' = dm_telemetry d"
    and "dm_publisher d' = dm_publisher d" and "node_inv (dm_node d') = node_inv (dm_node d)"
    and "n_export (dm_node d') = n_export (dm_node d)" and "loop_start (dm_loop d') = loop_start (dm_loop d)"
  using assms
  by (auto simp: daemon_udp_def register_fd_def loop_start_def Let_def split: if_splits prod.splits sum.splits)

lemma daemon_udp_fds:
  assumes "daemon_udp os cfg d = Delivered d'" and "fresh_fds os" and "refuses_invalid os" and "daemon_fds d base" and "dm_udp d = None"
  shows "daemon_fds d' base" and "dm_udp d' \<noteq> None \<longleftrightarrow> uc_enabled (cfg_udp cfg)"
proof -
  have "daemon_fds d' base \<and> (dm_udp d' \<noteq> None \<longleftrightarrow> uc_enabled (cfg_udp cfg))"
  proof (cases "uc_enabled (cfg_udp cfg)")
    case True
    let ?fd = "os_fd os 4 (fw_open (dm_fds d))"
    let ?a = "\<lparr>sa_socket = ?fd, sa_bind = os_bind os ?fd, sa_getfl = os_getfl os ?fd, sa_setfl = os_setfl os ?fd\<rparr>"
    obtain r w e where i: "initializeSocket ?a (UdpReceiver_new (uc_port (cfg_udp cfg)) True NonBlocking) (sys_open ?fd (dm_fds d))
        (n_env (dm_node d)) = (r, w, e)" by (cases rule: prod_cases3)
    have d': "dm_udp d' = Some r" "dm_fds d' = w" "dm_control d' = dm_control d" "dm_event d' = dm_event d" "dm_epoll d' = dm_epoll d"
      "node_backends (dm_node d') = node_backends (dm_node d)" and add: "\<not> os_epoll_ctl os 1 (d_fd (ur_socket r)) < 0"
      using assms(1) True by (auto simp: daemon_udp_def i register_fd_def epoll_add_def node_backends_def Let_def split: if_splits)
    have valid: "0 \<le> d_fd (ur_socket r)" using add assms(3) by (auto simp: refuses_invalid_def not_less [symmetric])
    have r: "d_fd (ur_socket r) = ?fd" "d_registry (ur_socket r)" "\<not> ur_running r" "\<not> ur_joinable r"
      "w = snd (FileDescriptor_new ?fd True UdpSocket (sys_open ?fd (dm_fds d)))"
      using initializeSocket_new [OF i valid] by auto
    obtain h where h: "FileDescriptor_new ?fd True UdpSocket (sys_open ?fd (dm_fds d)) = (h, w)" using r(5) by (metis prod.collapse)
    from assms(4) obtain b where b: "node_backends (dm_node d) = [(1, UdpBackend b)]"
      "\<forall>h \<in> set (ub_socket b # daemon_handles d). 0 \<le> d_fd h \<and> d_registry h"
      "holds (map d_fd (daemon_handles d) @ [d_fd (ub_socket b)]) base (dm_fds d)" by (auto simp: daemon_fds_def)
    have "0 \<le> ?fd" using valid r(1) by simp
    from holds_open(1) [OF b(3) assms(2) refl this h] b(1,2) r(1-4) \<open>0 \<le> ?fd\<close> True show ?thesis
      by (auto simp: daemon_fds_def daemon_handles_def d' assms(5))
  next
    case False
    then show ?thesis using assms by (auto simp: daemon_udp_def)
  qed
  then show "daemon_fds d' base" "dm_udp d' \<noteq> None \<longleftrightarrow> uc_enabled (cfg_udp cfg)" by auto
qed

lemma daemon_exporters_frame:
  "\<exists>m e. daemon_exporters os d = d\<lparr>dm_node := with_env ((dm_node d)\<lparr>n_export := m\<rparr>) e\<rparr> \<and> xm_running m \<and>
     (\<not> xm_running (n_export (dm_node d)) \<longrightarrow> xm_thread_joinable m) \<and> export_inv m = export_inv (n_export (dm_node d)) \<and> length (xm_exporters m) = length (xm_exporters (n_export (dm_node d))) + 3"
proof -
  let ?m = "n_export (dm_node d)" and ?e = "n_env (dm_node d)"
  obtain x e where x: "FileTelemetryExporter_new ''telemetry.log'' (os_file_open os ''telemetry.log'') (os_file_good os) ?e = (x, e)"
    by fastforce
  let ?m' = "?m\<lparr>xm_exporters := xm_exporters ?m @ [StdoutTelemetryExporter, InMemoryTelemetryExporter [], FileExporter x], xm_running := True,
      xm_thread_joinable := (if xm_running ?m then xm_thread_joinable ?m else True)\<rparr>"
  have "daemon_exporters os d = d\<lparr>dm_node := with_env ((dm_node d)\<lparr>n_export := ?m'\<rparr>) e\<rparr>"
    by (cases ?m) (simp add: daemon_exporters_def addExporter_def x export_start_def Let_def)
  moreover have "export_inv ?m' = export_inv ?m" by (simp add: export_inv_def)
  ultimately show ?thesis by (intro exI [of _ ?m'] exI [of _ e]) simp
qed

lemma build_status:
  assumes "build order t h s state now b e = (status, b', e')"
  shows "rst_state status = state" and "rm_tick_count (rst_metrics status) = tl_tick_count t"
  using assms by (auto simp: build_def telemetry_snapshot_def Let_def split: prod.splits)

lemma publish_status_frame:
  "\<exists>e b status. publish_status order d = d\<lparr>dm_node := with_env (dm_node d) e, dm_builder := b,
      dm_publisher := \<lparr>sp_version = sp_version (dm_publisher d) + 1, sp_snapshot = Some status\<rparr>\<rparr> \<and>
     rst_state status = dm_state d \<and> rst_snapshot_version status = sp_version (dm_publisher d) + 1 \<and>
     rm_tick_count (rst_metrics status) = tl_tick_count (dm_telemetry d)"
proof -
  let ?w = "dm_node d"
  obtain now e1 where n: "nowMs (n_env ?w) = (now, e1)" by fastforce
  obtain status b e2 where b: "build order (dm_telemetry d) (n_health ?w) (n_stats ?w) (dm_state d) now (dm_builder d) e1 = (status, b, e2)"
    by (cases rule: prod_cases3)
  let ?v = "sp_version (dm_publisher d) + 1"
  let ?status = "status\<lparr>rst_snapshot_version := ?v\<rparr>"
  have "publish_status order d = d\<lparr>dm_node := with_env ?w e2, dm_builder := b,
      dm_publisher := \<lparr>sp_version = ?v, sp_snapshot = Some ?status\<rparr>\<rparr>"
    by (cases "dm_publisher d")
      (simp add: publish_status_def n b publish_snapshot_def take_version_def store_snapshot_def Let_def)
  then show ?thesis using build_status [OF b] by (intro exI [of _ e2] exI [of _ b] exI [of _ ?status]) simp
qed

lemma daemon_udp_handlers:
  assumes "daemon_udp os cfg d = Delivered d'"
  shows "el_handlers (dm_loop d') = (case dm_udp d' of
       Some r \<Rightarrow> if uc_enabled (cfg_udp cfg) then registerHandler (d_fd (ur_socket r)) UdpReady (el_handlers (dm_loop d)) else el_handlers (dm_loop d)
     | None \<Rightarrow> el_handlers (dm_loop d))"
    and "dm_event d' = dm_event d"
  using assms
  by (auto simp: daemon_udp_def register_fd_def Let_def split: if_splits prod.splits sum.splits option.splits)

lemma daemon_construct_handlers:
  assumes "daemon_construct os cfg e w = Delivered d"
  shows "el_handlers (dm_loop d) = registerHandler (d_fd (dm_event d)) ShutdownWakeup []"
    and "dm_state d = Booting" and "tl_tick_count (dm_telemetry d) = 0" and "dm_publisher d = SnapshotPublisher_new"
    and "n_export (dm_node d) = TelemetryExportManager_new 512"
proof -
  have loop: "l = EpollEventLoop_new (d_fd ev) ShutdownWakeup" if "EpollEventLoop_construct os v = Delivered (ev, l, v')" for ev l v v'
    using that by (auto simp: EpollEventLoop_construct_def Let_def split: prod.splits sum.splits)
  obtain tm w1 where tm: "transport_construct os w = Delivered (tm, w1)"
    using assms by (cases "transport_construct os w") (auto simp: daemon_construct_def split: prod.splits)
  obtain ep w2 where ep: "EpollManager_construct os w1 = Delivered (ep, w2)"
    using assms by (cases "EpollManager_construct os w1") (auto simp: daemon_construct_def tm split: prod.splits)
  obtain ev l w3 where ev: "EpollEventLoop_construct os w2 = Delivered (ev, l, w3)"
    using assms by (cases "EpollEventLoop_construct os w2") (auto simp: daemon_construct_def tm ep split: prod.splits)
  show "el_handlers (dm_loop d) = registerHandler (d_fd (dm_event d)) ShutdownWakeup []"
    and "dm_state d = Booting" and "tl_tick_count (dm_telemetry d) = 0" and "dm_publisher d = SnapshotPublisher_new"
    and "n_export (dm_node d) = TelemetryExportManager_new 512"
    using assms by (auto simp: daemon_construct_def tm ep ev loop [OF ev] EpollEventLoop_new_def Telemetry_new_def Let_def split: prod.splits)
qed

text \<open>A start that gives up leaves the export thread joinable.\<close>

lemma daemon_boot_given_up:
  assumes "daemon_boot os cfg e w = Delivered (GivenUp d)"
  shows "\<not> fd_valid (dm_control d) \<and> xm_thread_joinable (n_export (dm_node d))"
proof -
  obtain d0 where d0: "daemon_construct os cfg e w = Delivered d0"
    using assms by (cases "daemon_construct os cfg e w") (auto simp: daemon_boot_def)
  obtain d1 where d1: "daemon_udp os cfg d0 = Delivered d1"
    using assms by (cases "daemon_udp os cfg d0") (auto simp: daemon_boot_def d0)
  obtain m env where x: "daemon_exporters os d1 = d1\<lparr>dm_node := with_env ((dm_node d1)\<lparr>n_export := m\<rparr>) env\<rparr>" "xm_thread_joinable m"
    using daemon_exporters_frame [of os d1] daemon_udp_frame(6) [OF d1] daemon_construct_handlers(5) [OF d0]
    by (auto simp: TelemetryExportManager_new_def)
  let ?d = "publish_status (os_drop_order os) (daemon_exporters os d1)"
  have p: "n_export (dm_node ?d) = m" using publish_status_frame [of "os_drop_order os" "daemon_exporters os d1"] by (auto simp: x(1))
  have "daemon_control os ?d = Delivered (GivenUp d)" using assms by (simp add: daemon_boot_def d0 d1)
  then show ?thesis using p x(2) by (auto simp: daemon_control_def split: if_splits sum.splits)
qed

lemma daemon_boot_finishes: "daemon_boot os cfg e w \<noteq> Unfinished"
proof -
  have bind: "m \<noteq> Unfinished \<Longrightarrow> (\<And>x. f x \<noteq> Unfinished) \<Longrightarrow> and_then m f \<noteq> Unfinished"
    for m :: "'b delivery" and f :: "'b \<Rightarrow> 'c delivery" by (cases m) simp_all
  have "daemon_construct os cfg e w \<noteq> Unfinished"
    by (auto simp: daemon_construct_def transport_construct_def EpollManager_construct_def EpollEventLoop_construct_def
        split_beta Let_def split: sum.splits intro!: bind)
  moreover have "daemon_udp os cfg d \<noteq> Unfinished" "daemon_control os d \<noteq> Unfinished" for d
    by (simp_all add: daemon_udp_def daemon_control_def split_beta Let_def split: sum.split)
  ultimately show ?thesis unfolding daemon_boot_def by (intro bind)
qed

text \<open>The whole start.\<close>

lemma daemon_boot_cases:
  assumes "daemon_boot os cfg e w = Delivered (Started d)"
  obtains d0 d1 m env' b status where "daemon_construct os cfg e w = Delivered d0" "daemon_udp os cfg d0 = Delivered d1"
    "xm_running m" "export_inv m = export_inv (n_export (dm_node d1))" "length (xm_exporters m) = length (xm_exporters (n_export (dm_node d1))) + 3"
    "d = register_fd (d_fd (dm_control d1)) ControlReady
       (d1\<lparr>dm_node := with_env ((dm_node d1)\<lparr>n_export := m\<rparr>) env', dm_builder := b,
        dm_publisher := \<lparr>sp_version = sp_version (dm_publisher d1) + 1, sp_snapshot = Some status\<rparr>\<rparr>)"
    "fd_valid (dm_control d1)" "rst_state status = dm_state d1"
proof -
  obtain d0 where d0: "daemon_construct os cfg e w = Delivered d0"
    using assms by (cases "daemon_construct os cfg e w") (auto simp: daemon_boot_def)
  obtain d1 where d1: "daemon_udp os cfg d0 = Delivered d1"
    using assms by (cases "daemon_udp os cfg d0") (auto simp: daemon_boot_def d0)
  obtain m env where x: "daemon_exporters os d1 = d1\<lparr>dm_node := with_env ((dm_node d1)\<lparr>n_export := m\<rparr>) env\<rparr>" "xm_running m"
    "export_inv m = export_inv (n_export (dm_node d1))" "length (xm_exporters m) = length (xm_exporters (n_export (dm_node d1))) + 3"
    using daemon_exporters_frame [of os d1] by auto
  obtain env' b status where p: "publish_status (os_drop_order os) (daemon_exporters os d1) =
      d1\<lparr>dm_node := with_env ((dm_node d1)\<lparr>n_export := m\<rparr>) env', dm_builder := b,
        dm_publisher := \<lparr>sp_version = sp_version (dm_publisher d1) + 1, sp_snapshot = Some status\<rparr>\<rparr>" "rst_state status = dm_state d1"
    using publish_status_frame [of "os_drop_order os" "daemon_exporters os d1"] by (auto simp: x(1))
  have "daemon_control os (publish_status (os_drop_order os) (daemon_exporters os d1)) = Delivered (Started d)"
    using assms by (simp add: daemon_boot_def d0 d1)
  then have "d = register_fd (d_fd (dm_control d1)) ControlReady
       (d1\<lparr>dm_node := with_env ((dm_node d1)\<lparr>n_export := m\<rparr>) env', dm_builder := b,
        dm_publisher := \<lparr>sp_version = sp_version (dm_publisher d1) + 1, sp_snapshot = Some status\<rparr>\<rparr>) \<and> fd_valid (dm_control d1)"
    unfolding p(1) by (auto simp: daemon_control_def split: if_splits sum.splits)
  with that d0 d1 x p(2) show thesis by blast
qed

lemma daemon_boot_ready:
  assumes "daemon_boot os cfg e w = Delivered (Started d)" and "fresh_fds os" and "refuses_invalid os" and "holds [] base w"
  shows "daemon_fds d base" and "node_inv (dm_node d)" and "loop_start (dm_loop d)" and "dm_state d = Booting"
    and "tl_tick_count (dm_telemetry d) = 0" and "sp_version (dm_publisher d) = 1" and "xm_running (n_export (dm_node d))"
    and "dm_udp d \<noteq> None \<longleftrightarrow> uc_enabled (cfg_udp cfg)" and "length (xm_exporters (n_export (dm_node d))) = 3"
    and "map_of (el_handlers (dm_loop d)) =
      ((case dm_udp d of None \<Rightarrow> Map.empty | Some r \<Rightarrow> [d_fd (ur_socket r) \<mapsto> UdpReady])
        (d_fd (dm_event d) \<mapsto> ShutdownWakeup, d_fd (dm_control d) \<mapsto> ControlReady))"
proof -
  from assms(1) obtain d0 d1 m env' b status
    where d0: "daemon_construct os cfg e w = Delivered d0" and d1: "daemon_udp os cfg d0 = Delivered d1"
    and m: "xm_running m" "export_inv m = export_inv (n_export (dm_node d1))"
      "length (xm_exporters m) = length (xm_exporters (n_export (dm_node d1))) + 3"
    and d: "d = register_fd (d_fd (dm_control d1)) ControlReady
       (d1\<lparr>dm_node := with_env ((dm_node d1)\<lparr>n_export := m\<rparr>) env', dm_builder := b,
        dm_publisher := \<lparr>sp_version = sp_version (dm_publisher d1) + 1, sp_snapshot = Some status\<rparr>\<rparr>)"
    and valid: "fd_valid (dm_control d1)" by (rule daemon_boot_cases)
  note frame = daemon_udp_frame [OF d1] and handlers = daemon_udp_handlers [OF d1] and start = daemon_construct_handlers [OF d0]
  have c0: "fd_valid (dm_control d0)" using valid frame(1) by simp
  note con = daemon_construct_fds [OF d0 assms(2,4) c0]
  note udp = daemon_udp_fds [OF d1 assms(2,3) con(1,2)]
  show fds: "daemon_fds d base"
    using udp(1) by (simp add: daemon_fds_def daemon_handles_def node_backends_def d register_fd_def)
  show "node_inv (dm_node d)" using con(3) frame(5) m(2) by (simp add: d register_fd_def node_inv_def)
  show "loop_start (dm_loop d)" using con(4) frame(7) by (simp add: d register_fd_def loop_start_def)
  show "dm_state d = Booting" "tl_tick_count (dm_telemetry d) = 0" "sp_version (dm_publisher d) = 1"
    using start frame by (simp_all add: d register_fd_def SnapshotPublisher_new_def)
  show "xm_running (n_export (dm_node d))" using m(1) by (simp add: d register_fd_def)
  show "dm_udp d \<noteq> None \<longleftrightarrow> uc_enabled (cfg_udp cfg)" using udp(2) by (simp add: d register_fd_def)
  show "length (xm_exporters (n_export (dm_node d))) = 3"
    using m(3) frame(6) start(5) by (simp add: d register_fd_def TelemetryExportManager_new_def)
  have "distinct (map d_fd (daemon_handles d))" using fds by (auto simp: daemon_fds_def holds_def)
  then show "map_of (el_handlers (dm_loop d)) =
      ((case dm_udp d of None \<Rightarrow> Map.empty | Some r \<Rightarrow> [d_fd (ur_socket r) \<mapsto> UdpReady])
        (d_fd (dm_event d) \<mapsto> ShutdownWakeup, d_fd (dm_control d) \<mapsto> ControlReady))"
    using udp(2) handlers start(1)
    by (auto simp: d register_fd_def registerHandler_def container_simps omap_wf_assign daemon_handles_def fun_eq_iff split: option.splits)
qed

section \<open>Properties\<close>

text \<open>
  \<^bold>\<open>C23\<close> The daemon starts completely or not at all. When the start succeeds, the control socket, the wake-up
  descriptor and, if and only if UDP is enabled in the configuration, the receiver's socket are open, registered,
  owned by one handle each, and each is watched by its own handler in the event loop and by no other; the three
  exporters are in place, their thread runs, the first snapshot has been published and the component invariants
  hold. This relies on the operating system handing out descriptors that are not open and refusing to watch
  something that is no descriptor.
\<close>

theorem boot_wires_every_socket:
  assumes "daemon_boot os cfg e w = Delivered (Started d)" and "fresh_fds os" and "refuses_invalid os"
    and "fw_registry w = []" and "fw_bad_closes w = 0"
  shows "distinct (map d_fd (daemon_handles d)) \<and>
    (\<forall>h \<in> set (daemon_handles d). d_fd h \<in> set (fw_open (dm_fds d)) - set (fw_open w) \<and> d_fd h \<in> active_fds (fw_registry (dm_fds d))) \<and>
    (dm_udp d \<noteq> None \<longleftrightarrow> uc_enabled (cfg_udp cfg)) \<and>
    map_of (el_handlers (dm_loop d)) =
      ((case dm_udp d of None \<Rightarrow> Map.empty | Some r \<Rightarrow> [d_fd (ur_socket r) \<mapsto> UdpReady])
        (d_fd (dm_event d) \<mapsto> ShutdownWakeup, d_fd (dm_control d) \<mapsto> ControlReady)) \<and>
    length (xm_exporters (n_export (dm_node d))) = 3 \<and> xm_running (n_export (dm_node d)) \<and>
    sp_version (dm_publisher d) = 1 \<and> fw_bad_closes (dm_fds d) = 0 \<and> node_inv (dm_node d)"
proof -
  have "holds [] (set (fw_open w)) w" using assms(4,5) by (simp add: holds_def active_fds_def reg_inv_def hmap_wf_def)
  note ready = daemon_boot_ready [OF assms(1-3) this]
  from ready(1) have "distinct (map d_fd (daemon_handles d)) \<and> fw_bad_closes (dm_fds d) = 0 \<and>
    (\<forall>h \<in> set (daemon_handles d). d_fd h \<in> set (fw_open (dm_fds d)) - set (fw_open w) \<and> d_fd h \<in> active_fds (fw_registry (dm_fds d)))"
    by (auto simp: daemon_fds_def holds_def)
  with ready(2,6-10) show ?thesis by simp
qed

definition os_demo :: os_answers where
  "os_demo = \<lparr>os_fd = (\<lambda>k opens. fold max opens 2 + 1), os_errno = 0, os_inet_pton = (\<lambda>_. Some 2130706433),
     os_epoll_ctl = (\<lambda>k fd. if fd < 0 then -1 else 0), os_bind = (\<lambda>_. 0), os_listen = (\<lambda>_. 0), os_getfl = (\<lambda>_. 2),
     os_setfl = (\<lambda>_. 0), os_file_open = (\<lambda>_. True), os_file_good = (\<lambda>_. True), os_drop_order = (\<lambda>xs. xs)\<rparr>"

definition world_demo :: fd_world where
  "world_demo = \<lparr>fw_registry = [], fw_open = [2, 1, 0], fw_bad_closes = 0\<rparr>"

lemma fold_max_bound: "(x :: int) \<in> set xs \<or> x \<le> a \<Longrightarrow> x \<le> fold max xs a"
proof (induction xs arbitrary: a x)
  case (Cons y xs)
  then show ?case by (auto intro!: Cons.IH simp: le_max_iff_disj)
qed simp

lemma os_demo_ok: "fresh_fds os_demo" "refuses_invalid os_demo"
proof -
  have "fold max opens 2 + 1 \<notin> set opens" for opens :: "int list"
    using fold_max_bound [of "fold max opens 2 + 1" opens 2] by auto
  then show "fresh_fds os_demo" by (simp add: fresh_fds_def os_demo_def)
qed (simp add: refuses_invalid_def os_demo_def)

lemma boot_demo: "\<exists>d. daemon_boot os_demo (cv_config demo_server) env_demo world_demo = Delivered (Started d)"
proof -
  have "\<exists>d0. daemon_construct os_demo (cv_config demo_server) env_demo world_demo = Delivered d0 \<and> fd_valid (dm_control d0) \<and> dm_udp d0 = None"
    by (simp add: daemon_construct_def transport_construct_def EpollManager_construct_def EpollEventLoop_construct_def
        createControlSocket_def UdpPortBackend_new_def EpollManager_new_def EventFd_new_def epoll_add_def registerBackend_def
        TransportManager_new_def FileDescriptor_new_def fd_valid_def sys_open_def os_demo_def world_demo_def Let_def split: prod.split)
  then obtain d0 where d0: "daemon_construct os_demo (cv_config demo_server) env_demo world_demo = Delivered d0"
    "fd_valid (dm_control d0)" "dm_udp d0 = None" by blast
  have "0 \<le> fold max opens 2 + (1 :: int)" for opens using fold_max_bound [of 2 opens 2] by simp
  then have "\<exists>d1. daemon_udp os_demo (cv_config demo_server) d0 = Delivered d1"
    by (simp add: daemon_udp_def initializeSocket_def UdpReceiver_new_def FileDescriptor_new_def fd_move_assign_def fd_destroy_def
        fd_reset_def FileDescriptor_default_def epoll_add_def os_demo_def demo_server_def not_less Let_def)
  then obtain d1 where d1: "daemon_udp os_demo (cv_config demo_server) d0 = Delivered d1" by blast
  obtain m env where x: "daemon_exporters os_demo d1 = d1\<lparr>dm_node := with_env ((dm_node d1)\<lparr>n_export := m\<rparr>) env\<rparr>"
    using daemon_exporters_frame [of os_demo d1] by auto
  have "dm_control (publish_status order (daemon_exporters os_demo d1)) = dm_control d0" for order
    using publish_status_frame [of order "daemon_exporters os_demo d1"] daemon_udp_frame(1) [OF d1] by (auto simp: x)
  then have "\<exists>d. daemon_control os_demo (publish_status order (daemon_exporters os_demo d1)) = Delivered (Started d)" for order
    using d0(2) by (simp add: daemon_control_def epoll_add_def fd_valid_def os_demo_def)
  then show ?thesis by (simp add: daemon_boot_def d0(1) d1)
qed

theorem boot_wires_every_socket_witness:
  "\<exists>d. daemon_boot os_demo (cv_config demo_server) env_demo world_demo = Delivered (Started d) \<and> dm_udp d \<noteq> None \<and>
     map_of (el_handlers (dm_loop d)) (d_fd (dm_control d)) = Some ControlReady"
proof -
  obtain d where d: "daemon_boot os_demo (cv_config demo_server) env_demo world_demo = Delivered (Started d)" using boot_demo by blast
  from boot_wires_every_socket [OF d os_demo_ok] d show ?thesis by (simp add: world_demo_def demo_server_def)
qed

end
