(* ===== verification/Epoll_Thread.thy ===== *)
theory Epoll_Thread
  imports Daemon_Boot
begin

text \<open>
  The event-loop thread with its real handlers (system/epoll/EpollEventLoop, the ready handlers, system/event_source/EventFd):
  \<^verbatim>\<open>run()\<close> on the wired daemon, where every dispatched event runs the control server, the UDP receiver or the wake-up
  handler. The kernel's part is its documented behaviour for level-triggered descriptors: the counter of the
  eventfd, and an \<^verbatim>\<open>epoll_wait\<close> that returns the ready descriptors; whether it ever times out is a parameter. The other threads may change
  the runtime and the published snapshot between any two steps, within the component invariants; \<^verbatim>\<open>stop()\<close> is the
  exchange of the flag and, later, the notification (docs/system/epoll-shutdown-wakeup-flow.md).
\<close>

section \<open>Definitions\<close>

record epoll_thread =
  et_loop :: "ready_handler EpollEventLoop"
  et_shutdown_fd :: int
  et_counter :: nat
  et_notifying :: bool
  et_node :: node
  et_udp :: UdpReceiver
  et_server :: ControlServer
  et_io :: control_io

text \<open>What the operating system and the libraries answer to the handlers.\<close>

record thread_answers =
  ta_params :: control_params
  ta_recv :: "nat \<Rightarrow> recv_answer"
  ta_strerror :: "int \<Rightarrow> string"
  ta_timeouts :: bool

text \<open>Reading the eventfd: possibly interrupted some times, then the counter, which is reset, or nothing.\<close>

definition eventfd_read :: "nat \<Rightarrow> nat \<Rightarrow> (int \<times> int \<times> u64) list" where
  "eventfd_read interrupts counter =
     replicate interrupts (-1, EINTR_errno, 0) @ [if 0 < counter then (8, 0, of_nat counter) else (-1, EAGAIN_errno, 0)]"

definition handle_event ::
  "thread_answers \<Rightarrow> nat \<Rightarrow> accept_answer list \<Rightarrow> ready_handler \<Rightarrow> epoll_thread \<Rightarrow> epoll_thread delivery" where
  "handle_event ta interrupts accepts h s =
     (case h of
        ShutdownWakeup \<Rightarrow>
          (case ShutdownWakeup_onEvent (eventfd_read interrupts (et_counter s)) of
             None \<Rightarrow> Unfinished
           | Some (Inl ex) \<Rightarrow> Raised ex
           | Some (Inr _) \<Rightarrow> Delivered (s\<lparr>et_counter := 0\<rparr>))
      | UdpReady \<Rightarrow>
          and_then (UdpReady_onEvent daemon_publish (ta_recv ta) (ta_strerror ta) (et_udp s) (et_node s)) (\<lambda>(_, r, w).
            Delivered (s\<lparr>et_udp := r, et_node := w\<rparr>))
      | ControlReady \<Rightarrow>
          and_then (ControlReady_onEvent (ta_params ta) daemon_publish (et_server s) accepts (et_node s, et_io s)) (\<lambda>(w, io).
            Delivered (s\<lparr>et_node := w, et_io := io\<rparr>)))"

text \<open>
  The clients waiting at the control socket and the error that ends the accepts; the first 127 bytes that a client has
  sent, which is all the server reads, are UTF-8 by themselves.
\<close>

definition waiting_clients :: "accept_answer list \<Rightarrow> bool" where
  "waiting_clients accepts \<longleftrightarrow> (\<exists>clients errno.
     accepts = map (\<lambda>(fd, data). Accepted fd data) clients @ [AcceptError errno] \<and>
     list_all (\<lambda>(fd, data). \<forall>b. data = Some b \<longrightarrow> utf8 (take 127 b)) clients)"

text \<open>What \<^verbatim>\<open>epoll_wait\<close> returns: ready descriptors, the eventfd among them exactly when its counter is not zero.\<close>

definition ready_batch :: "epoll_thread \<Rightarrow> EpollEvent list \<Rightarrow> bool" where
  "ready_batch s events \<longleftrightarrow> events \<noteq> [] \<and> length events \<le> 64 \<and>
     (\<forall>ev \<in> set events. map_of (el_handlers (et_loop s)) (ev_fd ev) \<noteq> None) \<and>
     (et_shutdown_fd s \<in> ev_fd ` set events \<longleftrightarrow> 0 < et_counter s)"

abbreviation at_pc :: "epoll_thread \<Rightarrow> loop_pc \<Rightarrow> epoll_thread" where
  "at_pc s pc \<equiv> s\<lparr>et_loop := (et_loop s)\<lparr>el_pc := pc\<rparr>\<rparr>"

text \<open>One event: the handler of its descriptor, if there is one.\<close>

definition dispatch ::
  "thread_answers \<Rightarrow> nat \<Rightarrow> accept_answer list \<Rightarrow> EpollEvent \<Rightarrow> epoll_thread \<Rightarrow> epoll_thread delivery" where
  "dispatch ta interrupts accepts ev s =
     (case map_of (el_handlers (et_loop s)) (ev_fd ev) of
        None \<Rightarrow> Delivered s
      | Some h \<Rightarrow> handle_event ta interrupts accepts h s)"

text \<open>The body of the thread around \<^verbatim>\<open>run()\<close>: it says that it starts, and that it has left the loop.\<close>

definition thread_log :: "(env \<Rightarrow> env) \<Rightarrow> epoll_thread \<Rightarrow> epoll_thread" where
  "thread_log f s = s\<lparr>et_node := with_env (et_node s) (f (n_env (et_node s)))\<rparr>"

definition thread_begins :: "epoll_thread \<Rightarrow> epoll_thread" where
  "thread_begins s = thread_log (log_info ''[EPOLL] Event loop thread started'')
     (s\<lparr>et_loop := (et_loop s)\<lparr>el_running := True, el_pc := Checking\<rparr>\<rparr>)"

definition thread_leaves :: "epoll_thread \<Rightarrow> epoll_thread" where
  "thread_leaves s = thread_log (log_debug ''[EPOLL] Event loop thread exiting'')
     (thread_log (log_debug ''[EPOLL] Event loop stopped'') (at_pc s Exited))"

inductive thread_step :: "thread_answers \<Rightarrow> epoll_thread \<Rightarrow> epoll_thread \<Rightarrow> bool" for ta where
  begin_run: "el_pc (et_loop s) = NotStarted \<Longrightarrow>
    thread_step ta s (thread_begins s)"
| check: "el_pc (et_loop s) = Checking \<Longrightarrow>
    thread_step ta s (if el_running (et_loop s) then at_pc s InWait else thread_leaves s)"
| wait: "el_pc (et_loop s) = InWait \<Longrightarrow> ready_batch s events \<or> ta_timeouts ta \<and> events = [] \<Longrightarrow>
    thread_step ta s (at_pc s (Dispatching events))"
| dispatch: "el_pc (et_loop s) = Dispatching (ev # events) \<Longrightarrow> waiting_clients accepts \<Longrightarrow>
    dispatch ta interrupts accepts ev s = Delivered s' \<Longrightarrow> thread_step ta s (at_pc s' (Dispatching events))"
| batch_done: "el_pc (et_loop s) = Dispatching [] \<Longrightarrow> thread_step ta s (at_pc s Checking)"

text \<open>What the other threads do: \<^verbatim>\<open>stop()\<close> in its two halves, and everything that changes runtime and snapshot.\<close>

inductive others_step :: "epoll_thread \<Rightarrow> epoll_thread \<Rightarrow> bool" where
  stop_exchange: "others_step s (s\<lparr>et_loop := (et_loop s)\<lparr>el_running := False\<rparr>,
    et_notifying := et_notifying s \<or> el_running (et_loop s)\<rparr>)"
| stop_notify: "et_notifying s \<Longrightarrow> notify (replicate k (-1, EINTR_errno) @ [(8, 0)]) = Some (Inr ()) \<Longrightarrow>
    others_step s (s\<lparr>et_notifying := False, et_counter := Suc (et_counter s)\<rparr>)"
| runtime: "node_inv w \<Longrightarrow> cv_config srv = cv_config (et_server s) \<Longrightarrow>
    others_step s (s\<lparr>et_node := w, et_server := srv\<rparr>)"

definition epoll_step :: "thread_answers \<Rightarrow> epoll_thread \<Rightarrow> epoll_thread \<Rightarrow> bool" where
  "epoll_step ta s s' \<longleftrightarrow> thread_step ta s s' \<or> others_step s s'"

definition thread_start :: "epoll_thread \<Rightarrow> bool" where
  "thread_start s \<longleftrightarrow> loop_start (et_loop s) \<and> et_counter s = 0 \<and> \<not> et_notifying s \<and> node_inv (et_node s) \<and>
     server_utf8 (et_server s) \<and> map_of (el_handlers (et_loop s)) (et_shutdown_fd s) = Some ShutdownWakeup"

text \<open>The thread of a daemon that has just started.\<close>

definition thread_of :: "daemon \<Rightarrow> ControlServer \<Rightarrow> epoll_thread" where
  "thread_of d srv = \<lparr>et_loop = dm_loop d, et_shutdown_fd = d_fd (dm_event d), et_counter = 0, et_notifying = False,
     et_node = dm_node d, et_udp = (case dm_udp d of Some r \<Rightarrow> r | None \<Rightarrow> UdpReceiver_new 0 False NonBlocking),
     et_server = srv, et_io = \<lparr>co_written = [], co_closed = []\<rparr>\<rparr>"

definition answers_ok :: "thread_answers \<Rightarrow> bool" where
  "answers_ok ta \<longleftrightarrow> strict_dump (cp_dump (ta_params ta)) \<and> hash_order (cp_table_order (ta_params ta))"

lemma thread_log_simps [simp]:
  "node_inv (et_node (thread_log f s)) = node_inv (et_node s)"
  "et_loop (thread_log f s) = et_loop s" "et_shutdown_fd (thread_log f s) = et_shutdown_fd s"
  "et_counter (thread_log f s) = et_counter s" "et_notifying (thread_log f s) = et_notifying s"
  "et_server (thread_log f s) = et_server s"
  by (simp_all add: thread_log_def)

lemma thread_begins_simps [simp]:
  "node_inv (et_node (thread_begins s)) = node_inv (et_node s)"
  "et_loop (thread_begins s) = (et_loop s)\<lparr>el_running := True, el_pc := Checking\<rparr>"
  "et_shutdown_fd (thread_begins s) = et_shutdown_fd s" "et_counter (thread_begins s) = et_counter s"
  "et_notifying (thread_begins s) = et_notifying s" "et_server (thread_begins s) = et_server s"
  by (simp_all add: thread_begins_def)

lemma thread_leaves_simps [simp]:
  "node_inv (et_node (thread_leaves s)) = node_inv (et_node s)"
  "et_loop (thread_leaves s) = (et_loop s)\<lparr>el_pc := Exited\<rparr>"
  "et_shutdown_fd (thread_leaves s) = et_shutdown_fd s" "et_counter (thread_leaves s) = et_counter s"
  "et_notifying (thread_leaves s) = et_notifying s" "et_server (thread_leaves s) = et_server s"
  by (simp_all add: thread_leaves_def)

section \<open>No handler fails\<close>

lemma eventfd_drained:
  "ShutdownWakeup_onEvent (eventfd_read interrupts counter) = Some (Inr ())"
proof -
  have "drain (replicate k (-1, EINTR_errno, 0) @ [if 0 < n then (8, 0, of_nat n) else (-1, EAGAIN_errno, 0)]) =
      Some (Inr (of_nat n))" for k n
    by (induction k) simp_all
  then show ?thesis by (simp add: ShutdownWakeup_onEvent_def eventfd_read_def)
qed

lemma notify_interrupted: "notify (replicate k (-1, EINTR_errno) @ [(8, 0)]) = Some (Inr ())"
  by (induction k) simp_all

lemma handle_event_delivers:
  assumes "answers_ok ta" and "node_inv (et_node s)" and "server_utf8 (et_server s)" and "waiting_clients accepts"
  shows "\<exists>s'. handle_event ta interrupts accepts h s = Delivered s' \<and> node_inv (et_node s') \<and> et_server s' = et_server s \<and>
    et_loop s' = et_loop s \<and> et_shutdown_fd s' = et_shutdown_fd s \<and> et_notifying s' = et_notifying s \<and>
    et_counter s' = (if h = ShutdownWakeup then 0 else et_counter s)"
proof (cases h)
  case ShutdownWakeup
  then show ?thesis using assms(2) by (simp add: handle_event_def eventfd_drained)
next
  case UdpReady
  let ?w = "with_env (et_node s) (log_debug ''[EPOLL] UDP readable'' (n_env (et_node s)))"
  have "node_inv ?w" using assms(2) by simp
  then obtain k r w where "read_loop daemon_publish (ta_recv ta) (ta_strerror ta) MaxPacketsPerWakeup 0 (et_udp s) ?w = Delivered (0 + k, r, w)"
    "node_inv w" using read_loop_safe [OF reliable_daemon_publish] by blast
  then show ?thesis by (simp add: handle_event_def UdpReady UdpReady_onEvent_def processReadableEvent_def)
next
  case ControlReady
  obtain clients errno where acc: "accepts = map (\<lambda>(fd, data). Accepted fd data) clients @ [AcceptError errno]"
    "list_all (\<lambda>(fd, data). \<forall>b. data = Some b \<longrightarrow> utf8 (take 127 b)) clients"
    using assms(4) by (auto simp: waiting_clients_def)
  obtain w' texts where "control_accept_loop (ta_params ta) daemon_publish (et_server s)
      (map (\<lambda>(fd, data). Accepted fd data) clients @ AcceptError errno # []) (et_node s, et_io s) =
      Delivered (w', \<lparr>co_written = co_written (et_io s) @ concat texts, co_closed = co_closed (et_io s) @ map fst clients\<rparr>)"
    "node_inv w'"
    using accept_loop_serves [OF _ _ reliable_daemon_publish assms(3) acc(2) assms(2), of "ta_params ta" errno "[]" "et_io s"] assms(1)
    unfolding answers_ok_def by blast
  then show ?thesis by (simp add: handle_event_def ControlReady ControlReady_onEvent_def control_processReadableEvent_def acc(1))
qed

section \<open>The invariant\<close>

text \<open>
  A stopped loop that is waiting has been or is about to be notified: the flag was exchanged after the thread
  had seen it, so the exchange saw it set.
\<close>

definition thread_inv :: "epoll_thread \<Rightarrow> bool" where
  "thread_inv s \<longleftrightarrow> node_inv (et_node s) \<and> server_utf8 (et_server s) \<and> batch_ok (et_loop s) \<and>
     map_of (el_handlers (et_loop s)) (et_shutdown_fd s) = Some ShutdownWakeup \<and>
     (el_pc (et_loop s) = NotStarted \<longrightarrow> \<not> el_running (et_loop s)) \<and>
     (el_pc (et_loop s) = InWait \<and> \<not> el_running (et_loop s) \<longrightarrow> 0 < et_counter s \<or> et_notifying s)"

lemma dispatch_delivers:
  assumes "answers_ok ta" and "thread_inv s" and "waiting_clients accepts"
  shows "\<exists>s'. dispatch ta interrupts accepts ev s = Delivered s' \<and> node_inv (et_node s') \<and> et_server s' = et_server s \<and>
    et_loop s' = et_loop s \<and> et_shutdown_fd s' = et_shutdown_fd s \<and> et_notifying s' = et_notifying s"
proof (cases "map_of (el_handlers (et_loop s)) (ev_fd ev)")
  case None
  then show ?thesis using assms(2) by (simp add: dispatch_def thread_inv_def)
next
  case (Some h)
  then show ?thesis
    using handle_event_delivers [OF assms(1) _ _ assms(3), of s interrupts h] assms(2) by (auto simp: dispatch_def thread_inv_def)
qed

lemma thread_step_inv:
  assumes "thread_step ta s s'" and "thread_inv s" and "answers_ok ta"
  shows "thread_inv s'"
  using assms(1)
proof (cases rule: thread_step.cases)
  case (dispatch ev events accepts interrupts s1)
  then show ?thesis
    using dispatch_delivers [OF assms(3,2) dispatch(3), of interrupts ev] assms(2) by (auto simp: thread_inv_def batch_ok_def)
qed (use assms(2) in \<open>auto simp: thread_inv_def batch_ok_def ready_batch_def\<close>)

lemma others_step_inv: "others_step s s' \<Longrightarrow> thread_inv s \<Longrightarrow> thread_inv s'"
  by (cases rule: others_step.cases) (auto simp: thread_inv_def batch_ok_def server_utf8_def)

lemma thread_start_inv: "thread_start s \<Longrightarrow> thread_inv s"
  by (simp add: thread_start_def thread_inv_def loop_start_def batch_ok_def)

interpretation epolling: transition_system "\<lambda>s. answers_ok ta \<and> thread_start s" "epoll_step ta" "\<lambda>s. answers_ok ta \<and> thread_inv s"
  for ta
  by unfold_locales (auto simp: epoll_step_def intro: thread_start_inv thread_step_inv others_step_inv)

section \<open>After a stop\<close>

definition stopped :: "epoll_thread \<Rightarrow> bool" where
  "stopped s \<longleftrightarrow> \<not> el_running (et_loop s) \<and> el_pc (et_loop s) \<noteq> NotStarted"

definition steps_left :: "epoll_thread \<Rightarrow> nat" where
  "steps_left s = remaining (el_pc (et_loop s))"

lemma stopped_thread_step:
  assumes "thread_step ta s s'" and "stopped s" and "answers_ok ta" and "thread_inv s"
  shows "stopped s' \<and> steps_left s' < steps_left s \<and> et_notifying s' = et_notifying s"
  using assms(1)
proof (cases rule: thread_step.cases)
  case (dispatch ev events accepts interrupts s1)
  then show ?thesis
    using dispatch_delivers [OF assms(3,4) dispatch(3), of interrupts ev] assms(2) by (auto simp: stopped_def steps_left_def)
qed (use assms(2) in \<open>auto simp: stopped_def steps_left_def ready_batch_def\<close>)

lemma stopped_others_step: "others_step s s' \<Longrightarrow> stopped s \<Longrightarrow> stopped s' \<and> steps_left s' = steps_left s"
  by (cases rule: others_step.cases) (auto simp: stopped_def steps_left_def)

lemma stopped_others_steps: "others_step\<^sup>*\<^sup>* s s' \<Longrightarrow> stopped s \<Longrightarrow> thread_inv s \<Longrightarrow>
    stopped s' \<and> steps_left s' = steps_left s \<and> thread_inv s'"
  by (induction rule: rtranclp_induct) (auto dest: stopped_others_step others_step_inv)

text \<open>One step of the thread after any steps of the others.\<close>

definition own_step :: "thread_answers \<Rightarrow> epoll_thread \<Rightarrow> epoll_thread \<Rightarrow> bool" where
  "own_step ta s s' \<longleftrightarrow> (\<exists>u. others_step\<^sup>*\<^sup>* s u \<and> thread_step ta u s')"

lemma stopped_own_steps:
  "(own_step ta ^^ n) s s' \<Longrightarrow> stopped s \<Longrightarrow> answers_ok ta \<Longrightarrow> thread_inv s \<Longrightarrow>
     n + steps_left s' \<le> steps_left s \<and> stopped s' \<and> thread_inv s'"
proof (induction n arbitrary: s')
  case (Suc n)
  then obtain s1 where "(own_step ta ^^ n) s s1" "own_step ta s1 s'" by auto
  then obtain u where 1: "(own_step ta ^^ n) s s1" "others_step\<^sup>*\<^sup>* s1 u" "thread_step ta u s'"
    by (auto simp: own_step_def)
  have 2: "n + steps_left s1 \<le> steps_left s" "stopped s1" "thread_inv s1" using Suc 1(1) by blast+
  have 3: "stopped u" "steps_left u = steps_left s1" "thread_inv u" using stopped_others_steps [OF 1(2)] 2 by auto
  from stopped_thread_step [OF 1(3) 3(1) Suc.prems(3) 3(3)] thread_step_inv [OF 1(3) 3(3) Suc.prems(3)] 2 3 show ?case by simp
qed simp

text \<open>A thread that is not between the halves of a stop can always go on.\<close>

lemma waiting_none: "waiting_clients [AcceptError EAGAIN]"
  by (auto simp: waiting_clients_def intro!: exI [of _ "[]"])

lemma stopped_progress:
  assumes "stopped s" and "answers_ok ta" and "thread_inv s" and "\<not> et_notifying s" and "el_pc (et_loop s) \<noteq> Exited"
  shows "\<exists>s'. thread_step ta s s'"
proof (cases "el_pc (et_loop s)")
  case InWait
  then have "0 < et_counter s" using assms(1,3,4) by (simp add: thread_inv_def stopped_def)
  then have "ready_batch s [\<lparr>ev_fd = et_shutdown_fd s, ev_events = 1\<rparr>]" using assms(3) by (simp add: ready_batch_def thread_inv_def)
  from thread_step.wait [OF InWait disjI1 [OF this]] show ?thesis by blast
next
  case (Dispatching events)
  show ?thesis
  proof (cases events)
    case Nil
    from thread_step.batch_done [OF Dispatching [unfolded Nil]] show ?thesis by blast
  next
    case (Cons ev rest)
    from dispatch_delivers [OF assms(2,3) waiting_none, of 0 ev] obtain s' where
      "dispatch ta 0 [AcceptError EAGAIN] ev s = Delivered s'" by blast
    from thread_step.dispatch [OF Dispatching [unfolded Cons] waiting_none this] show ?thesis by blast
  qed
qed (use assms(1,5) thread_step.check [of s ta] in \<open>auto simp: stopped_def\<close>)

lemma stopped_thread_exits:
  "stopped s \<Longrightarrow> answers_ok ta \<Longrightarrow> thread_inv s \<Longrightarrow> \<not> et_notifying s \<Longrightarrow>
     \<exists>s'. (epoll_step ta)\<^sup>*\<^sup>* s s' \<and> el_pc (et_loop s') = Exited"
proof (induction "steps_left s" arbitrary: s rule: less_induct)
  case less
  show ?case
  proof (cases "el_pc (et_loop s) = Exited")
    case False
    then obtain s1 where s: "thread_step ta s s1" using stopped_progress less.prems by blast
    note n = stopped_thread_step [OF s less.prems(1-3)]
    have "thread_inv s1" by (rule thread_step_inv [OF s less.prems(3,2)])
    then obtain s' where "(epoll_step ta)\<^sup>*\<^sup>* s1 s'" "el_pc (et_loop s') = Exited"
      using less.hyps [of s1] n less.prems(2,4) by auto
    moreover have "epoll_step ta s s1" using s by (simp add: epoll_step_def)
    ultimately show ?thesis by (meson converse_rtranclp_into_rtranclp)
  qed blast
qed

lemma boot_handlers:
  assumes "daemon_boot os cfg e w = Delivered (Started d)" and "fresh_fds os" and "refuses_invalid os"
    and "fw_registry w = []" and "fw_bad_closes w = 0"
  shows "d_fd (dm_event d) \<noteq> d_fd (dm_control d)"
    and "map_of (el_handlers (dm_loop d)) (d_fd (dm_event d)) = Some ShutdownWakeup"
    and "map_of (el_handlers (dm_loop d)) (d_fd (dm_control d)) = Some ControlReady"
    and "node_inv (dm_node d)" and "loop_start (dm_loop d)"
proof -
  have "holds [] (set (fw_open w)) w" using assms(4,5) by (simp add: holds_def active_fds_def reg_inv_def hmap_wf_def)
  note ready = daemon_boot_ready [OF assms(1-3) this]
  obtain fd where "distinct (map d_fd (daemon_handles d) @ [fd])" using ready(1) unfolding daemon_fds_def holds_def by blast
  then have "distinct (map d_fd (daemon_handles d))" by simp
  then show ne: "d_fd (dm_event d) \<noteq> d_fd (dm_control d)" by (simp add: daemon_handles_def)
  show "map_of (el_handlers (dm_loop d)) (d_fd (dm_event d)) = Some ShutdownWakeup"
    "map_of (el_handlers (dm_loop d)) (d_fd (dm_control d)) = Some ControlReady"
    unfolding ready(10) using ne by simp_all
  show "node_inv (dm_node d)" "loop_start (dm_loop d)" by (rule ready(2), rule ready(3))
qed

lemma boot_thread_start:
  assumes "daemon_boot os cfg e w = Delivered (Started d)" and "fresh_fds os" and "refuses_invalid os"
    and "fw_registry w = []" and "fw_bad_closes w = 0" and "server_utf8 srv"
  shows "thread_start (thread_of d srv)"
  using boot_handlers [OF assms(1-5)] assms(6) by (simp add: thread_start_def thread_of_def)

section \<open>Properties\<close>

text \<open>
  \<^bold>\<open>C19\<close> The event-loop thread never fails: in every state the running daemon can reach, whatever the other threads have
  done to the runtime, each event of the batch is handled to its end, be it the wake-up, up to 256 datagrams
  or any number of control clients whose first 127 bytes, all that the server reads, are UTF-8 by themselves; no handler raises out of the thread, the component
  invariants hold afterwards, and the loop goes on with the next event.
\<close>

theorem epoll_thread_never_fails:
  assumes "answers_ok ta" and "thread_start s" and "(epoll_step ta)\<^sup>*\<^sup>* s t"
    and "el_pc (et_loop t) = Dispatching (ev # events)" and "waiting_clients accepts"
  shows "\<exists>t'. dispatch ta interrupts accepts ev t = Delivered t' \<and> node_inv (et_node t') \<and>
    thread_step ta t (at_pc t' (Dispatching events))"
proof -
  have "thread_inv t" using epolling.reachable_invariant [of ta, OF conjI [OF assms(1,2)] assms(3)] by simp
  from dispatch_delivers [OF assms(1) this assms(5), of interrupts ev] thread_step.dispatch [OF assms(4,5)]
  show ?thesis by blast
qed

text \<open>
  \<^bold>\<open>C18\<close> The wake-up makes the stop independent of the timeout: whether or not \<^verbatim>\<open>epoll_wait\<close> ever times out, suppose \<^verbatim>\<open>stop()\<close> clears
  the flag of a loop that has begun to run. Then, whatever the other threads do, the thread makes at most 68 more
  steps; it never blocks for ever: in every state it can reach, once the stopper has left \<^verbatim>\<open>stop()\<close>, it can make
  a step or has exited; and it can indeed reach its exit.
\<close>

theorem wakeup_without_timeout:
  assumes "answers_ok ta" and "thread_start s" and "(epoll_step ta)\<^sup>*\<^sup>* s t"
    and "\<not> el_running (et_loop t)" and "el_pc (et_loop t) \<noteq> NotStarted"
  shows "(\<forall>n u. (own_step ta ^^ n) t u \<longrightarrow> n \<le> 68 \<and> (\<not> et_notifying u \<and> el_pc (et_loop u) \<noteq> Exited \<longrightarrow> (\<exists>v. thread_step ta u v))) \<and>
    (\<exists>u. (epoll_step ta)\<^sup>*\<^sup>* t u \<and> el_pc (et_loop u) = Exited)"
proof -
  have inv: "thread_inv t" using epolling.reachable_invariant [of ta, OF conjI [OF assms(1,2)] assms(3)] by simp
  have st: "stopped t" using assms(4,5) by (simp add: stopped_def)
  have "steps_left t \<le> 68" using inv by (simp add: thread_inv_def batch_ok_def steps_left_def)
  then have own: "n \<le> 68 \<and> (\<not> et_notifying u \<and> el_pc (et_loop u) \<noteq> Exited \<longrightarrow> (\<exists>v. thread_step ta u v))"
    if "(own_step ta ^^ n) t u" for n u
    using stopped_own_steps [OF that st assms(1) inv] stopped_progress [OF _ assms(1)] by auto
  let ?t = "if et_notifying t then t\<lparr>et_notifying := False, et_counter := Suc (et_counter t)\<rparr> else t"
  have "(epoll_step ta)\<^sup>*\<^sup>* t ?t"
    using others_step.stop_notify [OF _ notify_interrupted] by (auto simp: epoll_step_def intro: r_into_rtranclp)
  moreover have "stopped ?t" "thread_inv ?t" "\<not> et_notifying ?t"
    using st inv by (auto simp: stopped_def thread_inv_def)
  from stopped_thread_exits [OF this(1) assms(1) this(2,3)] obtain u where "(epoll_step ta)\<^sup>*\<^sup>* ?t u" "el_pc (et_loop u) = Exited"
    by blast
  ultimately have "\<exists>u. (epoll_step ta)\<^sup>*\<^sup>* t u \<and> el_pc (et_loop u) = Exited" by (meson rtranclp_trans)
  with own show ?thesis by blast
qed

section \<open>Examples\<close>

definition thread_answers_demo :: thread_answers where
  "thread_answers_demo = \<lparr>ta_params = demo_params, ta_recv = (\<lambda>_. Datagram ''id=7;payload=hi'' 0x7F000001 4000), ta_strerror = (\<lambda>_. []),
     ta_timeouts = False\<rparr>"

lemma thread_answers_demo_ok: "answers_ok thread_answers_demo"
  using demo_params_ok by (simp add: answers_ok_def thread_answers_demo_def)

lemma thread_demo:
  obtains d where "thread_start (thread_of d demo_server)"
proof -
  obtain d where "daemon_boot os_demo (cv_config demo_server) env_demo world_demo = Delivered (Started d)" using boot_demo by blast
  from boot_thread_start [OF this os_demo_ok _ _ demo_server_utf8] have "thread_start (thread_of d demo_server)"
    by (simp add: world_demo_def)
  with that show thesis by blast
qed

text \<open>The thread runs into its wait; then \<^verbatim>\<open>stop()\<close> clears the flag.\<close>

definition demo_waiting :: "epoll_thread \<Rightarrow> epoll_thread" where
  "demo_waiting s = at_pc (thread_begins s) InWait"

definition demo_stopping :: "epoll_thread \<Rightarrow> epoll_thread" where
  "demo_stopping s = (demo_waiting s)\<lparr>et_loop := (et_loop (demo_waiting s))\<lparr>el_running := False\<rparr>, et_notifying := True\<rparr>"

lemma thread_demo_waits:
  assumes "thread_start s"
  shows "(epoll_step ta)\<^sup>*\<^sup>* s (demo_waiting s)" and "(epoll_step ta)\<^sup>*\<^sup>* s (demo_stopping s)"
proof -
  have "thread_step ta s (thread_begins s)" using assms by (intro thread_step.begin_run) (simp add: thread_start_def loop_start_def)
  then have 1: "epoll_step ta s (thread_begins s)" by (simp add: epoll_step_def)
  have "thread_step ta (thread_begins s) (demo_waiting s)"
    using thread_step.check [of "thread_begins s" ta] by (simp add: demo_waiting_def)
  then have 2: "epoll_step ta (thread_begins s) (demo_waiting s)" by (simp add: epoll_step_def)
  show w: "(epoll_step ta)\<^sup>*\<^sup>* s (demo_waiting s)" using 1 2 by (meson converse_rtranclp_into_rtranclp r_into_rtranclp)
  have "el_running (et_loop (demo_waiting s))" by (simp add: demo_waiting_def)
  then have "others_step (demo_waiting s) (demo_stopping s)"
    using others_step.stop_exchange [of "demo_waiting s"] by (simp add: demo_stopping_def)
  then have "epoll_step ta (demo_waiting s) (demo_stopping s)" by (simp add: epoll_step_def)
  with w show "(epoll_step ta)\<^sup>*\<^sup>* s (demo_stopping s)" by (rule rtranclp.rtrancl_into_rtrancl)
qed

theorem wakeup_without_timeout_witness:
  "\<exists>d u. (epoll_step thread_answers_demo)\<^sup>*\<^sup>* (thread_of d demo_server) u \<and> el_pc (et_loop u) = Exited"
proof -
  obtain d where s: "thread_start (thread_of d demo_server)" by (rule thread_demo)
  note r = thread_demo_waits(2) [OF s, of thread_answers_demo]
  from wakeup_without_timeout [OF thread_answers_demo_ok s r] obtain u where
    "(epoll_step thread_answers_demo)\<^sup>*\<^sup>* (demo_stopping (thread_of d demo_server)) u" "el_pc (et_loop u) = Exited"
    by (auto simp: demo_stopping_def demo_waiting_def)
  with r show ?thesis by (meson rtranclp_trans)
qed

theorem epoll_thread_never_fails_witness:
  "\<exists>d t t'. (epoll_step thread_answers_demo)\<^sup>*\<^sup>* (thread_of d demo_server) t \<and>
     dispatch thread_answers_demo 1 [Accepted 7 (Some ''1.2|status''), AcceptError 11] \<lparr>ev_fd = d_fd (dm_control d), ev_events = 1\<rparr> t = Delivered t' \<and>
     node_inv (et_node t')"
proof -
  obtain d where d: "daemon_boot os_demo (cv_config demo_server) env_demo world_demo = Delivered (Started d)" using boot_demo by blast
  from boot_thread_start [OF this os_demo_ok _ _ demo_server_utf8] have s: "thread_start (thread_of d demo_server)"
    by (simp add: world_demo_def)
  have w: "fw_registry world_demo = []" "fw_bad_closes world_demo = 0" by (simp_all add: world_demo_def)
  note fds = boot_handlers(1,3) [OF d os_demo_ok w]
  let ?w = "demo_waiting (thread_of d demo_server)"
  let ?ev = "\<lparr>ev_fd = d_fd (dm_control d), ev_events = 1\<rparr>"
  have "ready_batch ?w [?ev]" using fds by (simp add: ready_batch_def demo_waiting_def thread_of_def)
  then have "thread_step thread_answers_demo ?w (at_pc ?w (Dispatching [?ev]))" by (intro thread_step.wait) (simp_all add: demo_waiting_def)
  then have "epoll_step thread_answers_demo ?w (at_pc ?w (Dispatching [?ev]))" by (simp add: epoll_step_def)
  with thread_demo_waits(1) [OF s] have r: "(epoll_step thread_answers_demo)\<^sup>*\<^sup>* (thread_of d demo_server) (at_pc ?w (Dispatching [?ev]))"
    by (rule rtranclp.rtrancl_into_rtrancl)
  have "waiting_clients [Accepted 7 (Some ''1.2|status''), AcceptError 11]"
    by (auto simp: waiting_clients_def utf8_all_ascii intro!: exI [of _ "[(7, Some ''1.2|status'')]"])
  from epoll_thread_never_fails [OF thread_answers_demo_ok s r _ this, of ?ev "[]" 1] r show ?thesis by fastforce
qed

text \<open>Without the notification the stop would depend on other descriptors: a waiting loop has no step, whatever its flag.\<close>

lemma silent_stop_blocks:
  assumes "el_pc (et_loop s) = InWait" and "et_counter s = 0" and "\<not> ta_timeouts ta"
    and "map_of (el_handlers (et_loop s)) = [et_shutdown_fd s \<mapsto> ShutdownWakeup]"
  shows "\<not> thread_step ta s s'"
proof
  assume "thread_step ta s s'"
  then show False
  proof (cases rule: thread_step.cases)
    case (wait events)
    then have r: "ready_batch s events" using assms(3) by simp
    then obtain ev where "ev \<in> set events" by (cases events) (auto simp: ready_batch_def)
    with r assms(2,4) show False by (auto simp: ready_batch_def split: if_splits)
  qed (use assms(1) in simp_all)
qed

end
