(* ===== verification/Worker_Wakeup.thy ===== *)
theory Worker_Wakeup
  imports Packet_Processor
begin

text \<open>
  The worker threads and their condition variables: \<^verbatim>\<open>PacketProcessor\<close> (packet/PacketProcessor.cpp) and
  \<^verbatim>\<open>TelemetryExportManager\<close> (telemetry/TelemetryExportManager.cpp) use the same protocol. A producer adds to the
  queue under the mutex and notifies afterwards; the worker takes the mutex, tests the predicate of \<^verbatim>\<open>wait\<close> and, if
  it does not hold, blocks and releases the mutex in one atomic step; whoever stops the worker clears its flag and
  notifies without taking the mutex. Here every one of these is a step of its own: the flag
  may be cleared between the worker's test and its sleep. The object with the queue and the flag is the model of the
  class, its pass through the loop is \<open>processLoop_step\<close> or \<open>exportLoop_step\<close>.
\<close>

section \<open>Definitions\<close>

text \<open>Where the worker is; it holds the mutex while \<open>Testing\<close>, \<open>GoingToSleep\<close> and \<open>Passed\<close>.\<close>

datatype 'a worker_pc = Locking | Testing | GoingToSleep | Sleeping | Passed | Busy 'a | Ended

datatype stop_pc = NotStopped | FlagCleared | NotifiedAll

record ('a, 'q) worker_run =
  wr_object :: 'q
  wr_pc :: "'a worker_pc"
  wr_notifying :: nat
  wr_stop :: stop_pc

definition holds_mutex :: "'a worker_pc \<Rightarrow> bool" where
  "holds_mutex pc = (case pc of Testing \<Rightarrow> True | GoingToSleep \<Rightarrow> True | Passed \<Rightarrow> True | _ \<Rightarrow> False)"

text \<open>A step of the worker's loop; \<open>next\<close> is the pass over the object: what the predicate tests, and what is taken.\<close>

definition worker_step :: "('q \<Rightarrow> ('a, 'q) loop_step) \<Rightarrow> ('a, 'q) worker_run \<Rightarrow> ('a, 'q) worker_run option" where
  "worker_step next s =
     (case wr_pc s of
        Locking \<Rightarrow> Some (s\<lparr>wr_pc := Testing\<rparr>)
      | Testing \<Rightarrow> Some (s\<lparr>wr_pc := if next (wr_object s) = Waiting then GoingToSleep else Passed\<rparr>)
      | GoingToSleep \<Rightarrow> Some (s\<lparr>wr_pc := Sleeping\<rparr>)
      | Sleeping \<Rightarrow> None
      | Passed \<Rightarrow>
          (case next (wr_object s) of
             Waiting \<Rightarrow> None
           | Stopped \<Rightarrow> Some (s\<lparr>wr_pc := Ended\<rparr>)
           | Took a q \<Rightarrow> Some (s\<lparr>wr_object := q, wr_pc := Busy a\<rparr>))
      | Busy a \<Rightarrow> Some (s\<lparr>wr_pc := Locking\<rparr>)
      | Ended \<Rightarrow> None)"

text \<open>\<^verbatim>\<open>notify_one\<close> and \<^verbatim>\<open>notify_all\<close>, as there is one waiter: it has to take the mutex again.\<close>

definition wake :: "'a worker_pc \<Rightarrow> 'a worker_pc" where
  "wake pc = (case pc of Sleeping \<Rightarrow> Locking | _ \<Rightarrow> pc)"

definition clear_flag :: "('q \<Rightarrow> 'q) \<Rightarrow> ('a, 'q) worker_run \<Rightarrow> ('a, 'q) worker_run" where
  "clear_flag halt s = s\<lparr>wr_object := halt (wr_object s), wr_stop := FlagCleared\<rparr>"

definition wake_all :: "('a, 'q) worker_run \<Rightarrow> ('a, 'q) worker_run" where
  "wake_all s = s\<lparr>wr_pc := wake (wr_pc s), wr_stop := NotifiedAll\<rparr>"

text \<open>What producers, stopper and operating system do; \<open>push\<close> tells whether it will notify.\<close>

inductive outside_step ::
  "('x \<Rightarrow> 'q \<Rightarrow> 'q \<times> bool) \<Rightarrow> ('q \<Rightarrow> 'q) \<Rightarrow> ('a, 'q) worker_run \<Rightarrow> ('a, 'q) worker_run \<Rightarrow> bool" for push halt where
  push_element: "\<not> holds_mutex (wr_pc s) \<Longrightarrow> push x (wr_object s) = (q, notify) \<Longrightarrow>
    outside_step push halt s (s\<lparr>wr_object := q, wr_notifying := wr_notifying s + (if notify then 1 else 0)\<rparr>)"
| notify_worker: "0 < wr_notifying s \<Longrightarrow>
    outside_step push halt s (s\<lparr>wr_notifying := wr_notifying s - 1, wr_pc := wake (wr_pc s)\<rparr>)"
| clear: "wr_stop s = NotStopped \<Longrightarrow> outside_step push halt s (clear_flag halt s)"
| notify_all: "wr_stop s = FlagCleared \<Longrightarrow> outside_step push halt s (wake_all s)"
| spurious: "wr_pc s = Sleeping \<Longrightarrow> outside_step push halt s (s\<lparr>wr_pc := Locking\<rparr>)"

definition waiting_step ::
  "('q \<Rightarrow> ('a, 'q) loop_step) \<Rightarrow> ('x \<Rightarrow> 'q \<Rightarrow> 'q \<times> bool) \<Rightarrow> ('q \<Rightarrow> 'q) \<Rightarrow> ('a, 'q) worker_run \<Rightarrow> ('a, 'q) worker_run \<Rightarrow> bool" where
  "waiting_step next push halt s t \<longleftrightarrow> worker_step next s = Some t \<or> outside_step push halt s t"

definition worker_start :: "('q \<Rightarrow> bool) \<Rightarrow> ('a, 'q) worker_run \<Rightarrow> bool" where
  "worker_start halted s \<longleftrightarrow> wr_pc s = Locking \<and> wr_notifying s = 0 \<and> wr_stop s = NotStopped \<and> \<not> halted (wr_object s)"

text \<open>The worker alone, for at most \<open>n\<close> steps.\<close>

fun worker_alone :: "('q \<Rightarrow> ('a, 'q) loop_step) \<Rightarrow> nat \<Rightarrow> ('a, 'q) worker_run \<Rightarrow> ('a, 'q) worker_run" where
  "worker_alone next 0 s = s"
| "worker_alone next (Suc n) s = (case worker_step next s of None \<Rightarrow> s | Some t \<Rightarrow> worker_alone next n t)"

text \<open>Steps that help no sleeping worker: its own, and producers that add and have not notified yet.\<close>

definition unaided_step ::
  "('q \<Rightarrow> ('a, 'q) loop_step) \<Rightarrow> ('x \<Rightarrow> 'q \<Rightarrow> 'q \<times> bool) \<Rightarrow> ('a, 'q) worker_run \<Rightarrow> ('a, 'q) worker_run \<Rightarrow> bool" where
  "unaided_step next push s t \<longleftrightarrow> worker_step next s = Some t \<or>
     (\<exists>x q notify. \<not> holds_mutex (wr_pc s) \<and> push x (wr_object s) = (q, notify) \<and>
        t = s\<lparr>wr_object := q, wr_notifying := wr_notifying s + (if notify then 1 else 0)\<rparr>)"

definition dozing :: "'a worker_pc \<Rightarrow> bool" where
  "dozing pc \<longleftrightarrow> pc = GoingToSleep \<or> pc = Sleeping"

text \<open>The worker's own steps bring it to its end, with nothing left in the queue unless it had ended before.\<close>

definition drains_and_ends :: "('q \<Rightarrow> ('a, 'q) loop_step) \<Rightarrow> ('q \<Rightarrow> nat) \<Rightarrow> ('a, 'q) worker_run \<Rightarrow> bool" where
  "drains_and_ends pass load u \<longleftrightarrow>
     (let v = worker_alone pass (4 * load (wr_object u) + 4) u
      in wr_pc v = Ended \<and> (wr_pc u \<noteq> Ended \<longrightarrow> load (wr_object v) = 0))"

text \<open>
  A join, with nobody else at work: the flag of \<open>q\<close> was cleared while the worker was at \<open>pc\<close>, then it is notified.
\<close>

definition join_returns :: "('q \<Rightarrow> ('a, 'q) loop_step) \<Rightarrow> ('q \<Rightarrow> nat) \<Rightarrow> 'a worker_pc \<Rightarrow> 'q \<Rightarrow> bool" where
  "join_returns pass load pc q \<longleftrightarrow>
     wr_pc (worker_alone pass (4 * load q + 4)
       (wake_all \<lparr>wr_object = q, wr_pc = pc, wr_notifying = 0, wr_stop = FlagCleared\<rparr>)) = Ended"

text \<open>The two classes: admission under the lock, and whether a notification follows.\<close>

definition processor_push :: "Packet \<Rightarrow> PacketProcessor \<Rightarrow> PacketProcessor \<times> bool" where
  "processor_push packet p = (let (queue, refused) = admit packet (pp_queue p) in (p\<lparr>pp_queue := queue\<rparr>, refused = []))"

definition export_enqueue :: "RuntimeMetrics \<Rightarrow> 'x TelemetryExportManager \<Rightarrow> 'x TelemetryExportManager \<times> bool" where
  "export_enqueue sample m = (enqueue sample m, xm_capacity m \<noteq> 0)"

section \<open>The protocol\<close>

lemma ended_stays: "wr_pc t = Ended \<Longrightarrow> worker_alone pass n t = t"
  by (cases n) (simp_all add: worker_step_def)

lemma wake_all_simps [simp]:
  "wr_object (wake_all t) = wr_object t" "wr_stop (wake_all t) = NotifiedAll" "wr_pc (wake_all t) = wake (wr_pc t)"
  by (simp_all add: wake_all_def)

lemma dozing_wake [simp]: "dozing (wake pc) \<longleftrightarrow> pc = GoingToSleep" and "wake pc = Ended \<longleftrightarrow> pc = Ended"
  by (cases pc; simp add: dozing_def wake_def)+

lemma dozing_not_ended: "dozing pc \<Longrightarrow> pc \<noteq> Ended"
  by (auto simp: dozing_def)

lemma unaided_dozes:
  assumes "(unaided_step pass push)\<^sup>*\<^sup>* s u" and "dozing (wr_pc s)"
  shows "dozing (wr_pc u)"
  using assms
proof (induction rule: rtranclp_induct)
  case (step t u)
  then have "dozing (wr_pc t)" by simp
  then show ?case using step(2) by (auto simp: unaided_step_def worker_step_def dozing_def)
qed simp

lemma notified_stays: "waiting_step pass push halt s t \<Longrightarrow> wr_stop s = NotifiedAll \<Longrightarrow> wr_stop t = NotifiedAll"
  by (auto simp: waiting_step_def worker_step_def split: worker_pc.splits loop_step.splits elim!: outside_step.cases)

text \<open>What the protocol needs of a class: the worker waits exactly for work or the end, and adding without a notification adds nothing.\<close>

locale waiting_worker =
  fixes pass :: "'q \<Rightarrow> ('a, 'q) loop_step"
    and push :: "'x \<Rightarrow> 'q \<Rightarrow> 'q \<times> bool"
    and halt :: "'q \<Rightarrow> 'q"
    and halted :: "'q \<Rightarrow> bool"
    and load :: "'q \<Rightarrow> nat"
  assumes pass_waits: "pass q = Waiting \<longleftrightarrow> load q = 0 \<and> \<not> halted q"
    and pass_stops: "pass q = Stopped \<longleftrightarrow> load q = 0 \<and> halted q"
    and pass_takes: "pass q = Took a q' \<Longrightarrow> load q = Suc (load q') \<and> (halted q' \<longleftrightarrow> halted q)"
    and push_refuses: "push x q = (q', False) \<Longrightarrow> load q' = load q"
    and push_halted: "push x q = (q', b) \<Longrightarrow> halted q' \<longleftrightarrow> halted q"
    and halt_halts: "halted (halt q) \<and> load (halt q) = load q"
begin

definition wakeup_inv :: "('a, 'q) worker_run \<Rightarrow> bool" where
  "wakeup_inv s \<longleftrightarrow>
     (wr_pc s = GoingToSleep \<longrightarrow> load (wr_object s) = 0) \<and>
     (wr_pc s = Passed \<longrightarrow> pass (wr_object s) \<noteq> Waiting) \<and>
     (wr_pc s = Sleeping \<and> 0 < load (wr_object s) \<longrightarrow> 0 < wr_notifying s) \<and>
     (wr_pc s = Ended \<longrightarrow> halted (wr_object s)) \<and>
     (halted (wr_object s) \<longleftrightarrow> wr_stop s \<noteq> NotStopped)"

lemma worker_step_inv:
  assumes "worker_step pass s = Some t" and "wakeup_inv s"
  shows "wakeup_inv t"
proof (cases "wr_pc s")
  case Testing
  then show ?thesis using assms pass_waits [of "wr_object s"] by (auto simp: worker_step_def wakeup_inv_def)
next
  case Passed
  show ?thesis
  proof (cases "pass (wr_object s)")
    case Stopped
    then show ?thesis using assms Passed pass_stops [of "wr_object s"] by (auto simp: worker_step_def wakeup_inv_def)
  next
    case (Took a q)
    then show ?thesis using assms Passed pass_takes [OF Took] by (auto simp: worker_step_def wakeup_inv_def)
  qed (use assms Passed in \<open>simp add: worker_step_def\<close>)
qed (use assms in \<open>auto simp: worker_step_def wakeup_inv_def\<close>)

lemma outside_step_inv:
  assumes "outside_step push halt s t" and "wakeup_inv s"
  shows "wakeup_inv t"
  using assms(1)
proof (cases rule: outside_step.cases)
  case (push_element x q notify)
  have free: "wr_pc s \<noteq> GoingToSleep" "wr_pc s \<noteq> Passed" using push_element(2) by (auto simp: holds_mutex_def)
  note h = push_halted [OF push_element(3)]
  show ?thesis
  proof (cases notify)
    case True
    then show ?thesis using assms(2) free h push_element(1) by (auto simp: wakeup_inv_def)
  next
    case False
    then show ?thesis
      using assms(2) free h push_element(1) push_refuses [of x "wr_object s" q] push_element(3) by (auto simp: wakeup_inv_def)
  qed
next
  case notify_worker
  then show ?thesis using assms(2) by (cases "wr_pc s") (auto simp: wakeup_inv_def wake_def)
next
  case clear
  then show ?thesis
    using assms(2) halt_halts [of "wr_object s"] pass_waits [of "halt (wr_object s)"] by (simp add: wakeup_inv_def clear_flag_def)
next
  case notify_all
  then show ?thesis using assms(2) by (cases "wr_pc s") (auto simp: wakeup_inv_def wake_def wake_all_def)
next
  case spurious
  then show ?thesis using assms(2) by (simp add: wakeup_inv_def)
qed

end

sublocale waiting_worker \<subseteq> transition_system "worker_start halted" "waiting_step pass push halt" wakeup_inv
proof
  show "wakeup_inv s" if "worker_start halted s" for s
    using that by (simp add: worker_start_def wakeup_inv_def)
  show "wakeup_inv t" if "waiting_step pass push halt s t" "wakeup_inv s" for s t
    using that worker_step_inv outside_step_inv by (auto simp: waiting_step_def)
qed

context waiting_worker
begin

text \<open>A worker with something in its queue is not asleep, unless a notification is under way, and takes the front.\<close>

lemma takes_front:
  assumes "wakeup_inv t" and "wr_stop t = NotStopped" and "wr_notifying t = 0" and "pass (wr_object t) = Took a q"
  shows "\<exists>n \<le> 4. wr_pc (worker_alone pass n t) = Busy a \<and> wr_object (worker_alone pass n t) = q"
proof -
  have l: "0 < load (wr_object t)" using pass_takes [OF assms(4)] by simp
  have take: "\<exists>n \<le> 3. wr_pc (worker_alone pass n s) = Busy a \<and> wr_object (worker_alone pass n s) = q"
    if "wr_pc s \<in> {Locking, Testing, Passed}" "wr_object s = wr_object t" for s
  proof -
    have "wr_pc (worker_alone pass (case wr_pc s of Locking \<Rightarrow> 3 | Testing \<Rightarrow> 2 | _ \<Rightarrow> 1) s) = Busy a \<and>
        wr_object (worker_alone pass (case wr_pc s of Locking \<Rightarrow> 3 | Testing \<Rightarrow> 2 | _ \<Rightarrow> 1) s) = q"
      using that assms(4) by (auto simp: worker_step_def numeral_3_eq_3 numeral_2_eq_2)
    moreover have "(case wr_pc s of Locking \<Rightarrow> 3 | Testing \<Rightarrow> 2 | _ \<Rightarrow> 1) \<le> (3 :: nat)" by (simp split: worker_pc.split)
    ultimately show ?thesis by blast
  qed
  have take4: "\<exists>n \<le> 4. wr_pc (worker_alone pass n t) = Busy a \<and> wr_object (worker_alone pass n t) = q"
    if pc: "wr_pc t \<in> {Locking, Testing, Passed}"
  proof -
    obtain n where "n \<le> 3" "wr_pc (worker_alone pass n t) = Busy a \<and> wr_object (worker_alone pass n t) = q"
      using take [OF pc refl] by blast
    then show ?thesis by (intro exI [of _ n]) simp
  qed
  show ?thesis
  proof (cases "wr_pc t")
    case (Busy b)
    obtain n where "n \<le> 3" "wr_pc (worker_alone pass n (t\<lparr>wr_pc := Locking\<rparr>)) = Busy a \<and>
        wr_object (worker_alone pass n (t\<lparr>wr_pc := Locking\<rparr>)) = q"
      using take [of "t\<lparr>wr_pc := Locking\<rparr>"] by auto
    then show ?thesis using Busy by (intro exI [of _ "Suc n"]) (simp add: worker_step_def)
  qed (use assms(1-3) l take4 in \<open>auto simp: wakeup_inv_def\<close>)
qed

definition steps_to_end :: "('a, 'q) worker_run \<Rightarrow> nat" where
  "steps_to_end s = 4 * load (wr_object s) +
     (case wr_pc s of Ended \<Rightarrow> 0 | Passed \<Rightarrow> 1 | Testing \<Rightarrow> 2 | Locking \<Rightarrow> 3 | _ \<Rightarrow> 4)"

lemma halted_worker_ends:
  assumes "halted (wr_object s)" and "\<not> dozing (wr_pc s)" and "wr_pc s \<noteq> Ended" and "steps_to_end s \<le> n"
  shows "wr_pc (worker_alone pass n s) = Ended \<and> load (wr_object (worker_alone pass n s)) = 0"
  using assms
proof (induction n arbitrary: s)
  case (Suc n)
  show ?case
  proof (cases "wr_pc s")
    case Passed
    show ?thesis
    proof (cases "pass (wr_object s)")
      case Stopped
      then have "load (wr_object s) = 0" using pass_stops by blast
      then show ?thesis using Passed Stopped by (cases n) (simp_all add: worker_step_def)
    next
      case (Took a q)
      then show ?thesis using Passed Suc pass_takes [OF Took] by (simp add: worker_step_def steps_to_end_def dozing_def)
    qed (use pass_waits Suc.prems(1) in auto)
  qed (use Suc pass_waits in \<open>auto simp: worker_step_def steps_to_end_def dozing_def\<close>)
qed (simp add: steps_to_end_def dozing_def split: worker_pc.splits)

lemma awake_ends:
  assumes "halted (wr_object u)" and "\<not> dozing (wr_pc u)"
  shows "drains_and_ends pass load u"
proof (cases "wr_pc u = Ended")
  case False
  have "steps_to_end u \<le> 4 * load (wr_object u) + 4" by (simp add: steps_to_end_def split: worker_pc.splits)
  from halted_worker_ends [OF assms False this] show ?thesis by (simp add: drains_and_ends_def Let_def)
qed (simp add: drains_and_ends_def ended_stays)

lemma dozing_worker_stays: "dozing (wr_pc s) \<Longrightarrow> dozing (wr_pc (worker_alone pass n s))"
proof (induction n arbitrary: s)
  case (Suc n)
  show ?case
  proof (cases "wr_pc s = Sleeping")
    case False
    then have "worker_step pass s = Some (s\<lparr>wr_pc := Sleeping\<rparr>)" using Suc.prems by (auto simp: worker_step_def dozing_def)
    then show ?thesis using Suc.IH [of "s\<lparr>wr_pc := Sleeping\<rparr>"] by (simp add: dozing_def)
  qed (simp add: worker_step_def dozing_def)
qed simp

text \<open>Once the flag is cleared a worker that is awake does not lie down again.\<close>

lemma awake_stays:
  assumes "waiting_step pass push halt u v" and "halted (wr_object u)" and "\<not> dozing (wr_pc u)"
  shows "\<not> dozing (wr_pc v)"
proof -
  have "pass (wr_object u) \<noteq> Waiting" using assms(2) pass_waits by blast
  then show ?thesis
    using assms(1,3)
    by (auto simp: waiting_step_def worker_step_def dozing_def wake_all_def clear_flag_def wake_def
        split: worker_pc.splits loop_step.splits elim!: outside_step.cases)
qed

text \<open>After the notification of the stop: what the interleaved steps can reach.\<close>

lemma after_stop:
  assumes "worker_start halted s" and "(waiting_step pass push halt)\<^sup>*\<^sup>* s t" and "wr_stop t = FlagCleared"
    and "(waiting_step pass push halt)\<^sup>*\<^sup>* (wake_all t) u"
  shows "halted (wr_object u)" and "wr_pc t \<noteq> GoingToSleep \<Longrightarrow> \<not> dozing (wr_pc u)"
proof -
  have n: "waiting_step pass push halt t (wake_all t)"
    unfolding waiting_step_def using outside_step.notify_all [OF assms(3)] by blast
  have h: "halted (wr_object v)" if "(waiting_step pass push halt)\<^sup>*\<^sup>* (wake_all t) v" for v
  proof -
    have "(waiting_step pass push halt)\<^sup>*\<^sup>* s v" using assms(2) n that by (meson rtranclp.rtrancl_into_rtrancl rtranclp_trans)
    then have "wakeup_inv v" by (rule reachable_invariant [OF assms(1)])
    moreover have "wr_stop v = NotifiedAll"
      using that by (induction rule: rtranclp_induct) (auto intro: notified_stays)
    ultimately show ?thesis by (simp add: wakeup_inv_def)
  qed
  show "halted (wr_object u)" by (rule h [OF assms(4)])
  show "\<not> dozing (wr_pc u)" if "wr_pc t \<noteq> GoingToSleep"
    using assms(4)
  proof (induction rule: rtranclp_induct)
    case (step u v)
    then show ?case using awake_stays h by blast
  qed (simp add: that)
qed

text \<open>
  The join of a stopped worker is sure to return exactly if the worker was not on its way to sleep at the notification;
  if it was, its queue is empty and only a spurious wake-up or a producer's notification ends it.
\<close>

lemma join_iff:
  assumes "worker_start halted s" and "(waiting_step pass push halt)\<^sup>*\<^sup>* s t" and "wr_stop t = FlagCleared"
  shows "(\<forall>u. (waiting_step pass push halt)\<^sup>*\<^sup>* (wake_all t) u \<longrightarrow> drains_and_ends pass load u) \<longleftrightarrow> wr_pc t \<noteq> GoingToSleep"
    and "wr_pc t = GoingToSleep \<Longrightarrow> load (wr_object t) = 0 \<and>
      (\<forall>u. (unaided_step pass push)\<^sup>*\<^sup>* (wake_all t) u \<longrightarrow> wr_pc u \<noteq> Ended) \<and>
      (\<forall>u. (waiting_step pass push halt)\<^sup>*\<^sup>* (wake_all t) u \<and> \<not> dozing (wr_pc u) \<longrightarrow> drains_and_ends pass load u)"
proof -
  note reach = after_stop [OF assms]
  have asleep: "\<not> drains_and_ends pass load (wake_all t)" if "wr_pc t = GoingToSleep"
  proof -
    have "dozing (wr_pc (worker_alone pass (4 * load (wr_object (wake_all t)) + 4) (wake_all t)))"
      by (rule dozing_worker_stays) (simp add: that)
    from dozing_not_ended [OF this] show ?thesis by (simp add: drains_and_ends_def Let_def)
  qed
  show "(\<forall>u. (waiting_step pass push halt)\<^sup>*\<^sup>* (wake_all t) u \<longrightarrow> drains_and_ends pass load u) \<longleftrightarrow> wr_pc t \<noteq> GoingToSleep"
    using reach awake_ends asleep by blast
  have inv: "wakeup_inv t" by (rule reachable_invariant [OF assms(1,2)])
  show "load (wr_object t) = 0 \<and> (\<forall>u. (unaided_step pass push)\<^sup>*\<^sup>* (wake_all t) u \<longrightarrow> wr_pc u \<noteq> Ended) \<and>
      (\<forall>u. (waiting_step pass push halt)\<^sup>*\<^sup>* (wake_all t) u \<and> \<not> dozing (wr_pc u) \<longrightarrow> drains_and_ends pass load u)"
    if "wr_pc t = GoingToSleep"
  proof (intro conjI allI impI)
    show "load (wr_object t) = 0" using inv that by (simp add: wakeup_inv_def)
    show "wr_pc u \<noteq> Ended" if "(unaided_step pass push)\<^sup>*\<^sup>* (wake_all t) u" for u
      using unaided_dozes [OF that] \<open>wr_pc t = GoingToSleep\<close> by (intro dozing_not_ended) simp
    show "drains_and_ends pass load u" if "(waiting_step pass push halt)\<^sup>*\<^sup>* (wake_all t) u \<and> \<not> dozing (wr_pc u)" for u
      using that reach(1) awake_ends by blast
  qed
qed

lemma join_returns_iff: "halted q \<Longrightarrow> join_returns pass load pc q \<longleftrightarrow> pc \<noteq> GoingToSleep"
proof -
  let ?s = "wake_all \<lparr>wr_object = q, wr_pc = pc, wr_notifying = 0, wr_stop = FlagCleared\<rparr>"
  assume "halted q"
  then have "pc \<noteq> GoingToSleep \<Longrightarrow> drains_and_ends pass load ?s" by (intro awake_ends) simp_all
  moreover have "pc = GoingToSleep \<Longrightarrow> dozing (wr_pc (worker_alone pass (4 * load q + 4) ?s))"
    by (intro dozing_worker_stays) simp
  ultimately show ?thesis by (auto simp: join_returns_def drains_and_ends_def Let_def dozing_def)
qed

end

section \<open>The two classes\<close>

interpretation packet_worker: waiting_worker processLoop_step processor_push processor_stop
    "\<lambda>p. \<not> pp_running p" "\<lambda>p. length (pp_queue p)"
  by unfold_locales
    (auto simp: processLoop_step_def processor_push_def processor_stop_def admit_def split: list.splits if_splits)

interpretation export_worker: waiting_worker exportLoop_step export_enqueue "\<lambda>m. snd (export_stop m)"
    "\<lambda>m. \<not> xm_running m" "\<lambda>m. length (xm_queue m)"
  by unfold_locales
    (auto simp: exportLoop_step_def export_enqueue_def export_stop_def enqueue_def Let_def split: list.splits if_splits)

text \<open>The callback on received packets adds to the queue what \<open>processor_push\<close> adds, if no fault intervenes.\<close>

lemma rx_pushes:
  assumes "get_if_packet (m_payload msg) = Some packet" and "\<not> fr_is_terminal (fst (inject packet (pp_injector p)))"
  shows "\<exists>e' ms. processor_onPacketRx msg (p, e) =
      ((fst (processor_push packet (p\<lparr>pp_injector := snd (inject packet (pp_injector p))\<rparr>)), e'), ms) \<and>
    (snd (processor_push packet p) \<longleftrightarrow> ms = [])"
  using assms by (auto simp: processor_onPacketRx_def processor_push_def Let_def split_beta)

section \<open>Properties\<close>

text \<open>
  \<^bold>\<open>C10\<close> No packet waits while the worker of the packet processor sleeps: in every state the threads can reach
  before the processor is stopped, whatever the interleaving of producers, notifications, spurious wake-ups
  and the worker's own steps, once the producers are not between adding and notifying, a worker with a packet in
  its queue takes the front packet within four steps of its own; it never asks an empty queue for its front.
\<close>

theorem packets_wake_worker:
  assumes "worker_start (\<lambda>p. \<not> pp_running p) s"
    and "(waiting_step processLoop_step processor_push processor_stop)\<^sup>*\<^sup>* s t" and "wr_stop t = NotStopped"
  shows "(wr_notifying t = 0 \<and> pp_queue (wr_object t) \<noteq> [] \<longrightarrow>
      (\<exists>n \<le> 4. wr_pc (worker_alone processLoop_step n t) = Busy (hd (pp_queue (wr_object t))) \<and>
        pp_queue (wr_object (worker_alone processLoop_step n t)) = tl (pp_queue (wr_object t)))) \<and>
    (wr_pc t = Passed \<longrightarrow> pp_queue (wr_object t) \<noteq> [])"
proof -
  have inv: "packet_worker.wakeup_inv t" by (rule packet_worker.reachable_invariant [OF assms(1,2)])
  have "\<exists>n \<le> 4. wr_pc (worker_alone processLoop_step n t) = Busy (hd (pp_queue (wr_object t))) \<and>
        pp_queue (wr_object (worker_alone processLoop_step n t)) = tl (pp_queue (wr_object t))"
    if "wr_notifying t = 0" "pp_queue (wr_object t) \<noteq> []"
  proof -
    have "processLoop_step (wr_object t) = Took (hd (pp_queue (wr_object t))) ((wr_object t)\<lparr>pp_queue := tl (pp_queue (wr_object t))\<rparr>)"
      using that(2) by (simp add: processLoop_step_def split: list.split)
    from packet_worker.takes_front [OF inv assms(3) that(1) this] show ?thesis by auto
  qed
  moreover have "wr_pc t = Passed \<Longrightarrow> pp_queue (wr_object t) \<noteq> []"
    using inv assms(3) packet_worker.pass_waits [of "wr_object t"] by (auto simp: packet_worker.wakeup_inv_def)
  ultimately show ?thesis by blast
qed

text \<open>
  \<^bold>\<open>C11\<close> Joining the worker of the packet processor. When the destructor has cleared the flag and is about to
  notify, the following are equivalent: after the notification, in every state that any interleaving of the worker with
  producers, their notifications and spurious wake-ups can reach, the worker ends by at most \<open>4 n + 4\<close> steps of its own, \<open>n\<close> being
  the number of packets queued, and leaves none of them (or it has ended before); and: the worker is not between the
  test of its predicate and its sleep. If it is there, the queue is empty and the notification is lost: whatever
  the worker and producers that have not notified do, it does not end, and only a spurious wake-up or the notification of a producer
  makes it end after all.
\<close>

theorem processor_join_iff:
  assumes "worker_start (\<lambda>p. \<not> pp_running p) s"
    and "(waiting_step processLoop_step processor_push processor_stop)\<^sup>*\<^sup>* s t" and "wr_stop t = FlagCleared"
  shows "((\<forall>u. (waiting_step processLoop_step processor_push processor_stop)\<^sup>*\<^sup>* (wake_all t) u \<longrightarrow>
        drains_and_ends processLoop_step (\<lambda>p. length (pp_queue p)) u) \<longleftrightarrow> wr_pc t \<noteq> GoingToSleep) \<and>
    (wr_pc t = GoingToSleep \<longrightarrow> pp_queue (wr_object t) = [] \<and>
      (\<forall>u. (unaided_step processLoop_step processor_push)\<^sup>*\<^sup>* (wake_all t) u \<longrightarrow> wr_pc u \<noteq> Ended) \<and>
      (\<forall>u. (waiting_step processLoop_step processor_push processor_stop)\<^sup>*\<^sup>* (wake_all t) u \<and> \<not> dozing (wr_pc u) \<longrightarrow>
        drains_and_ends processLoop_step (\<lambda>p. length (pp_queue p)) u))"
  using packet_worker.join_iff(1) [OF assms] packet_worker.join_iff(2) [OF assms] by simp

text \<open>
  \<^bold>\<open>C36\<close> Joining the export thread: after the notification of \<^verbatim>\<open>stop()\<close> of the telemetry export manager, the export thread ends by its
  own steps, exporting all queued samples, from every state that any interleaving with producers, notifications and
  spurious wake-ups can reach, if and only if it was not between the test of its predicate and its sleep when \<^verbatim>\<open>stop()\<close>
  notified. If it was, the queue is empty, and only a spurious wake-up or the notification of a producer makes it end
  after all.
\<close>

theorem exporter_join_iff:
  assumes "worker_start (\<lambda>m. \<not> xm_running m) s"
    and "(waiting_step exportLoop_step export_enqueue (\<lambda>m. snd (export_stop m)))\<^sup>*\<^sup>* s t" and "wr_stop t = FlagCleared"
  shows "((\<forall>u. (waiting_step exportLoop_step export_enqueue (\<lambda>m. snd (export_stop m)))\<^sup>*\<^sup>* (wake_all t) u \<longrightarrow>
        drains_and_ends exportLoop_step (\<lambda>m. length (xm_queue m)) u) \<longleftrightarrow> wr_pc t \<noteq> GoingToSleep) \<and>
    (wr_pc t = GoingToSleep \<longrightarrow> xm_queue (wr_object t) = [] \<and>
      (\<forall>u. (unaided_step exportLoop_step export_enqueue)\<^sup>*\<^sup>* (wake_all t) u \<longrightarrow> wr_pc u \<noteq> Ended) \<and>
      (\<forall>u. (waiting_step exportLoop_step export_enqueue (\<lambda>m. snd (export_stop m)))\<^sup>*\<^sup>* (wake_all t) u \<and> \<not> dozing (wr_pc u) \<longrightarrow>
        drains_and_ends exportLoop_step (\<lambda>m. length (xm_queue m)) u))"
  using export_worker.join_iff(1) [OF assms] export_worker.join_iff(2) [OF assms] by simp

section \<open>Examples\<close>

text \<open>The worker of an object without work tests its predicate, then the flag is cleared.\<close>

definition worker_fresh :: "'q \<Rightarrow> ('a, 'q) worker_run" where
  "worker_fresh q = \<lparr>wr_object = q, wr_pc = Locking, wr_notifying = 0, wr_stop = NotStopped\<rparr>"

lemma worker_dozes:
  assumes "pass q = Waiting"
  shows "(waiting_step pass push halt)\<^sup>*\<^sup>* (worker_fresh q)
    \<lparr>wr_object = halt q, wr_pc = GoingToSleep, wr_notifying = 0, wr_stop = FlagCleared\<rparr>"
proof -
  let ?s = "\<lambda>pc. \<lparr>wr_object = q, wr_pc = pc, wr_notifying = 0, wr_stop = NotStopped\<rparr>"
  have "waiting_step pass push halt (worker_fresh q) (?s Testing)"
    by (simp add: waiting_step_def worker_step_def worker_fresh_def)
  moreover have "waiting_step pass push halt (?s Testing) (?s GoingToSleep)"
    using assms by (simp add: waiting_step_def worker_step_def)
  moreover have "waiting_step pass push halt (?s GoingToSleep) (clear_flag halt (?s GoingToSleep))"
    unfolding waiting_step_def by (intro disjI2 outside_step.clear) simp
  then have "waiting_step pass push halt (?s GoingToSleep)
      \<lparr>wr_object = halt q, wr_pc = GoingToSleep, wr_notifying = 0, wr_stop = FlagCleared\<rparr>"
    by (simp add: clear_flag_def)
  ultimately show ?thesis by (meson converse_rtranclp_into_rtranclp rtranclp.rtrancl_refl)
qed

definition processor_idle :: PacketProcessor where
  "processor_idle = PacketProcessor_new None None (FailureInjector_new FailureConfig_default)"

theorem packets_wake_worker_witness:
  "\<exists>n \<le> 4. wr_pc (worker_alone processLoop_step n
     \<lparr>wr_object = processor_idle\<lparr>pp_queue := [Packet_default]\<rparr>, wr_pc = Locking, wr_notifying = 0, wr_stop = NotStopped\<rparr>) = Busy Packet_default"
proof -
  let ?s = "worker_fresh (processor_idle\<lparr>pp_queue := [Packet_default]\<rparr>)"
  have "worker_start (\<lambda>p. \<not> pp_running p) ?s"
    by (simp add: worker_start_def worker_fresh_def processor_idle_def PacketProcessor_new_def)
  from packets_wake_worker [OF this rtranclp.rtrancl_refl] show ?thesis by (auto simp: worker_fresh_def)
qed

text \<open>The notification of the destructor, and that of \<^verbatim>\<open>stop()\<close>, can be lost: these states are reached.\<close>

theorem processor_join_iff_witness:
  "\<exists>t. (waiting_step processLoop_step processor_push processor_stop)\<^sup>*\<^sup>* (worker_fresh processor_idle) t \<and>
     wr_stop t = FlagCleared \<and> (\<forall>u. (unaided_step processLoop_step processor_push)\<^sup>*\<^sup>* (wake_all t) u \<longrightarrow> wr_pc u \<noteq> Ended)"
proof -
  let ?t = "\<lparr>wr_object = processor_stop processor_idle, wr_pc = GoingToSleep, wr_notifying = 0, wr_stop = FlagCleared\<rparr>"
  have r: "(waiting_step processLoop_step processor_push processor_stop)\<^sup>*\<^sup>* (worker_fresh processor_idle) ?t"
    by (rule worker_dozes) (simp add: processLoop_step_def processor_idle_def PacketProcessor_new_def)
  have "worker_start (\<lambda>p. \<not> pp_running p) (worker_fresh processor_idle)"
    by (simp add: worker_start_def worker_fresh_def processor_idle_def PacketProcessor_new_def)
  from processor_join_iff [OF this r] r show ?thesis by (intro exI [of _ ?t]) simp
qed

definition exporter_idle :: "TelemetryExporter TelemetryExportManager" where
  "exporter_idle = snd (export_start (TelemetryExportManager_new 512))"

theorem exporter_join_iff_witness:
  "\<exists>t. (waiting_step exportLoop_step export_enqueue (\<lambda>m. snd (export_stop m)))\<^sup>*\<^sup>* (worker_fresh exporter_idle) t \<and>
     wr_stop t = FlagCleared \<and> (\<forall>u. (unaided_step exportLoop_step export_enqueue)\<^sup>*\<^sup>* (wake_all t) u \<longrightarrow> wr_pc u \<noteq> Ended)"
proof -
  let ?t = "\<lparr>wr_object = snd (export_stop exporter_idle), wr_pc = GoingToSleep, wr_notifying = 0, wr_stop = FlagCleared\<rparr>"
  have r: "(waiting_step exportLoop_step export_enqueue (\<lambda>m. snd (export_stop m)))\<^sup>*\<^sup>* (worker_fresh exporter_idle) ?t"
    by (rule worker_dozes) (simp add: exportLoop_step_def exporter_idle_def export_start_def TelemetryExportManager_new_def)
  have "worker_start (\<lambda>m. \<not> xm_running m) (worker_fresh exporter_idle)"
    by (simp add: worker_start_def worker_fresh_def exporter_idle_def export_start_def TelemetryExportManager_new_def)
  from exporter_join_iff [OF this r] r show ?thesis by (intro exI [of _ ?t]) simp
qed

end
