(* ===== verification/Daemon_Main.thy ===== *)
theory Daemon_Main
  imports Daemon_Boot Worker_Wakeup
begin

text \<open>
  The life of the daemon (daemon/main.cpp): the main loop with its signals, ticks and snapshots, the shutdown
  sequence, the destructors of the components and the leak report, and \<open>main\<close> itself with the command-line
  client. The other threads appear as the function \<open>ra_others\<close>, which may change the runtime between any two
  actions of the main thread, within what \<open>keeps\<close> allows; \<open>ra_progress\<close> is how far the event-loop thread
  got when the shutdown begins; \<open>ra_export_pc\<close> and \<open>ra_worker_pc\<close> say where the export thread and the worker of
  the packet processor are when they are told to end, and whether their join returns is computed by the model
  of these threads (\<open>join_returns\<close> in \<open>Worker_Wakeup\<close>; no other thread is there to notify them, and spurious wake-ups are not
  counted on). The main loop has fuel; \<open>Unended\<close> is a process that has not ended.
\<close>

section \<open>Definitions\<close>

record run_answers =
  ra_signal :: "nat \<Rightarrow> int"
  ra_others :: "nat \<Rightarrow> node \<Rightarrow> node"
  ra_progress :: "ready_handler EpollEventLoop \<Rightarrow> ready_handler EpollEventLoop"
  ra_notify :: "(int \<times> int) list"
  ra_waits :: "nat \<Rightarrow> EpollEvent list"
  ra_fd_order :: "(int \<times> FdRecord) list \<Rightarrow> (int \<times> FdRecord) list"
  ra_export_pc :: "RuntimeMetrics worker_pc"
  ra_worker_pc :: "Packet worker_pc"

definition SIGINT :: int where "SIGINT = 2"

definition SIGTERM :: int where "SIGTERM = 15"

subsection \<open>The event-loop thread until it ends\<close>

text \<open>\<open>run()\<close> step by step; \<open>waits\<close> are the answers of \<open>wait\<close>.\<close>

fun run_to_end :: "(nat \<Rightarrow> EpollEvent list) \<Rightarrow> nat \<Rightarrow> 'h EpollEventLoop \<Rightarrow> 'h EpollEventLoop option" where
  "run_to_end waits 0 l = None"
| "run_to_end waits (Suc n) l =
     (case el_pc l of
        Exited \<Rightarrow> Some l
      | NotStarted \<Rightarrow> run_to_end waits n (l\<lparr>el_running := True, el_pc := Checking\<rparr>)
      | Checking \<Rightarrow> run_to_end waits n (l\<lparr>el_pc := if el_running l then InWait else Exited\<rparr>)
      | InWait \<Rightarrow> run_to_end waits n (l\<lparr>el_pc := Dispatching (waits n)\<rparr>)
      | Dispatching [] \<Rightarrow> run_to_end waits n (l\<lparr>el_pc := Checking\<rparr>)
      | Dispatching (ev # evs) \<Rightarrow>
          run_to_end waits n (l\<lparr>el_pc := Dispatching evs, el_called := el_called l @ dispatch_events (el_handlers l) [ev]\<rparr>))"

subsection \<open>The main loop\<close>

definition system_message :: "MessageType \<Rightarrow> u64 \<Rightarrow> Message" where
  "system_message t now = \<lparr>m_type = t, m_timestamp_ms = now, m_payload = Monostate\<rparr>"

definition publish_system :: "MessageType \<Rightarrow> daemon \<Rightarrow> daemon delivery" where
  "publish_system t d =
     (let (now, e) = nowMs (n_env (dm_node d)) in
      and_then (daemon_publish (system_message t now) (with_env (dm_node d) e)) (\<lambda>w. Delivered (d\<lparr>dm_node := w\<rparr>)))"

definition daemon_start :: "daemon \<Rightarrow> daemon delivery" where
  "daemon_start d = and_then (publish_system SystemStart d) (\<lambda>d. Delivered (d\<lparr>dm_state := Running\<rparr>))"

definition tick_telemetry :: "daemon \<Rightarrow> daemon delivery" where
  "tick_telemetry d =
     (let (t, m, e) = telemetry_onTick (dm_telemetry d) (n_env (dm_node d)) in
      and_then (daemon_publish m (with_env (dm_node d) e)) (\<lambda>w. Delivered (d\<lparr>dm_telemetry := t, dm_node := w\<rparr>)))"

fun publish_messages :: "Message list \<Rightarrow> node \<Rightarrow> node delivery" where
  "publish_messages [] w = Delivered w"
| "publish_messages (m # ms) w = and_then (daemon_publish m w) (publish_messages ms)"

definition tick_health :: "daemon \<Rightarrow> daemon delivery" where
  "tick_health d =
     (let (h, ms, e) = health_onTick (n_health (dm_node d)) (n_env (dm_node d)) in
      and_then (publish_messages ms ((dm_node d)\<lparr>n_health := h, n_env := e\<rparr>)) (\<lambda>w. Delivered (d\<lparr>dm_node := w\<rparr>)))"

definition meanwhile :: "run_answers \<Rightarrow> nat \<Rightarrow> daemon \<Rightarrow> daemon" where
  "meanwhile ra i d = d\<lparr>dm_node := ra_others ra i (dm_node d)\<rparr>"

definition daemon_tick :: "os_answers \<Rightarrow> run_answers \<Rightarrow> Config \<Rightarrow> nat \<Rightarrow> daemon \<Rightarrow> daemon delivery" where
  "daemon_tick os ra cfg i d =
     and_then (tick_telemetry (meanwhile ra (3 * i) d)) (\<lambda>d.
     and_then (tick_health (meanwhile ra (3 * i + 1) d)) (\<lambda>d.
     let d = publish_status (os_drop_order os) (meanwhile ra (3 * i + 2) d)
     in Delivered (daemon_env d (sleep_ms (uint (dc_tick_ms (cfg_daemon cfg)))))))"

text \<open>The two tests of an iteration read \<^verbatim>\<open>g_receivedSignal\<close> one after the other.\<close>

fun main_loop ::
  "os_answers \<Rightarrow> run_answers \<Rightarrow> Config \<Rightarrow> nat \<Rightarrow> nat \<Rightarrow> ShutdownRequest \<Rightarrow> daemon \<Rightarrow> (nat \<times> ShutdownRequest \<times> daemon) delivery" where
  "main_loop os ra cfg 0 i sr d = Unfinished"
| "main_loop os ra cfg (Suc fuel) i sr d =
     (if isRequested sr then Delivered (i, sr, d)
      else if ra_signal ra (2 * i) = SIGINT then Delivered (i, request SignalInterrupt sr, d)
      else if ra_signal ra (2 * i + 1) = SIGTERM then Delivered (i, request SignalTerminate sr, d)
      else and_then (daemon_tick os ra cfg i d) (main_loop os ra cfg fuel (Suc i) sr))"

subsection \<open>Shutdown\<close>

definition destroyControlSocket :: "daemon \<Rightarrow> daemon" where
  "destroyControlSocket d =
     (let d = daemon_env d (log_debug (''[CONTROL] Closing control socket fd='' @ int_to_string (d_fd (dm_control d))));
          (control_fd, w) = fd_reset (-1) UnknownFd (dm_control d) (dm_fds d);
          d = d\<lparr>dm_control := control_fd, dm_fds := w\<rparr>;
          d = daemon_env d (log_debug ''[CONTROL] Control socket close completed'')
      in daemon_env d (log_info ''Control socket closed''))"

definition stop_event_loop :: "run_answers \<Rightarrow> daemon \<Rightarrow> daemon delivery" where
  "stop_event_loop ra d =
     (let d = daemon_env d (log_info ''[SHUTDOWN] Stopping epoll event loop'');
          l = ra_progress ra (dm_loop d) in
      case (if el_running l then notify (ra_notify ra) else Some (Inr ())) of
        None \<Rightarrow> Unfinished
      | Some (Inl ex) \<Rightarrow> Raised ex
      | Some (Inr _) \<Rightarrow>
          let d = daemon_env d (log_info ''[SHUTDOWN] Epoll event loop stop requested'');
              d = daemon_env d (log_info ''[SHUTDOWN] Waiting for epoll thread'') in
          (case run_to_end (ra_waits ra) 69 (loop_stop l) of
             None \<Rightarrow> Unfinished
           | Some l \<Rightarrow> Delivered (daemon_env (d\<lparr>dm_loop := l\<rparr>) (log_info ''[SHUTDOWN] Epoll thread stopped''))))"

definition stop_receiver :: "daemon \<Rightarrow> daemon" where
  "stop_receiver d =
     (case dm_udp d of
        None \<Rightarrow> d
      | Some r \<Rightarrow>
          let d = daemon_env d (log_info ''[SHUTDOWN] Stopping UDP receiver'');
              (r, w, e) = udp_stop r (dm_fds d) (n_env (dm_node d));
              d = d\<lparr>dm_udp := Some r, dm_fds := w, dm_node := with_env (dm_node d) e\<rparr>
          in daemon_env d (log_info ''[SHUTDOWN] UDP receiver stopped''))"

text \<open>\<open>exportManager.stop()\<close> joins the export thread, which first empties the queue if the notification reaches it.\<close>

definition stop_exports :: "run_answers \<Rightarrow> daemon \<Rightarrow> daemon delivery" where
  "stop_exports ra d =
     (let d = daemon_env d (log_info ''[SHUTDOWN] Stopping telemetry export manager'');
          x = n_export (dm_node d);
          (joined, m) = export_stop x in
      if \<not> joined then Delivered (daemon_env d (log_info ''[SHUTDOWN] Telemetry export manager stopped''))
      else if \<not> join_returns exportLoop_step (\<lambda>m. length (xm_queue m)) (ra_export_pc ra) m then Unfinished
      else case drain_loop exporter_exportSample (Suc (length (xm_queue x))) m (n_env (dm_node d)) of
        None \<Rightarrow> Unfinished
      | Some (m, e) \<Rightarrow>
          Delivered (daemon_env (d\<lparr>dm_node := (dm_node d)\<lparr>n_export := export_join m, n_env := e\<rparr>\<rparr>)
            (log_info ''[SHUTDOWN] Telemetry export manager stopped'')))"

definition final_line :: "RuntimeStatus \<Rightarrow> string" where
  "final_line status = ''RuntimeStatus: state='' @ stateToString (rst_state status) @
     '' uptime_ms='' @ to_string (rm_uptime_ms (rst_metrics status)) @
     '' tick_count='' @ to_string (rm_tick_count (rst_metrics status))"

definition final_status :: "os_answers \<Rightarrow> ShutdownRequest \<Rightarrow> daemon \<Rightarrow> daemon" where
  "final_status os sr d =
     (let d = d\<lparr>dm_state := Stopping\<rparr>;
          d = daemon_env d (log_warn ''Stop requested. Shutting down...'');
          d = daemon_env d (log_info (''[SHUTDOWN] Reason: '' @ reason_toString (sr_reason sr)));
          w = dm_node d;
          (now, e) = nowMs (n_env w);
          (status, b, e) = build (os_drop_order os) (dm_telemetry d) (n_health w) (n_stats w) (dm_state d) now (dm_builder d) e
      in d\<lparr>dm_builder := b, dm_node := with_env w (log_info (final_line status) e)\<rparr>)"

definition daemon_shutdown :: "os_answers \<Rightarrow> run_answers \<Rightarrow> nat \<times> ShutdownRequest \<times> daemon \<Rightarrow> daemon delivery" where
  "daemon_shutdown os ra = (\<lambda>(i, sr, d).
     and_then (stop_event_loop ra (meanwhile ra (3 * i) d)) (\<lambda>d.
     and_then (stop_exports ra (stop_receiver (destroyControlSocket d))) (\<lambda>d.
     publish_system SystemShutdown (final_status os sr d))))"

subsection \<open>The end of the process\<close>

text \<open>The destructors, in the reverse order of the declarations, as far as they own descriptors.\<close>

definition daemon_destroy :: "daemon \<Rightarrow> env \<times> fd_world" where
  "daemon_destroy d =
     (let w = dm_fds d; e = n_env (dm_node d);
          (w, e) = (case dm_udp d of
                      None \<Rightarrow> (w, e)
                    | Some r \<Rightarrow> let (r, w, e) = udp_stop r w e in (snd (fd_destroy (ur_socket r) w), e));
          w = snd (fd_destroy (dm_control d) w);
          w = snd (fd_destroy (dm_event d) w);
          w = snd (fd_destroy (dm_epoll d) w)
      in (e, fold (\<lambda>(port, b). backend_destroy b) (node_backends (dm_node d)) w))"

datatype process_end = Exits int env fd_world | Terminates "exn option" | Unended

text \<open>
  Leaving the scope of the components: the destructor of an export manager whose \<^verbatim>\<open>std::thread\<close> is joinable calls
  \<^verbatim>\<open>std::terminate\<close>; that of the packet processor, which comes later, joins its worker.
\<close>

definition leave_scope :: "run_answers \<Rightarrow> daemon \<Rightarrow> process_end + env \<times> fd_world" where
  "leave_scope ra d =
     (if xm_thread_joinable (n_export (dm_node d)) then Inl (Terminates None)
      else if \<not> join_returns processLoop_step (\<lambda>p. length (pp_queue p)) (ra_worker_pc ra) (processor_stop (n_processor (dm_node d)))
      then Inl Unended
      else Inr (daemon_destroy d))"

definition daemon_end :: "run_answers \<Rightarrow> daemon \<Rightarrow> process_end" where
  "daemon_end ra d =
     (case leave_scope ra d of
        Inl r \<Rightarrow> r
      | Inr (e, w) \<Rightarrow>
          let (leak_detected, e) = report_leaks (ra_fd_order ra) (fw_registry w) e;
              e = log_info ''EdgeNetSwitch daemon stopped.'' e
          in Exits 0 (log_shutdown e) w)"

text \<open>\<open>return EXIT_FAILURE\<close> in the middle of the start.\<close>

definition give_up :: "run_answers \<Rightarrow> daemon \<Rightarrow> process_end" where
  "give_up ra d = (case leave_scope ra d of Inl r \<Rightarrow> r | Inr (e, w) \<Rightarrow> Exits 1 e w)"

text \<open>An exception that reaches the end of \<open>main\<close> terminates the process.\<close>

definition run_daemon :: "os_answers \<Rightarrow> run_answers \<Rightarrow> Config \<Rightarrow> nat \<Rightarrow> env \<Rightarrow> fd_world \<Rightarrow> process_end" where
  "run_daemon os ra cfg fuel e w =
     (case daemon_boot os cfg e w of
        Raised ex \<Rightarrow> Terminates (Some ex)
      | Unfinished \<Rightarrow> Unended
      | Delivered (GivenUp d) \<Rightarrow> give_up ra d
      | Delivered (Started d) \<Rightarrow>
          (case and_then (daemon_start d) (\<lambda>d.
                  and_then (main_loop os ra cfg fuel 0 ShutdownRequest_new d) (daemon_shutdown os ra)) of
             Raised ex \<Rightarrow> Terminates (Some ex)
           | Unfinished \<Rightarrow> Unended
           | Delivered d \<Rightarrow> daemon_end ra d))"

definition cli_command :: "string \<Rightarrow> string list \<Rightarrow> string" where
  "cli_command command rest =
     (if command = ''help'' \<and> rest \<noteq> [] then command @ '':'' @ hd rest else command)"

text \<open>\<open>main\<close>: \<open>args\<close> are the arguments after the program's name.\<close>

definition edgenetswitch_main ::
  "'j json_api \<Rightarrow> cli_answers \<Rightarrow> os_answers \<Rightarrow> run_answers \<Rightarrow> string + string list \<Rightarrow> (string \<rightharpoonup> string) \<Rightarrow> nat \<Rightarrow>
     string list \<Rightarrow> env \<Rightarrow> fd_world \<Rightarrow> process_end" where
  "edgenetswitch_main api cli os ra cwd files fuel args e w =
     (case args of
        command # rest \<Rightarrow>
          (case executeControlCommand api cli (cli_command command rest) (log_init Info False e) of
             None \<Rightarrow> Unended
           | Some (ok, _, _, e) \<Rightarrow> Exits (if ok then 0 else 1) (log_shutdown e) w)
      | [] \<Rightarrow>
          let (loaded, e) = loadFromFile api cwd files ''config/edgenetswitch.json'' e in
          case loaded of
            Inl ex \<Rightarrow> Terminates (Some ex)
          | Inr cfg \<Rightarrow>
              let e = log_init (parseLevel (lc_level (cfg_log cfg))) (os_file_open os (lc_file (cfg_log cfg))) e;
                  e = log_info ''EdgeNetSwitch daemon starting...'' e
              in run_daemon os ra cfg fuel e w)"

section \<open>What the threads leave alone\<close>

text \<open>The steps of the other threads keep the invariants and leave the backends and the export flag alone.\<close>

definition keeps :: "node \<Rightarrow> node \<Rightarrow> bool" where
  "keeps w w' \<longleftrightarrow> (node_inv w \<longrightarrow> node_inv w') \<and> node_backends w' = node_backends w \<and>
     xm_running (n_export w') = xm_running (n_export w) \<and>
     xm_thread_joinable (n_export w') = xm_thread_joinable (n_export w)"

lemma keeps_refl [simp]: "keeps w w"
  by (simp add: keeps_def)

lemma keeps_trans [trans]: "keeps u v \<Longrightarrow> keeps v w \<Longrightarrow> keeps u w"
  by (simp add: keeps_def)

lemma keeps_env [simp]: "keeps u (with_env v e) = keeps u v" "keeps (with_env u e) v = keeps u v"
  by (simp_all add: keeps_def node_backends_def)

text \<open>The threads of \<open>Concurrent_Runtime\<close> satisfy this contract: no step of theirs touches a backend.\<close>

lemma transmit_loop_backends: "transmit_loop ports packet tm e = (tm', e') \<Longrightarrow> tm_backends tm' = tm_backends tm"
proof (induction ports arbitrary: tm e)
  case (Cons port ports)
  obtain r tm1 e1 where t: "transmit port packet tm e = (r, tm1, e1)" by (cases rule: prod_cases3)
  then have "tm_backends tm1 = tm_backends tm"
    by (auto simp: transmit_def transmit_with_def split: option.splits prod.splits)
  with Cons.IH Cons.prems t show ?case by simp
qed simp

lemma processPacket_backends:
  "processPacket packet (p, e) = ((p', e'), ms) \<Longrightarrow>
     map_option tm_backends (pp_transport_manager p') = map_option tm_backends (pp_transport_manager p)"
  by (auto simp: processPacket_def dispatch_transmit_def Let_def dest!: transmit_loop_backends
      split: if_splits prod.splits option.splits)

lemma run_handler_backends:
  "run_handler h m w = Inr (w', ms) \<Longrightarrow>
     pp_transport_manager (n_processor w') = pp_transport_manager (n_processor w) \<and> xm_running (n_export w') = xm_running (n_export w) \<and>
     xm_thread_joinable (n_export w') = xm_thread_joinable (n_export w)"
  by (cases h) (auto simp: on_stats_def on_env_def processor_onPacketRx_def daemon_onTelemetry_def enqueue_def Let_def
      split: prod.splits sum.splits option.splits if_splits Payload.splits)

lemma node_backends_map: "node_backends w = (case map_option tm_backends (pp_transport_manager (n_processor w)) of None \<Rightarrow> [] | Some bs \<Rightarrow> bs)"
  by (simp add: node_backends_def split: option.split)

lemma internal_step_backends:
  "internal_step s s' \<Longrightarrow> node_backends (s_node s') = node_backends (s_node s) \<and>
     xm_running (n_export (s_node s')) = xm_running (n_export (s_node s)) \<and>
     xm_thread_joinable (n_export (s_node s')) = xm_thread_joinable (n_export (s_node s))"
proof (induction rule: internal_step.induct)
  case (run s t h m rest w ms)
  then show ?case using run_handler_backends [OF run(2)] by (simp add: node_backends_def)
next
  case (take s packet p)
  then have "pp_transport_manager p = pp_transport_manager (n_processor (s_node s))"
    by (auto simp: processLoop_step_def split: list.splits if_splits)
  then show ?case by (simp add: node_backends_def)
next
  case (process s packet p e ms)
  then show ?case using processPacket_backends [OF process(3)] by (simp add: node_backends_map)
qed simp

lemma threads_keep:
  assumes "sys_step s s'" and "sys_inv s"
  shows "keeps (s_node s) (s_node s')"
proof -
  have "sys_inv s'" using assms by (rule sys_step_inv)
  then have "node_inv (s_node s')" by (simp add: sys_inv_def)
  moreover have "node_backends (s_node s') = node_backends (s_node s) \<and>
     xm_running (n_export (s_node s')) = xm_running (n_export (s_node s)) \<and>
     xm_thread_joinable (n_export (s_node s')) = xm_thread_joinable (n_export (s_node s))"
    using assms(1)
  proof cases
    case internal
    then show ?thesis by (rule internal_step_backends)
  qed (simp_all add: node_backends_def processor_stop_def)
  ultimately show ?thesis by (simp add: keeps_def)
qed

text \<open>The messages \<open>main\<close> publishes have one subscriber, in \<open>main\<close> itself.\<close>

lemma main_publish:
  assumes "m_type m \<in> {SystemStart, SystemShutdown, T_Telemetry, T_HealthStatus}"
  shows "\<exists>w'. daemon_publish m w = Delivered w' \<and> keeps w w'"
proof -
  have one: "\<exists>w'. daemon_publish m w = Delivered w' \<and> keeps w w'"
    if "callbacks daemon_bus (m_type m) = [h]" "run_handler h m w = Inr (w', [])" "keeps w w'" for h w'
    using that by (simp add: daemon_publish_def publish_def tasks_def numeral_eq_Suc del: run_handler.simps)
  show ?thesis
  proof (cases "m_type m")
    case T_Telemetry
    obtain h x e where t: "daemon_onTelemetry m (n_health w) (n_export w) (n_env w) = (h, x, e)" by (cases rule: prod_cases3)
    then have "x = n_export w \<or> (\<exists>s. x = enqueue s (n_export w))"
      by (auto simp: daemon_onTelemetry_def Let_def split: prod.splits Payload.splits)
    moreover have "xm_running (enqueue s (n_export w)) = xm_running (n_export w)"
      "xm_thread_joinable (enqueue s (n_export w)) = xm_thread_joinable (n_export w)" for s by (simp_all add: enqueue_def Let_def)
    ultimately have "xm_running x = xm_running (n_export w)" "xm_thread_joinable x = xm_thread_joinable (n_export w)" "export_inv (n_export w) \<longrightarrow> export_inv x"
      using length_enqueue by (auto simp: export_inv_def)
    then have "keeps w (w\<lparr>n_health := h, n_export := x, n_env := e\<rparr>)" by (simp add: keeps_def node_backends_def node_inv_def)
    moreover have r: "run_handler DaemonTelemetry m w = Inr (w\<lparr>n_health := h, n_export := x, n_env := e\<rparr>, [])" by (simp add: t)
    ultimately show ?thesis using one [OF _ r] by (simp add: daemon_callbacks T_Telemetry)
  qed (use assms one in \<open>auto simp: daemon_callbacks on_env_def\<close>)
qed

lemma publish_messages_keeps:
  "list_all (\<lambda>m. m_type m = T_HealthStatus) ms \<Longrightarrow> \<exists>w'. publish_messages ms w = Delivered w' \<and> keeps w w'"
proof (induction ms arbitrary: w)
  case (Cons m ms)
  then obtain v where v: "daemon_publish m w = Delivered v" "keeps w v" using main_publish [of m w] by auto
  with Cons.IH [of v] Cons.prems obtain w' where "publish_messages ms v = Delivered w'" "keeps v w'" by auto
  with v show ?case using keeps_trans by auto
qed simp

lemma publish_system_keeps:
  assumes "t \<in> {SystemStart, SystemShutdown}"
  shows "\<exists>w. publish_system t d = Delivered (d\<lparr>dm_node := w\<rparr>) \<and> keeps (dm_node d) w"
proof -
  obtain now e where n: "nowMs (n_env (dm_node d)) = (now, e)" by fastforce
  have "m_type (system_message t now) \<in> {SystemStart, SystemShutdown, T_Telemetry, T_HealthStatus}"
    using assms by (auto simp: system_message_def)
  from main_publish [OF this, of "with_env (dm_node d) e"] show ?thesis by (auto simp: publish_system_def n)
qed

lemma tick_telemetry_keeps:
  "\<exists>w t. tick_telemetry d = Delivered (d\<lparr>dm_telemetry := t, dm_node := w\<rparr>) \<and> keeps (dm_node d) w \<and>
     tl_tick_count t = tl_tick_count (dm_telemetry d) + 1"
proof -
  obtain t m e where t: "telemetry_onTick (dm_telemetry d) (n_env (dm_node d)) = (t, m, e)" by (cases rule: prod_cases3)
  then have "m_type m = T_Telemetry" "tl_tick_count t = tl_tick_count (dm_telemetry d) + 1"
    by (auto simp: telemetry_onTick_def Let_def split: prod.splits)
  moreover obtain w where "daemon_publish m (with_env (dm_node d) e) = Delivered w" "keeps (dm_node d) w"
    using main_publish [of m "with_env (dm_node d) e"] \<open>m_type m = T_Telemetry\<close> by auto
  ultimately show ?thesis by (intro exI [of _ w] exI [of _ t]) (simp add: tick_telemetry_def t)
qed

lemma tick_health_keeps: "\<exists>w. tick_health d = Delivered (d\<lparr>dm_node := w\<rparr>) \<and> keeps (dm_node d) w"
proof -
  obtain h ms e where h: "health_onTick (n_health (dm_node d)) (n_env (dm_node d)) = (h, ms, e)" by (cases rule: prod_cases3)
  then have "list_all (\<lambda>m. m_type m = T_HealthStatus) ms"
    by (auto simp: health_onTick_def Let_def split: prod.splits if_splits)
  from publish_messages_keeps [OF this, of "with_env ((dm_node d)\<lparr>n_health := h\<rparr>) e"] obtain w
    where w: "publish_messages ms ((dm_node d)\<lparr>n_health := h, n_env := e\<rparr>) = Delivered w" "keeps ((dm_node d)\<lparr>n_health := h\<rparr>) w" by auto
  then have "keeps (dm_node d) w" by (simp add: keeps_def node_inv_def node_backends_def)
  with w(1) show ?thesis by (auto simp: tick_health_def h)
qed

section \<open>The main loop\<close>

definition rely :: "run_answers \<Rightarrow> bool" where
  "rely ra \<longleftrightarrow> (\<forall>i w. keeps w (ra_others ra i w))"

lemma daemon_tick_keeps:
  assumes "rely ra"
  shows "\<exists>w t b p status. daemon_tick os ra cfg i d =
      Delivered (d\<lparr>dm_node := w, dm_telemetry := t, dm_builder := b, dm_publisher := p\<rparr>) \<and> keeps (dm_node d) w \<and>
     tl_tick_count t = tl_tick_count (dm_telemetry d) + 1 \<and> sp_version p = sp_version (dm_publisher d) + 1 \<and>
     sp_snapshot p = Some status \<and> rst_state status = dm_state d \<and> rst_snapshot_version status = sp_version p \<and>
     rm_tick_count (rst_metrics status) = tl_tick_count t"
proof -
  have others: "keeps u v \<Longrightarrow> keeps u (ra_others ra j v)" for u v j using assms keeps_trans by (auto simp: rely_def)
  obtain w1 t where 1: "tick_telemetry (meanwhile ra (3 * i) d) = Delivered (d\<lparr>dm_telemetry := t, dm_node := w1\<rparr>)"
    "keeps (dm_node d) w1" "tl_tick_count t = tl_tick_count (dm_telemetry d) + 1"
    using tick_telemetry_keeps [of "meanwhile ra (3 * i) d"] others [OF keeps_refl] keeps_trans by (fastforce simp: meanwhile_def)
  let ?d1 = "d\<lparr>dm_telemetry := t, dm_node := w1\<rparr>"
  obtain w2 where 2: "tick_health (meanwhile ra (3 * i + 1) ?d1) = Delivered (d\<lparr>dm_telemetry := t, dm_node := w2\<rparr>)" "keeps w1 w2"
    using tick_health_keeps [of "meanwhile ra (3 * i + 1) ?d1"] others [OF keeps_refl] keeps_trans by (fastforce simp: meanwhile_def)
  let ?w3 = "ra_others ra (3 * i + 2) w2"
  obtain e b status where 3: "publish_status (os_drop_order os) (d\<lparr>dm_telemetry := t, dm_node := ?w3\<rparr>) =
      d\<lparr>dm_telemetry := t, dm_node := with_env ?w3 e, dm_builder := b,
        dm_publisher := \<lparr>sp_version = sp_version (dm_publisher d) + 1, sp_snapshot = Some status\<rparr>\<rparr>"
    "rst_state status = dm_state d" "rst_snapshot_version status = sp_version (dm_publisher d) + 1"
    "rm_tick_count (rst_metrics status) = tl_tick_count t"
    using publish_status_frame [of "os_drop_order os" "d\<lparr>dm_telemetry := t, dm_node := ?w3\<rparr>"] by auto
  let ?p = "\<lparr>sp_version = sp_version (dm_publisher d) + 1, sp_snapshot = Some status\<rparr>"
  let ?e = "sleep_ms (uint (dc_tick_ms (cfg_daemon cfg))) e"
  have "keeps (dm_node d) ?w3" using others [OF keeps_trans [OF 1(2) 2(2)]] .
  moreover have m: "meanwhile ra (3 * i + 2) (d\<lparr>dm_telemetry := t, dm_node := w2\<rparr>) = d\<lparr>dm_telemetry := t, dm_node := ?w3\<rparr>"
    by (simp add: meanwhile_def)
  have "daemon_tick os ra cfg i d = Delivered (d\<lparr>dm_node := with_env ?w3 ?e, dm_telemetry := t, dm_builder := b, dm_publisher := ?p\<rparr>)"
    unfolding daemon_tick_def 1(1) and_then.simps 2(1) m Let_def 3(1) by simp
  ultimately show ?thesis using 1(3) 3(2-4)
    by (intro exI [of _ "with_env ?w3 ?e"] exI [of _ t] exI [of _ b] exI [of _ ?p] exI [of _ status]) simp
qed

definition no_signal :: "run_answers \<Rightarrow> nat \<Rightarrow> bool" where
  "no_signal ra i \<longleftrightarrow> ra_signal ra (2 * i) \<noteq> SIGINT \<and> ra_signal ra (2 * i + 1) \<noteq> SIGTERM"

text \<open>Without a signal the loop ticks on.\<close>

lemma main_loop_ticks:
  assumes "rely ra" and "\<not> isRequested sr" and "\<forall>j < k. no_signal ra (i + j)"
  shows "\<exists>w t b p. main_loop os ra cfg (k + fuel) i sr d =
      main_loop os ra cfg fuel (i + k) sr (d\<lparr>dm_node := w, dm_telemetry := t, dm_builder := b, dm_publisher := p\<rparr>) \<and>
     keeps (dm_node d) w \<and> tl_tick_count t = tl_tick_count (dm_telemetry d) + of_nat k \<and>
     sp_version p = sp_version (dm_publisher d) + of_nat k"
  using assms(3)
proof (induction k arbitrary: i d)
  case 0
  show ?case
    by (intro exI [of _ "dm_node d"] exI [of _ "dm_telemetry d"] exI [of _ "dm_builder d"] exI [of _ "dm_publisher d"]) simp
next
  case (Suc k)
  obtain w t b p where 1: "daemon_tick os ra cfg i d = Delivered (d\<lparr>dm_node := w, dm_telemetry := t, dm_builder := b, dm_publisher := p\<rparr>)"
    "keeps (dm_node d) w" "tl_tick_count t = tl_tick_count (dm_telemetry d) + 1" "sp_version p = sp_version (dm_publisher d) + 1"
    using daemon_tick_keeps [OF assms(1)] by meson
  let ?d = "d\<lparr>dm_node := w, dm_telemetry := t, dm_builder := b, dm_publisher := p\<rparr>"
  have "\<forall>j < k. no_signal ra (Suc i + j)" using Suc.prems by fastforce
  from Suc.IH [OF this, of ?d] obtain w' t' b' p' where 2:
    "main_loop os ra cfg (k + fuel) (Suc i) sr ?d = main_loop os ra cfg fuel (Suc i + k) sr (d\<lparr>dm_node := w', dm_telemetry := t', dm_builder := b', dm_publisher := p'\<rparr>)"
    "keeps w w'" "tl_tick_count t' = tl_tick_count t + of_nat k" "sp_version p' = sp_version p + of_nat k" by auto
  have "no_signal ra i" using Suc.prems by fastforce
  then have "main_loop os ra cfg (Suc k + fuel) i sr d = main_loop os ra cfg (k + fuel) (Suc i) sr ?d"
    using assms(2) by (simp add: no_signal_def 1(1))
  then show ?case using 1 2 keeps_trans
    by (intro exI [of _ w'] exI [of _ t'] exI [of _ b'] exI [of _ p']) auto
qed

section \<open>The end of the event-loop thread\<close>

lemma run_to_end_stopped:
  assumes "\<not> el_running l" and "el_pc l \<noteq> NotStarted" and "\<forall>n. length (waits n) \<le> 64" and "remaining (el_pc l) < n"
  shows "\<exists>l'. run_to_end waits n l = Some l'"
  using assms(1,2,4)
proof (induction n arbitrary: l)
  case (Suc n)
  show ?case
  proof (cases "el_pc l")
    case Checking
    then show ?thesis using Suc.prems Suc.IH [of "l\<lparr>el_pc := Exited\<rparr>"] by simp
  next
    case InWait
    then show ?thesis using Suc.prems Suc.IH [of "l\<lparr>el_pc := Dispatching (waits n)\<rparr>"] spec [OF assms(3), of n] by simp
  next
    case (Dispatching evs)
    then show ?thesis using Suc.prems Suc.IH by (cases evs) simp_all
  qed (use Suc.prems in simp_all)
qed simp

text \<open>A loop whose flag is set does not end by itself.\<close>

lemma run_to_end_running:
  "el_pc l = NotStarted \<or> el_running l \<and> el_pc l \<noteq> Exited \<Longrightarrow> run_to_end waits n l = None"
proof (induction n arbitrary: l)
  case (Suc n)
  then show ?case by (cases "el_pc l") (auto split: list.split)
qed simp

lemma stop_event_loop_ends:
  assumes "run_step\<^sup>*\<^sup>* (dm_loop d) (ra_progress ra (dm_loop d))" and "loop_start (dm_loop d)"
    and "el_pc (ra_progress ra (dm_loop d)) \<noteq> NotStarted"
    and "notify (ra_notify ra) = Some (Inr ())" and "\<forall>n. length (ra_waits ra n) \<le> 64"
  shows "\<exists>e l. stop_event_loop ra d = Delivered (d\<lparr>dm_loop := l, dm_node := with_env (dm_node d) e\<rparr>)"
proof -
  let ?l = "ra_progress ra (dm_loop d)"
  have "loop_any\<^sup>*\<^sup>* (dm_loop d) ?l"
    using assms(1) by (rule rtranclp_mono [THEN predicate2D, rotated]) (auto simp: loop_any_def)
  then have "batch_ok ?l" by (rule el.reachable_invariant [OF assms(2)])
  then have "remaining (el_pc (loop_stop ?l)) < 69" by (simp add: batch_ok_def loop_stop_def Let_def)
  moreover have "\<not> el_running (loop_stop ?l)" "el_pc (loop_stop ?l) = el_pc ?l" by (simp_all add: loop_stop_def Let_def)
  ultimately obtain l where l: "run_to_end (ra_waits ra) 69 (loop_stop ?l) = Some l"
    using run_to_end_stopped [OF _ _ assms(5)] assms(3) by metis
  then show ?thesis
    by (simp add: stop_event_loop_def assms(4) Let_def del: run_to_end.simps) (intro exI, rule refl)
qed

section \<open>Shutdown releases the descriptors\<close>

lemma destroyControlSocket_holds:
  assumes "holds (us @ d_fd (dm_control d) # fs) base (dm_fds d)" and "0 \<le> d_fd (dm_control d)" and "d_registry (dm_control d)"
  shows "\<exists>w e. destroyControlSocket d = d\<lparr>dm_control := (dm_control d)\<lparr>d_fd := -1\<rparr>, dm_fds := w, dm_node := with_env (dm_node d) e\<rparr> \<and>
    holds (us @ fs) base w"
proof -
  let ?c = "dm_control d"
  from holds_reset [OF assms(1) _ assms(2,3), of UnknownFd] obtain w
    where w: "fd_reset (-1) UnknownFd ?c (dm_fds d) = (?c\<lparr>d_fd := -1\<rparr>, w)" "holds (remove1 (d_fd ?c) (us @ d_fd ?c # fs)) base w" by auto
  have "d_fd ?c \<notin> set us" using assms(1) by (simp add: holds_def)
  then have "remove1 (d_fd ?c) (us @ d_fd ?c # fs) = us @ fs" by (simp add: remove1_append)
  with w(2) have "holds (us @ fs) base w" by simp
  moreover have "\<exists>e. destroyControlSocket d = d\<lparr>dm_control := ?c\<lparr>d_fd := -1\<rparr>, dm_fds := w, dm_node := with_env (dm_node d) e\<rparr>"
    by (simp add: destroyControlSocket_def w(1) Let_def) (intro exI, rule refl)
  ultimately show ?thesis by blast
qed

definition udp_stopped :: "UdpReceiver option \<Rightarrow> bool" where
  "udp_stopped u \<longleftrightarrow> (\<forall>r. u = Some r \<longrightarrow> \<not> ur_running r \<and> \<not> ur_joinable r \<and> d_fd (ur_socket r) = -1)"

lemma stop_receiver_holds:
  assumes "holds ((case dm_udp d of None \<Rightarrow> [] | Some r \<Rightarrow> [d_fd (ur_socket r)]) @ fs) base (dm_fds d)"
    and "\<forall>r. dm_udp d = Some r \<longrightarrow> 0 \<le> d_fd (ur_socket r) \<and> d_registry (ur_socket r) \<and> \<not> ur_running r \<and> \<not> ur_joinable r"
  shows "\<exists>u w e. stop_receiver d = d\<lparr>dm_udp := u, dm_fds := w, dm_node := with_env (dm_node d) e\<rparr> \<and> udp_stopped u \<and> holds fs base w"
proof (cases "dm_udp d")
  case None
  then show ?thesis using assms(1)
    by (intro exI [of _ None] exI [of _ "dm_fds d"] exI [of _ "n_env (dm_node d)"]) (cases d, simp add: stop_receiver_def udp_stopped_def)
next
  case (Some r)
  let ?s = "ur_socket r"
  have r: "0 \<le> d_fd ?s" "d_registry ?s" "\<not> ur_running r" "\<not> ur_joinable r" using assms(2) Some by auto
  have "holds (d_fd ?s # fs) base (dm_fds d)" using assms(1) Some by simp
  from holds_reset [OF this _ r(1,2), of UnknownFd] obtain w
    where w: "fd_reset (-1) UnknownFd ?s (dm_fds d) = (?s\<lparr>d_fd := -1\<rparr>, w)" "holds fs base w" by auto
  let ?r = "r\<lparr>ur_running := False, ur_socket := ?s\<lparr>d_fd := -1\<rparr>\<rparr>"
  have "\<exists>e. stop_receiver d = d\<lparr>dm_udp := Some ?r, dm_fds := w, dm_node := with_env (dm_node d) e\<rparr>"
    using r by (simp add: stop_receiver_def Some udp_stop_def close_socket_def fd_valid_def w(1) Let_def) (intro exI, rule refl)
  then show ?thesis using w(2) r(4) by (fastforce simp: udp_stopped_def)
qed

lemma fd_destroy_holds:
  assumes "holds (d_fd d # fs) base w" and "0 \<le> d_fd d" and "d_registry d"
  shows "holds fs base (snd (fd_destroy d w))"
  using holds_reset [OF assms(1) _ assms(2,3), of UnknownFd] by (auto simp: fd_destroy_def)

lemma daemon_destroy_holds:
  assumes "holds [d_fd (dm_event d), d_fd (dm_epoll d), d_fd (ub_socket b)] base (dm_fds d)" and "udp_stopped (dm_udp d)"
    and "d_fd (dm_control d) = -1" and "node_backends (dm_node d) = [(1, UdpBackend b)]"
    and "\<forall>h \<in> {dm_event d, dm_epoll d, ub_socket b}. 0 \<le> d_fd h \<and> d_registry h"
  shows "holds [] base (snd (daemon_destroy d))"
proof -
  let ?w1 = "snd (fd_destroy (dm_event d) (dm_fds d))"
  let ?w2 = "snd (fd_destroy (dm_epoll d) ?w1)"
  have "holds [d_fd (dm_epoll d), d_fd (ub_socket b)] base ?w1" using fd_destroy_holds [OF assms(1)] assms(5) by simp
  then have "holds [d_fd (ub_socket b)] base ?w2" using fd_destroy_holds assms(5) by blast
  then have "holds [] base (snd (fd_destroy (ub_socket b) ?w2))" using fd_destroy_holds assms(5) by blast
  moreover have invalid: "snd (fd_destroy h w) = w" if "d_fd h = -1" for h w using that by (simp add: fd_destroy_def reset_invalid)
  ultimately show ?thesis
    using assms(2,3) by (auto simp: daemon_destroy_def assms(4) udp_stopped_def udp_stop_def fd_valid_def Let_def split: option.split)
qed

lemma stop_exports_ends:
  assumes "ra_export_pc ra \<noteq> GoingToSleep" and "xm_running (n_export (dm_node d))"
  shows "\<exists>w. stop_exports ra d = Delivered (d\<lparr>dm_node := w\<rparr>) \<and> node_backends w = node_backends (dm_node d) \<and>
    \<not> xm_thread_joinable (n_export w)"
proof -
  let ?x = "n_export (dm_node d)" and ?e = "log_info ''[SHUTDOWN] Stopping telemetry export manager'' (n_env (dm_node d))"
  have adv: "fst (snd (exporter_exportSample x s e)) = fst (snd (exporter_exportSample x s ?e))" for x s e
    by (cases x) (simp_all add: file_export_def Let_def split: prod.split)
  obtain m e where drain: "drain_loop exporter_exportSample (Suc (length (xm_queue ?x))) (?x\<lparr>xm_running := False\<rparr>) ?e = Some (m, e)"
    using drain_all [where op = exporter_exportSample and adv = "\<lambda>x s. fst (snd (exporter_exportSample x s ?e))"
        and m = "?x\<lparr>xm_running := False\<rparr>" and e = ?e, OF adv] by auto
  have "join_returns exportLoop_step (\<lambda>m. length (xm_queue m)) (ra_export_pc ra) (?x\<lparr>xm_running := False\<rparr>)"
    using export_worker.join_returns_iff [of "?x\<lparr>xm_running := False\<rparr>" "ra_export_pc ra"] assms(1) by simp
  then have "\<exists>e'. stop_exports ra d = Delivered (d\<lparr>dm_node := (dm_node d)\<lparr>n_export := export_join m, n_env := e'\<rparr>\<rparr>)"
    using assms(2) drain by (simp add: stop_exports_def export_stop_def Let_def del: drain_loop.simps) (intro exI, rule refl)
  then obtain e' where "stop_exports ra d = Delivered (d\<lparr>dm_node := (dm_node d)\<lparr>n_export := export_join m, n_env := e'\<rparr>\<rparr>)" by blast
  then show ?thesis by (auto simp: node_backends_def export_join_def)
qed

lemma final_status_frame:
  "\<exists>b e. final_status os sr d = d\<lparr>dm_state := Stopping, dm_builder := b, dm_node := with_env (dm_node d) e\<rparr>"
  by (simp add: final_status_def Let_def split: prod.split) (intro allI impI exI, rule refl)

lemma daemon_shutdown_releases:
  assumes "daemon_fds d base" and "loop_start (dm_loop d)" and "rely ra"
    and "run_step\<^sup>*\<^sup>* (dm_loop d) (ra_progress ra (dm_loop d))" and "el_pc (ra_progress ra (dm_loop d)) \<noteq> NotStarted"
    and "notify (ra_notify ra) = Some (Inr ())" and "\<forall>n. length (ra_waits ra n) \<le> 64" and "ra_export_pc ra \<noteq> GoingToSleep"
    and "xm_running (n_export (dm_node d))"
  shows "\<exists>d'. daemon_shutdown os ra (i, sr, d) = Delivered d' \<and> holds [] base (snd (daemon_destroy d')) \<and>
    \<not> xm_thread_joinable (n_export (dm_node d'))"
proof -
  let ?us = "case dm_udp d of None \<Rightarrow> [] | Some r \<Rightarrow> [d_fd (ur_socket r)]"
  from assms(1) obtain b where b: "node_backends (dm_node d) = [(1, UdpBackend b)]"
    "\<forall>h \<in> {dm_control d, dm_event d, dm_epoll d, ub_socket b}. 0 \<le> d_fd h \<and> d_registry h"
    "holds (?us @ [d_fd (dm_control d), d_fd (dm_event d), d_fd (dm_epoll d), d_fd (ub_socket b)]) base (dm_fds d)"
    "\<forall>r. dm_udp d = Some r \<longrightarrow> 0 \<le> d_fd (ur_socket r) \<and> d_registry (ur_socket r) \<and> \<not> ur_running r \<and> \<not> ur_joinable r"
    by (auto simp: daemon_fds_def daemon_handles_def split: option.splits)
  let ?w = "ra_others ra (3 * i) (dm_node d)"
  let ?m = "meanwhile ra (3 * i) d"
  have backends: "node_backends ?w = [(1, UdpBackend b)]" "xm_running (n_export ?w)"
    using assms(3,9) b(1) by (simp_all add: rely_def keeps_def)
  obtain l e1 where s1: "stop_event_loop ra ?m = Delivered (d\<lparr>dm_loop := l, dm_node := with_env ?w e1\<rparr>)"
    using stop_event_loop_ends [of ?m ra] assms(2,4-7) by (auto simp: meanwhile_def)
  let ?d1 = "d\<lparr>dm_loop := l, dm_node := with_env ?w e1\<rparr>"
  obtain w2 e2 where s2: "destroyControlSocket ?d1 = ?d1\<lparr>dm_control := (dm_control d)\<lparr>d_fd := -1\<rparr>, dm_fds := w2, dm_node := with_env ?w e2\<rparr>"
    "holds (?us @ [d_fd (dm_event d), d_fd (dm_epoll d), d_fd (ub_socket b)]) base w2"
    using destroyControlSocket_holds [of ?us ?d1] b(2,3) by fastforce
  let ?d2 = "?d1\<lparr>dm_control := (dm_control d)\<lparr>d_fd := -1\<rparr>, dm_fds := w2, dm_node := with_env ?w e2\<rparr>"
  obtain u w3 e3 where s3: "stop_receiver ?d2 = ?d2\<lparr>dm_udp := u, dm_fds := w3, dm_node := with_env ?w e3\<rparr>" "udp_stopped u"
    "holds [d_fd (dm_event d), d_fd (dm_epoll d), d_fd (ub_socket b)] base w3"
    using stop_receiver_holds [of ?d2 "[d_fd (dm_event d), d_fd (dm_epoll d), d_fd (ub_socket b)]" base] s2(2) b(4) by auto
  let ?d3 = "?d2\<lparr>dm_udp := u, dm_fds := w3, dm_node := with_env ?w e3\<rparr>"
  obtain v where s4: "stop_exports ra ?d3 = Delivered (?d3\<lparr>dm_node := v\<rparr>)" "node_backends v = [(1, UdpBackend b)]"
    "\<not> xm_thread_joinable (n_export v)"
    using stop_exports_ends [OF assms(8), of ?d3] backends by (auto simp: node_backends_def)
  obtain b' e5 where s5: "final_status os sr (?d3\<lparr>dm_node := v\<rparr>) = ?d3\<lparr>dm_state := Stopping, dm_builder := b', dm_node := with_env v e5\<rparr>"
    using final_status_frame [of os sr "?d3\<lparr>dm_node := v\<rparr>"] by auto
  let ?d5 = "?d3\<lparr>dm_state := Stopping, dm_builder := b', dm_node := with_env v e5\<rparr>"
  obtain u' where s6: "publish_system SystemShutdown ?d5 = Delivered (?d5\<lparr>dm_node := u'\<rparr>)" "keeps v u'"
    using publish_system_keeps [of SystemShutdown ?d5] by auto
  have "daemon_shutdown os ra (i, sr, d) = Delivered (?d5\<lparr>dm_node := u'\<rparr>)"
    unfolding daemon_shutdown_def prod.case s1 and_then.simps s2(1) s3(1) s4(1) s5 by (rule s6)
  moreover have "holds [] base (snd (daemon_destroy (?d5\<lparr>dm_node := u'\<rparr>)))"
    using s3(2,3) s4(2) s6(2) b(2) by (intro daemon_destroy_holds [of _ b]) (auto simp: keeps_def)
  moreover have "\<not> xm_thread_joinable (n_export (dm_node (?d5\<lparr>dm_node := u'\<rparr>)))" using s4(3) s6(2) by (simp add: keeps_def)
  ultimately show ?thesis by blast
qed

text \<open>A lost notification of the export thread: the shutdown does not get past its join.\<close>

lemma lost_notification_hangs:
  assumes "ra_export_pc ra = GoingToSleep" and "xm_running (n_export (dm_node d))"
  shows "stop_exports ra d = Unfinished"
  using export_worker.join_returns_iff [of "(n_export (dm_node d))\<lparr>xm_running := False\<rparr>" "ra_export_pc ra"] assms
  by (simp add: stop_exports_def export_stop_def Let_def)

section \<open>Properties\<close>

text \<open>
  \<^bold>\<open>C20\<close> A signal ends the daemon cleanly. When the daemon has started and the first iteration that sees a signal
  is the one numbered \<open>k\<close> (its first test reads SIGINT or its second SIGTERM), then, whatever the other threads do
  to the runtime within their contract, the main loop makes exactly \<open>k\<close> ticks and publishes \<open>k\<close> further snapshots
  while the state is Running, stops for that signal's reason, and the process exits with status 0. By then every
  descriptor the daemon opened is closed, each exactly once, nothing is left active in the registry, and the report
  says so. This needs the event-loop thread to have entered its loop when it is stopped and its eventfd to take the
  notification, and neither the export thread nor the worker to be between the test of its predicate and its
  sleep when it is told to end; otherwise the shutdown hangs: on the lost notification of a
  thread (\<open>lost_notification_hangs\<close>), or because the stop of a loop that has not begun is lost.
\<close>

theorem signal_ends_daemon:
  assumes "daemon_boot os cfg e w = Delivered (Started d)" and "fresh_fds os" and "refuses_invalid os"
    and "fw_registry w = []" and "fw_bad_closes w = 0" and "rely ra"
    and "\<forall>j < k. no_signal ra j" and "\<not> no_signal ra k"
    and "run_step\<^sup>*\<^sup>* (dm_loop d) (ra_progress ra (dm_loop d))" and "el_pc (ra_progress ra (dm_loop d)) \<noteq> NotStarted"
    and "notify (ra_notify ra) = Some (Inr ())" and "\<forall>n. length (ra_waits ra n) \<le> 64" and "hash_order (ra_fd_order ra)"
    and "ra_export_pc ra \<noteq> GoingToSleep" and "ra_worker_pc ra \<noteq> GoingToSleep"
  shows "\<exists>d1 sr d2 e0 e1 w'. daemon_start d = Delivered d1 \<and> dm_state d1 = Running \<and>
    main_loop os ra cfg (Suc k) 0 ShutdownRequest_new d1 = Delivered (k, sr, d2) \<and>
    sr_reason sr = (if ra_signal ra (2 * k) = SIGINT then SignalInterrupt else SignalTerminate) \<and>
    tl_tick_count (dm_telemetry d2) = of_nat k \<and> sp_version (dm_publisher d2) = of_nat (Suc k) \<and> dm_state d2 = Running \<and>
    run_daemon os ra cfg (Suc k) e w = Exits 0 (log_shutdown (log_info ''EdgeNetSwitch daemon stopped.'' e1)) w' \<and>
    report_leaks (ra_fd_order ra) (fw_registry w') e0 = (False, e1) \<and>
    set (fw_open w') = set (fw_open w) \<and> active_fds (fw_registry w') = {} \<and> fw_bad_closes w' = 0"
proof -
  have base: "holds [] (set (fw_open w)) w" using assms(4,5) by (simp add: holds_def active_fds_def reg_inv_def hmap_wf_def)
  note ready = daemon_boot_ready [OF assms(1-3) base]
  obtain v where start: "daemon_start d = Delivered (d\<lparr>dm_node := v, dm_state := Running\<rparr>)" "keeps (dm_node d) v"
    using publish_system_keeps [of SystemStart d] by (auto simp: daemon_start_def)
  let ?d1 = "d\<lparr>dm_node := v, dm_state := Running\<rparr>"
  obtain n t b p where ticks: "main_loop os ra cfg (k + 1) 0 ShutdownRequest_new ?d1 =
      main_loop os ra cfg 1 k ShutdownRequest_new (?d1\<lparr>dm_node := n, dm_telemetry := t, dm_builder := b, dm_publisher := p\<rparr>)"
    "keeps v n" "tl_tick_count t = tl_tick_count (dm_telemetry d) + of_nat k" "sp_version p = sp_version (dm_publisher d) + of_nat k"
    using main_loop_ticks [OF assms(6), of ShutdownRequest_new k 0 os cfg 1 ?d1] assms(7)
    by (auto simp: isRequested_def ShutdownRequest_new_def)
  let ?d2 = "?d1\<lparr>dm_node := n, dm_telemetry := t, dm_builder := b, dm_publisher := p\<rparr>"
  let ?sr = "request (if ra_signal ra (2 * k) = SIGINT then SignalInterrupt else SignalTerminate) ShutdownRequest_new"
  have loop: "main_loop os ra cfg (Suc k) 0 ShutdownRequest_new ?d1 = Delivered (k, ?sr, ?d2)"
  proof -
    have "main_loop os ra cfg 1 k ShutdownRequest_new ?d2 = Delivered (k, ?sr, ?d2)"
      using assms(8) by (auto simp: no_signal_def isRequested_def ShutdownRequest_new_def)
    then show ?thesis using ticks(1) by (simp only: Suc_eq_plus1)
  qed
  have "node_backends n = node_backends (dm_node d)" using start(2) ticks(2) by (simp add: keeps_def)
  then have fds: "daemon_fds ?d2 (set (fw_open w))" using ready(1) by (simp add: daemon_fds_def daemon_handles_def)
  have "xm_running (n_export (dm_node ?d2))" using ready(7) start(2) ticks(2) by (simp add: keeps_def)
  then obtain d' where down: "daemon_shutdown os ra (k, ?sr, ?d2) = Delivered d'" "holds [] (set (fw_open w)) (snd (daemon_destroy d'))"
    "\<not> xm_thread_joinable (n_export (dm_node d'))"
    using daemon_shutdown_releases [OF fds _ assms(6), of os k ?sr] ready(3) assms(9-12,14) by auto
  have join: "join_returns processLoop_step (\<lambda>p. length (pp_queue p)) (ra_worker_pc ra) (processor_stop (n_processor (dm_node d')))"
    using packet_worker.join_returns_iff [of "processor_stop (n_processor (dm_node d'))" "ra_worker_pc ra"] assms(15)
    by (simp add: processor_stop_def)
  obtain e0 w' where dest: "daemon_destroy d' = (e0, w')" by fastforce
  then have w': "holds [] (set (fw_open w)) w'" using down(2) by simp
  obtain leak e1 where rep: "report_leaks (ra_fd_order ra) (fw_registry w') e0 = (leak, e1)" by fastforce
  then have "leak = False" using report_leaks_detects [OF assms(13), of "fw_registry w'" e0] w' by (simp add: holds_def)
  moreover have "run_daemon os ra cfg (Suc k) e w = Exits 0 (log_shutdown (log_info ''EdgeNetSwitch daemon stopped.'' e1)) w'"
    unfolding run_daemon_def assms(1) delivery.case boot_result.case start(1) and_then.simps loop down(1)
    by (simp add: daemon_end_def leave_scope_def down(3) join dest rep)
  ultimately show ?thesis
    using start(1) loop ready(5,6) ticks(3,4) w' rep
    by (intro exI [of _ ?d1] exI [of _ ?sr] exI [of _ ?d2] exI [of _ e0] exI [of _ e1] exI [of _ w'])
      (simp add: request_def ShutdownRequest_new_def holds_def del: main_loop.simps)
qed

text \<open>A run in which the event-loop thread has entered its loop and SIGTERM arrives during the second iteration.\<close>

definition run_demo :: run_answers where
  "run_demo = \<lparr>ra_signal = (\<lambda>n. if n < 3 then 0 else SIGTERM), ra_others = (\<lambda>_ w. w),
     ra_progress = (\<lambda>l. l\<lparr>el_running := True, el_pc := Checking\<rparr>), ra_notify = [(8, 0)], ra_waits = (\<lambda>_. []),
     ra_fd_order = (\<lambda>xs. xs), ra_export_pc = Sleeping, ra_worker_pc = Sleeping\<rparr>"

theorem signal_ends_daemon_witness:
  "\<exists>e' w'. run_daemon os_demo run_demo (cv_config demo_server) 2 env_demo world_demo = Exits 0 e' w' \<and>
     set (fw_open w') = {0, 1, 2} \<and> active_fds (fw_registry w') = {}"
proof -
  obtain d where d: "daemon_boot os_demo (cv_config demo_server) env_demo world_demo = Delivered (Started d)" using boot_demo by blast
  have "holds [] (set (fw_open world_demo)) world_demo"
    by (simp add: holds_def world_demo_def active_fds_def reg_inv_def hmap_wf_def)
  then have "loop_start (dm_loop d)" by (rule daemon_boot_ready(3) [OF d os_demo_ok])
  then have "run_step (dm_loop d) (ra_progress run_demo (dm_loop d))" by (simp add: run_demo_def loop_start_def begin_run)
  then have "run_step\<^sup>*\<^sup>* (dm_loop d) (ra_progress run_demo (dm_loop d))" by (rule r_into_rtranclp)
  moreover have "\<forall>j < 1. no_signal run_demo j" "\<not> no_signal run_demo 1"
    by (simp_all add: no_signal_def run_demo_def SIGINT_def SIGTERM_def)
  moreover have "rely run_demo" "hash_order (ra_fd_order run_demo)" by (simp_all add: rely_def run_demo_def hash_order_def)
  ultimately show ?thesis
    using signal_ends_daemon [OF d os_demo_ok, of run_demo 1] by (auto simp: world_demo_def run_demo_def insert_commute numeral_2_eq_2)
qed

end
