(* ===== verification/Signals.thy ===== *)
theory Signals
  imports Daemon_Main
begin

text \<open>
  The signals of the daemon (daemon/main.cpp): the handler and its installation, the variable they write, which the
  main loop reads twice in an iteration, and the optional debug reader thread, which ends with the
  loop. \<open>arrivals n\<close> are the signals delivered between the reads \<open>n - 1\<close> and \<open>n\<close> of the variable.
\<close>

section \<open>Definitions\<close>

definition handleSignal :: "int \<Rightarrow> int \<Rightarrow> int" where
  "handleSignal signal g_receivedSignal = signal"

datatype disposition = DefaultAction | Handled

definition installSignalHandlers :: "(int \<Rightarrow> disposition) \<Rightarrow> int \<Rightarrow> disposition" where
  "installSignalHandlers action = action(SIGINT := Handled, SIGTERM := Handled)"

text \<open>A delivered signal runs the handler or takes the default action, which ends the process (\<open>None\<close>).\<close>

definition deliver_signal :: "(int \<Rightarrow> disposition) \<Rightarrow> int \<Rightarrow> int option \<Rightarrow> int option" where
  "deliver_signal action signal g =
     (case g of
        None \<Rightarrow> None
      | Some v \<Rightarrow> (case action signal of Handled \<Rightarrow> Some (handleSignal signal v) | DefaultAction \<Rightarrow> None))"

text \<open>\<^verbatim>\<open>g_receivedSignal\<close> at its \<open>n\<close>-th read.\<close>

definition received_signal :: "(nat \<Rightarrow> int list) \<Rightarrow> nat \<Rightarrow> int option" where
  "received_signal arrivals n =
     fold (deliver_signal (installSignalHandlers (\<lambda>_. DefaultAction))) (concat (map arrivals [0..<Suc n])) (Some 0)"

definition debug_reader_line :: "RuntimeStatus \<Rightarrow> string" where
  "debug_reader_line snap = ''debug_reader: version='' @ to_string (rst_snapshot_version snap) @
     '' tick='' @ to_string (rm_tick_count (rst_metrics snap))"

text \<open>The debug reader, given what its reads of the request and of the publisher find.\<close>

fun debug_reader :: "(nat \<Rightarrow> ShutdownRequest) \<Rightarrow> (nat \<Rightarrow> SnapshotPublisher) \<Rightarrow> nat \<Rightarrow> nat \<Rightarrow> env \<Rightarrow> env option" where
  "debug_reader requests publishers 0 i e = None"
| "debug_reader requests publishers (Suc fuel) i e =
     (if isRequested (requests i) then Some e
      else
        let e = (case load_snapshot (publishers i) of
                   None \<Rightarrow> e
                 | Some snap \<Rightarrow> log_debug (debug_reader_line snap) e)
        in debug_reader requests publishers fuel (Suc i) (sleep_ms 200 e))"

section \<open>Lemmas\<close>

definition delivered_by :: "(nat \<Rightarrow> int list) \<Rightarrow> nat \<Rightarrow> int set" where
  "delivered_by arrivals n = (\<Union>i \<le> n. set (arrivals i))"

lemma deliveries_last:
  assumes "set signals \<subseteq> {SIGINT, SIGTERM}"
  shows "fold (deliver_signal (installSignalHandlers action)) signals (Some v) = Some (last (v # signals))"
  using assms
  by (induction signals arbitrary: v) (auto simp: deliver_signal_def installSignalHandlers_def handleSignal_def)

lemma received_last:
  assumes "\<forall>n. set (arrivals n) \<subseteq> {SIGINT, SIGTERM}"
  shows "received_signal arrivals n = Some (last (0 # concat (map arrivals [0..<Suc n])))"
  unfolding received_signal_def by (rule deliveries_last) (use assms in auto)

lemma received_delivered:
  assumes "\<forall>n. set (arrivals n) \<subseteq> {SIGINT, SIGTERM}" and "received_signal arrivals n = Some v" and "v \<noteq> 0"
  shows "v \<in> delivered_by arrivals n"
proof -
  let ?xs = "concat (map arrivals [0..<Suc n])"
  have v: "v = last (0 # ?xs)" using assms(2) received_last [OF assms(1), of n] by simp
  with assms(3) have "v \<in> set ?xs" by (metis last.simps last_in_set)
  then show ?thesis by (auto simp: delivered_by_def less_Suc_eq_le)
qed

lemma received_before:
  assumes "\<forall>i \<le> n. arrivals i = []"
  shows "received_signal arrivals n = Some 0"
proof -
  have "concat (map arrivals [0..<Suc n]) = []" using assms by (auto simp: less_Suc_eq_le simp del: upt_Suc)
  then show ?thesis by (simp only: received_signal_def fold_simps)
qed

lemma received_after:
  assumes "\<forall>n. set (arrivals n) \<subseteq> {SIGINT, SIGTERM}" and "arrivals m \<noteq> []" and "\<forall>n > m. arrivals n = []" and "m \<le> n"
  shows "received_signal arrivals n = Some (last (arrivals m))"
proof -
  have "concat (map arrivals [0..<Suc n]) = concat (map arrivals [0..<Suc m])"
    using assms(4)
  proof (induction rule: dec_induct)
    case (step n)
    then show ?case using assms(3) by (simp add: upt_Suc_append [of 0 "Suc n"] del: upt_Suc)
  qed simp
  then show ?thesis using assms(2) received_last [OF assms(1), of n] by simp
qed

lemma debug_reader_ends:
  assumes "\<forall>j < n. \<not> isRequested (requests (i + j))" and "isRequested (requests (i + n))"
  shows "\<exists>e'. debug_reader requests publishers (Suc n) i e = Some e'"
  using assms
proof (induction n arbitrary: i e)
  case (Suc n)
  have "\<forall>j < n. \<not> isRequested (requests (Suc i + j))" "isRequested (requests (Suc i + n))" "\<not> isRequested (requests i)"
    using Suc.prems by fastforce+
  then show ?case using Suc.IH [of "Suc i"] by (auto simp: Let_def simp del: debug_reader.simps(1))
qed simp

lemma main_loop_signal:
  assumes "rely ra" and "\<forall>j < k. no_signal ra j" and "\<not> no_signal ra k"
  shows "\<exists>d'. main_loop os ra cfg (Suc k) 0 ShutdownRequest_new d =
      Delivered (k, request (if ra_signal ra (2 * k) = SIGINT then SignalInterrupt else SignalTerminate) ShutdownRequest_new, d') \<and>
    tl_tick_count (dm_telemetry d') = tl_tick_count (dm_telemetry d) + of_nat k"
proof -
  have new: "\<not> isRequested ShutdownRequest_new" by (simp add: isRequested_def ShutdownRequest_new_def)
  obtain w t b p where loop: "main_loop os ra cfg (k + 1) 0 ShutdownRequest_new d = main_loop os ra cfg 1 (0 + k) ShutdownRequest_new
      (d\<lparr>dm_node := w, dm_telemetry := t, dm_builder := b, dm_publisher := p\<rparr>)"
    "tl_tick_count t = tl_tick_count (dm_telemetry d) + of_nat k"
    using main_loop_ticks [OF assms(1) new, of k 0 os cfg 1 d] assms(2) by auto
  let ?d = "d\<lparr>dm_node := w, dm_telemetry := t, dm_builder := b, dm_publisher := p\<rparr>"
  let ?sr = "request (if ra_signal ra (2 * k) = SIGINT then SignalInterrupt else SignalTerminate) ShutdownRequest_new"
  have "main_loop os ra cfg 1 k ShutdownRequest_new ?d = Delivered (k, ?sr, ?d)"
    using assms(3) new by (auto simp: no_signal_def)
  then have "main_loop os ra cfg (Suc k) 0 ShutdownRequest_new d = Delivered (k, ?sr, ?d)"
    using loop(1) by (simp only: Suc_eq_plus1 add_0)
  moreover have "tl_tick_count (dm_telemetry ?d) = tl_tick_count (dm_telemetry d) + of_nat k" using loop(2) by simp
  ultimately show ?thesis by blast
qed

lemma main_loop_unended:
  assumes "rely ra" and "\<forall>j. no_signal ra j"
  shows "main_loop os ra cfg fuel 0 ShutdownRequest_new d = Unfinished"
  using main_loop_ticks [OF assms(1), of ShutdownRequest_new fuel 0 os cfg 0 d] assms(2)
  by (auto simp: isRequested_def ShutdownRequest_new_def)

text \<open>Signals that alternate between the two reads of each iteration are never acted on.\<close>

lemma alternating_signals_missed:
  assumes "rely ra" and "\<forall>n. received_signal (\<lambda>n. if even n then [SIGTERM] else [SIGINT]) n = Some (ra_signal ra n)"
  shows "main_loop os ra cfg fuel 0 ShutdownRequest_new d = Unfinished"
proof -
  have "\<forall>n. ra_signal ra n = (if even n then SIGTERM else SIGINT)"
    using received_last [of "\<lambda>n. if even n then [SIGTERM] else [SIGINT]"] assms(2) by simp
  then show ?thesis by (intro main_loop_unended [OF assms(1)]) (simp add: no_signal_def SIGINT_def SIGTERM_def)
qed

lemma no_signal_before:
  assumes "\<forall>n. received_signal arrivals n = Some (ra_signal ra n)" and "\<forall>n < a. arrivals n = []" and "2 * j + 1 < a"
  shows "no_signal ra j"
  using received_before [of "2 * j" arrivals] received_before [of "2 * j + 1" arrivals] assms
  by (simp add: no_signal_def SIGINT_def SIGTERM_def)

lemma last_signal_seen:
  assumes "\<forall>n. set (arrivals n) \<subseteq> {SIGINT, SIGTERM}" and "\<forall>n. received_signal arrivals n = Some (ra_signal ra n)"
    and "arrivals m \<noteq> []" and "\<forall>n > m. arrivals n = []"
  shows "\<not> no_signal ra ((m + 1) div 2)"
proof -
  have "last (arrivals m) \<in> {SIGINT, SIGTERM}" using assms(1,3) last_in_set by blast
  moreover have "ra_signal ra n = last (arrivals m)" if "m \<le> n" for n
    using received_after [OF assms(1,3,4) that] assms(2) by simp
  ultimately show ?thesis by (auto simp: no_signal_def)
qed

lemma seen_was_delivered:
  assumes "\<forall>n. set (arrivals n) \<subseteq> {SIGINT, SIGTERM}" and "\<forall>n. received_signal arrivals n = Some (ra_signal ra n)"
    and "\<not> no_signal ra k"
  shows "if ra_signal ra (2 * k) = SIGINT then SIGINT \<in> delivered_by arrivals (2 * k) else SIGTERM \<in> delivered_by arrivals (2 * k + 1)"
  using assms(3) received_delivered [OF assms(1), of "2 * k" SIGINT] received_delivered [OF assms(1), of "2 * k + 1" SIGTERM] assms(2)
  by (auto simp: no_signal_def SIGINT_def SIGTERM_def)

section \<open>Properties\<close>

text \<open>
  \<^bold>\<open>C21\<close> Signals stop the main loop. Let SIGINT and SIGTERM be delivered at any times, the first not before read
  \<open>a\<close> of the variable the handler writes and the last before read \<open>m\<close>. Then none kills the process, and, whatever
  the other threads do within their contract, the main loop ends after at least \<open>a div 2\<close> and at
  most \<open>(m + 1) div 2\<close> ticks, for the reason of a signal that was delivered; the debug reader of a build that
  has one ends at its first test after that, so that joining it does not block. Without any signal the loop never
  ends.
\<close>

theorem signals_stop_main_loop:
  assumes "rely ra" and "\<forall>n. set (arrivals n) \<subseteq> {SIGINT, SIGTERM}"
    and "\<forall>n. received_signal arrivals n \<noteq> None \<longrightarrow> ra_signal ra n = the (received_signal arrivals n)"
    and "\<forall>n < a. arrivals n = []"
  shows "(\<forall>n. received_signal arrivals n \<noteq> None) \<and>
    (arrivals m \<noteq> [] \<and> (\<forall>n > m. arrivals n = []) \<longrightarrow>
      (\<exists>k sr d'. a div 2 \<le> k \<and> k \<le> (m + 1) div 2 \<and>
        main_loop os ra cfg (Suc k) 0 ShutdownRequest_new d = Delivered (k, sr, d') \<and>
        tl_tick_count (dm_telemetry d') = tl_tick_count (dm_telemetry d) + of_nat k \<and>
        (sr_reason sr = SignalInterrupt \<and> SIGINT \<in> delivered_by arrivals (2 * k) \<or>
         sr_reason sr = SignalTerminate \<and> SIGTERM \<in> delivered_by arrivals (2 * k + 1)) \<and>
        (\<forall>n publishers e. \<exists>e'. debug_reader (\<lambda>i. if i < n then ShutdownRequest_new else sr) publishers (Suc n) 0 e = Some e'))) \<and>
    ((\<forall>n. arrivals n = []) \<longrightarrow> (\<forall>fuel. main_loop os ra cfg fuel 0 ShutdownRequest_new d = Unfinished))"
proof (intro conjI impI allI)
  show "received_signal arrivals n \<noteq> None" for n using received_last [OF assms(2)] by simp
  then have ra: "\<forall>n. received_signal arrivals n = Some (ra_signal ra n)" using assms(3) by auto
  show "main_loop os ra cfg fuel 0 ShutdownRequest_new d = Unfinished" if "\<forall>n. arrivals n = []" for fuel
    using main_loop_unended [OF assms(1)] no_signal_before [OF ra] that by blast
  assume last: "arrivals m \<noteq> [] \<and> (\<forall>n > m. arrivals n = [])"
  note seen = last_signal_seen [OF assms(2) ra conjunct1 [OF last] conjunct2 [OF last]]
  define k where "k = (LEAST j. \<not> no_signal ra j)"
  have k: "\<not> no_signal ra k" "k \<le> (m + 1) div 2" "\<forall>j < k. no_signal ra j"
    using LeastI [of "\<lambda>j. \<not> no_signal ra j", OF seen] Least_le [of "\<lambda>j. \<not> no_signal ra j", OF seen] not_less_Least
    by (auto simp: k_def)
  have low: "a div 2 \<le> k" using no_signal_before [OF ra assms(4), of k] k(1) by linarith
  let ?sr = "request (if ra_signal ra (2 * k) = SIGINT then SignalInterrupt else SignalTerminate) ShutdownRequest_new"
  have req: "isRequested ?sr" "sr_reason ?sr = (if ra_signal ra (2 * k) = SIGINT then SignalInterrupt else SignalTerminate)"
    by (simp_all add: request_def isRequested_def ShutdownRequest_new_def)
  have "\<exists>e'. debug_reader (\<lambda>i. if i < n then ShutdownRequest_new else ?sr) publishers (Suc n) 0 e = Some e'" for n publishers e
    using req(1) by (intro debug_reader_ends) (simp_all add: isRequested_def ShutdownRequest_new_def)
  moreover obtain d' where "main_loop os ra cfg (Suc k) 0 ShutdownRequest_new d = Delivered (k, ?sr, d')"
    "tl_tick_count (dm_telemetry d') = tl_tick_count (dm_telemetry d) + of_nat k"
    using main_loop_signal [OF assms(1) k(3,1), of os cfg d] by blast
  moreover have "sr_reason ?sr = SignalInterrupt \<and> SIGINT \<in> delivered_by arrivals (2 * k) \<or>
      sr_reason ?sr = SignalTerminate \<and> SIGTERM \<in> delivered_by arrivals (2 * k + 1)"
    using seen_was_delivered [OF assms(2) ra k(1)] req(2) by presburger
  ultimately show "\<exists>k sr d'. a div 2 \<le> k \<and> k \<le> (m + 1) div 2 \<and>
        main_loop os ra cfg (Suc k) 0 ShutdownRequest_new d = Delivered (k, sr, d') \<and>
        tl_tick_count (dm_telemetry d') = tl_tick_count (dm_telemetry d) + of_nat k \<and>
        (sr_reason sr = SignalInterrupt \<and> SIGINT \<in> delivered_by arrivals (2 * k) \<or>
         sr_reason sr = SignalTerminate \<and> SIGTERM \<in> delivered_by arrivals (2 * k + 1)) \<and>
        (\<forall>n publishers e. \<exists>e'. debug_reader (\<lambda>i. if i < n then ShutdownRequest_new else sr) publishers (Suc n) 0 e = Some e')"
    using low k(2) by blast
qed

section \<open>Example\<close>

text \<open>The run in which SIGTERM arrives before the fourth read.\<close>

theorem signals_stop_main_loop_witness:
  "\<exists>d k sr d'. daemon_boot os_demo (cv_config demo_server) env_demo world_demo = Delivered (Started d) \<and> k \<in> {1, 2} \<and>
     main_loop os_demo run_demo (cv_config demo_server) (Suc k) 0 ShutdownRequest_new d = Delivered (k, sr, d') \<and>
     sr_reason sr = SignalTerminate"
proof -
  obtain d where d: "daemon_boot os_demo (cv_config demo_server) env_demo world_demo = Delivered (Started d)" using boot_demo by blast
  let ?a = "\<lambda>n::nat. if n = 3 then [SIGTERM] else []"
  have set: "\<forall>n. set (?a n) \<subseteq> {SIGINT, SIGTERM}" by auto
  have "received_signal ?a n = Some (ra_signal run_demo n)" for n
    using received_after [OF set, of 3 n] received_before [of n ?a] by (cases "n < 3") (simp_all add: run_demo_def)
  then have ra: "\<forall>n. received_signal ?a n \<noteq> None \<longrightarrow> ra_signal run_demo n = the (received_signal ?a n)" by simp
  have rely: "rely run_demo" by (simp add: rely_def run_demo_def)
  have none: "SIGINT \<notin> delivered_by ?a n" for n by (simp add: delivered_by_def SIGINT_def SIGTERM_def)
  obtain k sr d' where k: "3 div 2 \<le> k" "k \<le> (3 + 1) div 2"
      "main_loop os_demo run_demo (cv_config demo_server) (Suc k) 0 ShutdownRequest_new d = Delivered (k, sr, d')"
      "sr_reason sr = SignalInterrupt \<and> SIGINT \<in> delivered_by ?a (2 * k) \<or>
       sr_reason sr = SignalTerminate \<and> SIGTERM \<in> delivered_by ?a (2 * k + 1)"
    using signals_stop_main_loop [OF rely set ra, of 3 3 os_demo "cv_config demo_server" d] by auto
  then have "k \<in> {1, 2}" "sr_reason sr = SignalTerminate" using none by auto
  then show ?thesis using d k(3) by blast
qed

end
