(* ===== verification/Process_Exit.thy ===== *)
theory Process_Exit
  imports Daemon_Main
begin

text \<open>
  How the process ends (daemon/main.cpp): every way out of \<^verbatim>\<open>main\<close>, with the command-line client, the search for the
  configuration file, the start, the main loop and the shutdown composed.
\<close>

text \<open>The client got an answer, and it is not a JSON object whose status is another string than \<^verbatim>\<open>ok\<close>.\<close>

definition client_succeeds :: "'j json_api \<Rightarrow> cli_answers \<Rightarrow> bool" where
  "client_succeeds api cli \<longleftrightarrow> 0 \<le> ca_socket cli \<and> 0 \<le> ca_connect cli \<and>
     (\<exists>answer. read_response (ca_reads cli) [] = Some answer \<and> answer \<noteq> [] \<and> verdict api answer \<noteq> StatusOther)"

lemma client_verdict:
  "executeControlCommand api cli command e = None \<Longrightarrow> read_response (ca_reads cli) [] = None"
  "executeControlCommand api cli command e = Some (ok, sent, leaked, e') \<Longrightarrow> ok = client_succeeds api cli"
  by (auto simp: executeControlCommand_def client_succeeds_def Let_def split: if_splits option.splits cli_verdict.splits)

lemma main_client:
  "edgenetswitch_main api cli os ra cwd files fuel (command # rest) e w =
     (case executeControlCommand api cli (cli_command command rest) (log_init Info False e) of
        None \<Rightarrow> Unended
      | Some (ok, sent, leaked, e) \<Rightarrow> Exits (if ok then 0 else 1) (log_shutdown e) w)"
  by (simp add: edgenetswitch_main_def)

text \<open>The daemon: how the start ends decides.\<close>

lemma run_daemon_cases:
  "case daemon_boot os cfg e w of
     Raised ex \<Rightarrow> run_daemon os ra cfg fuel e w = Terminates (Some ex)
   | Unfinished \<Rightarrow> False
   | Delivered (GivenUp d) \<Rightarrow> \<not> fd_valid (dm_control d) \<and> run_daemon os ra cfg fuel e w = Terminates None
   | Delivered (Started d) \<Rightarrow> fd_valid (dm_control d) \<and> (\<forall>st e' w'. run_daemon os ra cfg fuel e w = Exits st e' w' \<longrightarrow> st = 0)"
proof (cases "daemon_boot os cfg e w")
  case (Delivered b)
  show ?thesis
  proof (cases b)
    case (Started d)
    have "fd_valid (dm_control d)" using Delivered [unfolded Started] by (rule daemon_boot_cases) (simp add: register_fd_def)
    moreover have "st = 0" if "run_daemon os ra cfg fuel e w = Exits st e' w'" for st e' w'
      using that by (auto simp: run_daemon_def Delivered Started daemon_end_def leave_scope_def Let_def
          split: delivery.splits prod.splits if_splits)
    ultimately show ?thesis by (simp add: Delivered Started)
  next
    case (GivenUp d)
    note d = daemon_boot_given_up [OF Delivered [unfolded GivenUp]]
    then show ?thesis by (simp add: Delivered GivenUp run_daemon_def give_up_def leave_scope_def)
  qed
qed (use daemon_boot_finishes in \<open>simp_all add: run_daemon_def\<close>)

text \<open>The environment in which the start begins.\<close>

definition daemon_log :: "os_answers \<Rightarrow> Config \<Rightarrow> env \<Rightarrow> env" where
  "daemon_log os cfg e = log_info ''EdgeNetSwitch daemon starting...''
     (log_init (parseLevel (lc_level (cfg_log cfg))) (os_file_open os (lc_file (cfg_log cfg))) e)"

section \<open>Properties\<close>

text \<open>
  \<^bold>\<open>C22\<close> The exit status of the process. Called with arguments it never opens the daemon's descriptors nor raises; when
  the answer ends it exits with 0 if the client was connected and got an answer that is no JSON object with another
  status than \<^verbatim>\<open>ok\<close>, and with 1 otherwise. Called without arguments it terminates with the exception of the loader
  when the configuration cannot be loaded, in particular with one that names every path tried when no file opens;
  otherwise the start decides: it terminates with the exception that a component raises during the start; without a valid
  control socket it terminates without an exception, because \<^verbatim>\<open>main\<close> then returns past an export manager whose
  thread is joinable, so that the status 1 it means to return is never seen; and after a complete start, if it exits, the
  status is 0.
\<close>

theorem main_exit_status:
  "(\<forall>command rest. args = command # rest \<longrightarrow> read_response (ca_reads cli) [] \<noteq> None \<longrightarrow>
      (\<exists>e'. edgenetswitch_main api cli os ra cwd files fuel args e w = Exits (if client_succeeds api cli then 0 else 1) e' w)) \<and>
   (\<forall>tried. args = [] \<longrightarrow> candidates cwd ''config/edgenetswitch.json'' = Inr tried \<longrightarrow> (\<forall>c \<in> set tried. files c = None) \<longrightarrow>
      edgenetswitch_main api cli os ra cwd files fuel args e w =
        Terminates (Some (RuntimeError (not_found_message ''config/edgenetswitch.json'' tried)))) \<and>
   (args = [] \<longrightarrow>
      (let result = edgenetswitch_main api cli os ra cwd files fuel args e w in
       case loadFromFile api cwd files ''config/edgenetswitch.json'' e of
         (Inl ex, e1) \<Rightarrow> result = Terminates (Some ex)
       | (Inr cfg, e1) \<Rightarrow>
           (case daemon_boot os cfg (daemon_log os cfg e1) w of
              Raised ex \<Rightarrow> result = Terminates (Some ex)
            | Unfinished \<Rightarrow> False
            | Delivered (GivenUp d) \<Rightarrow> \<not> fd_valid (dm_control d) \<and> result = Terminates None
            | Delivered (Started d) \<Rightarrow> fd_valid (dm_control d) \<and> (\<forall>st e' w'. result = Exits st e' w' \<longrightarrow> st = 0))))"
proof (intro conjI allI impI)
  fix command rest
  assume a: "args = command # rest" and r: "read_response (ca_reads cli) [] \<noteq> None"
  then obtain ok sent leaked e' where x: "executeControlCommand api cli (cli_command command rest) (log_init Info False e) = Some (ok, sent, leaked, e')"
    using client_verdict(1) [of api cli] by (metis not_None_eq prod_cases4)
  show "\<exists>e'. edgenetswitch_main api cli os ra cwd files fuel args e w = Exits (if client_succeeds api cli then 0 else 1) e' w"
    unfolding a main_client x client_verdict(2) [OF x, symmetric] by simp
next
  fix tried
  assume "args = []" "candidates cwd ''config/edgenetswitch.json'' = Inr tried" "\<forall>c \<in> set tried. files c = None"
  then show "edgenetswitch_main api cli os ra cwd files fuel args e w =
      Terminates (Some (RuntimeError (not_found_message ''config/edgenetswitch.json'' tried)))"
    using load_not_found [of cwd "''config/edgenetswitch.json''" tried files api e] by (simp add: edgenetswitch_main_def)
next
  assume a: "args = []"
  obtain r e1 where l: "loadFromFile api cwd files ''config/edgenetswitch.json'' e = (r, e1)" by fastforce
  show "let result = edgenetswitch_main api cli os ra cwd files fuel args e w in
       case loadFromFile api cwd files ''config/edgenetswitch.json'' e of
         (Inl ex, e1) \<Rightarrow> result = Terminates (Some ex)
       | (Inr cfg, e1) \<Rightarrow>
           (case daemon_boot os cfg (daemon_log os cfg e1) w of
              Raised ex \<Rightarrow> result = Terminates (Some ex)
            | Unfinished \<Rightarrow> False
            | Delivered (GivenUp d) \<Rightarrow> \<not> fd_valid (dm_control d) \<and> result = Terminates None
            | Delivered (Started d) \<Rightarrow> fd_valid (dm_control d) \<and> (\<forall>st e' w'. result = Exits st e' w' \<longrightarrow> st = 0))"
  proof (cases r)
    case (Inr cfg)
    have "edgenetswitch_main api cli os ra cwd files fuel args e w = run_daemon os ra cfg fuel (daemon_log os cfg e1) w"
      by (simp add: a edgenetswitch_main_def l Inr daemon_log_def)
    with run_daemon_cases [of os ra cfg fuel "daemon_log os cfg e1" w] show ?thesis by (simp add: l Inr)
  qed (simp add: a edgenetswitch_main_def l)
qed

theorem main_exit_status_witness:
  "(\<exists>e'. edgenetswitch_main demo_api \<lparr>ca_socket = 5, ca_connect = -1, ca_reads = [(0, [])]\<rparr> os_demo run_demo (Inr [''home'']) Map.empty 2
      [''status''] env_demo world_demo = Exits 1 e' world_demo) \<and>
   edgenetswitch_main demo_api \<lparr>ca_socket = 5, ca_connect = 0, ca_reads = [(0, [])]\<rparr> os_demo run_demo (Inr [''home'']) Map.empty 2
      [] env_demo world_demo = Terminates (Some (RuntimeError (not_found_message ''config/edgenetswitch.json''
        [''/home/config/edgenetswitch.json'', ''/config/edgenetswitch.json''])))"
proof
  show "\<exists>e'. edgenetswitch_main demo_api \<lparr>ca_socket = 5, ca_connect = -1, ca_reads = [(0, [])]\<rparr> os_demo run_demo (Inr [''home'']) Map.empty 2
      [''status''] env_demo world_demo = Exits 1 e' world_demo"
    using main_exit_status [of "[''status'']" "\<lparr>ca_socket = 5, ca_connect = -1, ca_reads = [(0, [])]\<rparr>" demo_api os_demo run_demo
        "Inr [''home'']" Map.empty 2 env_demo world_demo]
    by (simp add: client_succeeds_def)
  have c: "candidates (Inr [''home'']) ''config/edgenetswitch.json'' = Inr [''/home/config/edgenetswitch.json'', ''/config/edgenetswitch.json'']"
    by (simp add: candidates_def is_absolute_def candidates_up_prefixes dir_string_def)
  show "edgenetswitch_main demo_api \<lparr>ca_socket = 5, ca_connect = 0, ca_reads = [(0, [])]\<rparr> os_demo run_demo (Inr [''home'']) Map.empty 2
      [] env_demo world_demo = Terminates (Some (RuntimeError (not_found_message ''config/edgenetswitch.json''
        [''/home/config/edgenetswitch.json'', ''/config/edgenetswitch.json''])))"
    using main_exit_status [of "[]" "\<lparr>ca_socket = 5, ca_connect = 0, ca_reads = [(0, [])]\<rparr>" demo_api os_demo run_demo
        "Inr [''home'']" Map.empty 2 env_demo world_demo] c by simp
qed

end
