(* ===== verification/Stats_Concurrency.thy ===== *)
theory Stats_Concurrency
  imports Packet_Stats
begin

text \<open>
  The packet statistics under concurrency (packet/PacketStats.cpp). The callbacks of \<^verbatim>\<open>PacketStats\<close> run in several
  threads; those for terminal messages hold \<^verbatim>\<open>lifecycle_mutex_\<close>, the two others are one atomic addition, and
  \<^verbatim>\<open>snapshotAt\<close> loads some counters before, some while and some after it holds the mutex. Here every atomic
  operation is a step of its own, any number of threads are in callbacks, and one thread takes snapshots. Each
  atomic operation is taken to act on one shared memory in some order.
\<close>

section \<open>Definitions\<close>

datatype stats_counter =
    C_rx_packets | C_rx_bytes | C_ingress | C_processed | C_terminal | C_duplicate
  | C_drop PacketDropReason | C_total_latency | C_samples | C_udp_drain

fun fetch_add :: "stats_counter \<Rightarrow> u64 \<Rightarrow> PacketStats \<Rightarrow> PacketStats" where
  "fetch_add C_rx_packets n s = s\<lparr>ps_rx_packets := ps_rx_packets s + n\<rparr>"
| "fetch_add C_rx_bytes n s = s\<lparr>ps_rx_bytes := ps_rx_bytes s + n\<rparr>"
| "fetch_add C_ingress n s = s\<lparr>ps_ingress_packets := ps_ingress_packets s + n\<rparr>"
| "fetch_add C_processed n s = s\<lparr>ps_processed_packets := ps_processed_packets s + n\<rparr>"
| "fetch_add C_terminal n s = s\<lparr>ps_terminal_events := ps_terminal_events s + n\<rparr>"
| "fetch_add C_duplicate n s = s\<lparr>ps_duplicate_events := ps_duplicate_events s + n\<rparr>"
| "fetch_add (C_drop r) n s = s\<lparr>ps_drop_counters := hmap_assign r
     ((case map_of (ps_drop_counters s) r of None \<Rightarrow> 0 | Some c \<Rightarrow> c) + n) (ps_drop_counters s)\<rparr>"
| "fetch_add C_total_latency n s = s\<lparr>ps_total_processing_latency_ns := ps_total_processing_latency_ns s + n\<rparr>"
| "fetch_add C_samples n s = s\<lparr>ps_latency_samples := ps_latency_samples s + n\<rparr>"
| "fetch_add C_udp_drain n s = s\<lparr>ps_udp_drain_completions := ps_udp_drain_completions s + n\<rparr>"

text \<open>
  The operations of a callback. \<open>Insert\<close> adds an identity to the completed ones and goes on with its list, or counts a
  duplicate; \<open>ReadClock\<close> reads the clock and decides about the latency; \<open>CompareMax\<close> loads the maximum.
\<close>

datatype stats_op =
    Lock | Unlock
  | Insert u64 "stats_op list"
  | FetchAdd stats_counter u64
  | ReadClock Packet
  | CompareMax u64
  | StoreMax u64

definition callback_ops :: "Message \<Rightarrow> stats_op list" where
  "callback_ops msg =
     (case m_type msg of
        T_PacketProcessed \<Rightarrow>
          (case get_if_packet (m_payload msg) of
             None \<Rightarrow> []
           | Some p \<Rightarrow> [Lock, Insert (pk_lifecycle_id p)
               [FetchAdd C_rx_packets 1, FetchAdd C_rx_bytes (ucast (pk_payload_size p)), FetchAdd C_processed 1,
                FetchAdd C_terminal 1, ReadClock p], Unlock])
      | T_PacketDropped \<Rightarrow>
          (case get_if_dropped (m_payload msg) of
             None \<Rightarrow> []
           | Some d \<Rightarrow> [Lock, Insert (pd_lifecycle_id d)
               [FetchAdd (C_drop (pd_reason d)) 1, FetchAdd C_terminal 1], Unlock])
      | T_PacketRx \<Rightarrow> [FetchAdd C_ingress 1]
      | T_IngressIdlePoll \<Rightarrow> [FetchAdd C_udp_drain 1]
      | _ \<Rightarrow> [])"

text \<open>The effect of an operation on the counters and the clock, and what has to be done before the rest.\<close>

fun do_op :: "stats_op \<Rightarrow> PacketStats \<times> env \<Rightarrow> (PacketStats \<times> env) \<times> stats_op list" where
  "do_op Lock (s, e) = ((s, e), [])"
| "do_op Unlock (s, e) = ((s, e), [])"
| "do_op (Insert lifecycle_id ops) (s, e) =
     (if lifecycle_id \<in> ps_completed_lifecycles s then ((s, e), [FetchAdd C_duplicate 1])
      else ((s\<lparr>ps_completed_lifecycles := insert lifecycle_id (ps_completed_lifecycles s)\<rparr>, e), ops))"
| "do_op (FetchAdd c n) (s, e) = ((fetch_add c n s, e), [])"
| "do_op (ReadClock p) (s, e) =
     (let (now_ns, e) = nowNs e in
      ((s, e), if pk_ingress_timestamp_ns p \<noteq> 0 \<and> now_ns \<ge> pk_ingress_timestamp_ns p
               then let latency_ns = now_ns - pk_ingress_timestamp_ns p
                    in [FetchAdd C_total_latency latency_ns, FetchAdd C_samples 1, CompareMax latency_ns]
               else []))"
| "do_op (CompareMax latency_ns) (s, e) =
     ((s, e), if latency_ns > ps_max_processing_latency_ns s then [StoreMax latency_ns] else [])"
| "do_op (StoreMax latency_ns) (s, e) = ((s\<lparr>ps_max_processing_latency_ns := latency_ns\<rparr>, e), [])"

text \<open>The loads of \<^verbatim>\<open>snapshotAt\<close>, in its order.\<close>

datatype stats_load =
    LoadRx | LoadBytes | LoadIngress | LockSnapshot | LoadProcessed | LoadTerminal | LoadDuplicate | LoadDrops
  | UnlockSnapshot | LoadTotal | LoadMaximum | LoadSamples | LoadDrain

definition snapshot_loads :: "stats_load list" where
  "snapshot_loads = [LoadRx, LoadBytes, LoadIngress, LockSnapshot, LoadProcessed, LoadTerminal, LoadDuplicate, LoadDrops,
     UnlockSnapshot, LoadTotal, LoadMaximum, LoadSamples, LoadDrain]"

text \<open>A load copies a counter into the reader's variables; \<^verbatim>\<open>drop_counters_\<close> is read under the mutex only.\<close>

fun do_load :: "stats_load \<Rightarrow> PacketStats \<Rightarrow> PacketStats \<Rightarrow> PacketStats" where
  "do_load LoadRx s v = v\<lparr>ps_rx_packets := ps_rx_packets s\<rparr>"
| "do_load LoadBytes s v = v\<lparr>ps_rx_bytes := ps_rx_bytes s\<rparr>"
| "do_load LoadIngress s v = v\<lparr>ps_ingress_packets := ps_ingress_packets s\<rparr>"
| "do_load LockSnapshot s v = v"
| "do_load LoadProcessed s v = v\<lparr>ps_processed_packets := ps_processed_packets s\<rparr>"
| "do_load LoadTerminal s v = v\<lparr>ps_terminal_events := ps_terminal_events s\<rparr>"
| "do_load LoadDuplicate s v = v\<lparr>ps_duplicate_events := ps_duplicate_events s\<rparr>"
| "do_load LoadDrops s v = v\<lparr>ps_drop_counters := ps_drop_counters s\<rparr>"
| "do_load UnlockSnapshot s v = v"
| "do_load LoadTotal s v = v\<lparr>ps_total_processing_latency_ns := ps_total_processing_latency_ns s\<rparr>"
| "do_load LoadMaximum s v = v\<lparr>ps_max_processing_latency_ns := ps_max_processing_latency_ns s\<rparr>"
| "do_load LoadSamples s v = v\<lparr>ps_latency_samples := ps_latency_samples s\<rparr>"
| "do_load LoadDrain s v = v\<lparr>ps_udp_drain_completions := ps_udp_drain_completions s\<rparr>"

text \<open>
  The system: the counters, the holder of the mutex, what each thread has still to do of its callback, the reader's
  remaining loads and variables. The calls begun, the calls in the order in which they took effect, and how
  many had done so when the reader took the mutex are history.
\<close>

datatype mutex_holder = Callback nat | Snapshot

record stats_system =
  ss_state :: "PacketStats \<times> env"
  ss_mutex :: "mutex_holder option"
  ss_msg :: "nat \<Rightarrow> Message"
  ss_ops :: "nat \<Rightarrow> stats_op list"
  ss_loads :: "stats_load list"
  ss_seen :: PacketStats
  ss_calls :: "(nat \<times> Message) list"
  ss_effects :: "(nat \<times> Message) list"
  ss_cut :: nat

definition begin_call :: "nat \<Rightarrow> Message \<Rightarrow> stats_system \<Rightarrow> stats_system" where
  "begin_call i m x = x\<lparr>ss_msg := (ss_msg x)(i := m), ss_ops := (ss_ops x)(i := callback_ops m), ss_calls := ss_calls x @ [(i, m)]\<rparr>"

definition callback_move :: "nat \<Rightarrow> stats_system \<Rightarrow> stats_system option" where
  "callback_move i x =
     (case ss_ops x i of
        [] \<Rightarrow> None
      | Lock # ops \<Rightarrow>
          if ss_mutex x = None
          then Some (x\<lparr>ss_mutex := Some (Callback i), ss_ops := (ss_ops x)(i := ops), ss_effects := ss_effects x @ [(i, ss_msg x i)]\<rparr>)
          else None
      | Unlock # ops \<Rightarrow> Some (x\<lparr>ss_mutex := None, ss_ops := (ss_ops x)(i := ops)\<rparr>)
      | a # ops \<Rightarrow>
          let (se, first) = do_op a (ss_state x) in
          Some (x\<lparr>ss_state := se, ss_ops := (ss_ops x)(i := first @ ops),
                  ss_effects := ss_effects x @ (if ss_mutex x = Some (Callback i) then [] else [(i, ss_msg x i)])\<rparr>))"

definition reader_move :: "stats_system \<Rightarrow> stats_system option" where
  "reader_move x =
     (case ss_loads x of
        [] \<Rightarrow> Some (x\<lparr>ss_loads := snapshot_loads\<rparr>)
      | LockSnapshot # ls \<Rightarrow>
          if ss_mutex x = None then Some (x\<lparr>ss_mutex := Some Snapshot, ss_loads := ls, ss_cut := length (ss_effects x)\<rparr>) else None
      | UnlockSnapshot # ls \<Rightarrow> Some (x\<lparr>ss_mutex := None, ss_loads := ls\<rparr>)
      | l # ls \<Rightarrow> Some (x\<lparr>ss_seen := do_load l (fst (ss_state x)) (ss_seen x), ss_loads := ls\<rparr>))"

definition stats_step :: "stats_system \<Rightarrow> stats_system \<Rightarrow> bool" where
  "stats_step x y \<longleftrightarrow>
     (\<exists>i m. ss_ops x i = [] \<and> well_typed m \<and> callback_ops m \<noteq> [] \<and> y = begin_call i m x) \<or> (\<exists>i. callback_move i x = Some y) \<or> reader_move x = Some y"

definition stats_start :: "stats_system \<Rightarrow> bool" where
  "stats_start x \<longleftrightarrow> fst (ss_state x) = PacketStats_new \<and> ss_mutex x = None \<and> (\<forall>i. ss_ops x i = []) \<and> ss_loads x = [] \<and>
     ss_seen x = PacketStats_new \<and> ss_calls x = [] \<and> ss_effects x = [] \<and> ss_cut x = 0"

section \<open>A callback alone\<close>

fun op_weight :: "stats_op \<Rightarrow> nat" where
  "op_weight (Insert lifecycle_id ops) = 2 + sum_list (map op_weight ops)"
| "op_weight (ReadClock p) = 6"
| "op_weight (CompareMax n) = 2"
| "op_weight _ = 1"

lemma do_op_weight: "do_op a se = (se', first) \<Longrightarrow> sum_list (map op_weight first) < op_weight a"
  by (cases a; cases se) (auto simp: Let_def split_beta split: if_splits)

function run_ops :: "stats_op list \<Rightarrow> PacketStats \<times> env \<Rightarrow> PacketStats \<times> env" where
  "run_ops [] se = se"
| "run_ops (a # ops) se = (let (se', first) = do_op a se in run_ops (first @ ops) se')"
  by pat_completeness auto
termination
  by (relation "measure (\<lambda>(ops, se). sum_list (map op_weight ops))") (auto dest!: do_op_weight [OF sym])

lemma callback_handles:
  assumes "well_typed m" and "callback_ops m \<noteq> []"
  shows "stats_handle m se = Inr (run_ops (callback_ops m) se)"
proof (cases se)
  case (Pair s e)
  show ?thesis
    using assms
    by (auto simp: Pair stats_handle_def callback_ops_def onPacketProcessed_def onPacketDropped_def onPacketRx_def
        onIngressIdlePoll_def variant_get_def record_latency_def bump_drop_def well_typed_def Let_def split_beta
        dest: get_if_packet_typed split: MessageType.splits option.splits)
qed

fun plain_op :: "stats_op \<Rightarrow> bool" where
  "plain_op Lock = False"
| "plain_op Unlock = False"
| "plain_op (Insert lifecycle_id ops) = list_all plain_op ops"
| "plain_op (FetchAdd c n) = (c = C_rx_packets \<longrightarrow> n = 1)"
| "plain_op _ = True"

lemma do_op_plain: "plain_op a \<Longrightarrow> do_op a se = (se', first) \<Longrightarrow> list_all plain_op first"
  by (cases a; cases se) (auto simp: Let_def split_beta split: if_splits)

definition free_counter :: "stats_counter \<Rightarrow> bool" where
  "free_counter c \<longleftrightarrow> c \<in> {C_ingress, C_udp_drain}"

text \<open>A callback for a terminal message is one critical section; the others are one addition.\<close>

lemma callback_shape:
  assumes "well_typed m" and "callback_ops m \<noteq> []"
  obtains (critical) body where "callback_ops m = Lock # body @ [Unlock]" "list_all plain_op body"
  | (addition) c where "callback_ops m = [FetchAdd c 1]" "free_counter c"
  using assms
  by (auto simp: callback_ops_def well_typed_def free_counter_def split: MessageType.splits option.splits)

text \<open>The additions outside the mutex commute with everything a callback does.\<close>

lemma do_op_free:
  assumes "free_counter c"
  shows "do_op a (fetch_add c n s, e) = apfst (apfst (fetch_add c n)) (do_op a (s, e))"
proof (cases a)
  case (FetchAdd d k)
  then show ?thesis using assms by (cases d) (auto simp: free_counter_def add.commute add.left_commute)
qed (use assms in \<open>auto simp: free_counter_def Let_def split_beta\<close>)

lemma run_ops_free:
  "free_counter c \<Longrightarrow> run_ops ops (fetch_add c n s, e) = apfst (fetch_add c n) (run_ops ops (s, e))"
proof (induction ops "(s, e)" arbitrary: s e rule: run_ops.induct)
  case (2 a ops)
  obtain s' e' first where d: "do_op a (s, e) = ((s', e'), first)" by (metis prod.collapse)
  show ?case using 2(1) [OF d [symmetric] refl 2(2)] do_op_free [OF 2(2), of a n s e] d by simp
qed simp

section \<open>Interleavings are equivalent to sequences of callbacks\<close>

lemma callback_moveE:
  assumes "callback_move i x = Some y"
  obtains (acquire) ops where "ss_ops x i = Lock # ops" "ss_mutex x = None"
      "y = x\<lparr>ss_mutex := Some (Callback i), ss_ops := (ss_ops x)(i := ops), ss_effects := ss_effects x @ [(i, ss_msg x i)]\<rparr>"
  | (release) ops where "ss_ops x i = Unlock # ops" "y = x\<lparr>ss_mutex := None, ss_ops := (ss_ops x)(i := ops)\<rparr>"
  | (operate) a ops se first where "ss_ops x i = a # ops" "a \<noteq> Lock" "a \<noteq> Unlock" "do_op a (ss_state x) = (se, first)"
      "y = x\<lparr>ss_state := se, ss_ops := (ss_ops x)(i := first @ ops),
         ss_effects := ss_effects x @ (if ss_mutex x = Some (Callback i) then [] else [(i, ss_msg x i)])\<rparr>"
  using assms by (auto simp: callback_move_def split: list.splits stats_op.splits if_splits prod.splits)

lemma reader_moveE:
  assumes "reader_move x = Some y"
  obtains (restart) "ss_loads x = []" "y = x\<lparr>ss_loads := snapshot_loads\<rparr>"
  | (acquire) ls where "ss_loads x = LockSnapshot # ls" "ss_mutex x = None"
      "y = x\<lparr>ss_mutex := Some Snapshot, ss_loads := ls, ss_cut := length (ss_effects x)\<rparr>"
  | (release) ls where "ss_loads x = UnlockSnapshot # ls" "y = x\<lparr>ss_mutex := None, ss_loads := ls\<rparr>"
  | (load) l ls where "ss_loads x = l # ls" "l \<noteq> LockSnapshot" "l \<noteq> UnlockSnapshot"
      "y = x\<lparr>ss_seen := do_load l (fst (ss_state x)) (ss_seen x), ss_loads := ls\<rparr>"
  using assms by (auto simp: reader_move_def split: list.splits stats_load.splits if_splits)

definition calls_of :: "nat \<Rightarrow> (nat \<times> Message) list \<Rightarrow> Message list" where
  "calls_of i cs = map snd (filter (\<lambda>(j, m). j = i) cs)"

lemma calls_of_append [simp]: "calls_of i (cs @ ds) = calls_of i cs @ calls_of i ds"
  by (simp add: calls_of_def)

lemma calls_of_single [simp]: "calls_of i [] = []" "calls_of i [(j, m)] = (if j = i then [m] else [])"
  by (simp_all add: calls_of_def)

text \<open>The counters when the callback that holds the mutex has come to its end.\<close>

definition settled :: "stats_system \<Rightarrow> PacketStats \<times> env" where
  "settled x = (case ss_mutex x of Some (Callback i) \<Rightarrow> run_ops (ss_ops x i) (ss_state x) | _ \<Rightarrow> ss_state x)"

definition not_begun :: "stats_system \<Rightarrow> nat \<Rightarrow> bool" where
  "not_begun x i \<longleftrightarrow> ss_ops x i = callback_ops (ss_msg x i) \<and> ss_ops x i \<noteq> [] \<and> well_typed (ss_msg x i)"

definition thread_ok :: "stats_system \<Rightarrow> nat \<Rightarrow> bool" where
  "thread_ok x i \<longleftrightarrow>
     (if ss_mutex x = Some (Callback i)
      then (\<exists>body. ss_ops x i = body @ [Unlock] \<and> list_all plain_op body) \<and> calls_of i (ss_calls x) = calls_of i (ss_effects x)
      else ss_ops x i = [] \<and> calls_of i (ss_calls x) = calls_of i (ss_effects x) \<or>
        not_begun x i \<and> calls_of i (ss_calls x) = calls_of i (ss_effects x) @ [ss_msg x i])"

definition lin_inv :: "env \<Rightarrow> stats_system \<Rightarrow> bool" where
  "lin_inv e x \<longleftrightarrow> stats_run (map snd (ss_effects x)) (PacketStats_new, e) = Inr (settled x) \<and> (\<forall>i. thread_ok x i)"

lemma stats_run_append:
  "stats_run ms se = Inr se' \<Longrightarrow> stats_run (ms @ ns) se = stats_run ns se'"
  by (induction ms arbitrary: se) (auto split: sum.splits)

lemma stats_run_take:
  "stats_run ms se = Inr se' \<Longrightarrow> \<exists>t. stats_run (take k ms) se = Inr t"
proof (induction ms arbitrary: se k)
  case (Cons m ms)
  then show ?case by (cases k) (auto split: sum.splits)
qed simp

text \<open>Acquiring the mutex makes the whole callback take effect; what follows completes it.\<close>

lemma acquire_inv:
  assumes "lin_inv e x" and "ss_ops x i = Lock # ops" and "ss_mutex x = None"
  shows "lin_inv e (x\<lparr>ss_mutex := Some (Callback i), ss_ops := (ss_ops x)(i := ops), ss_effects := ss_effects x @ [(i, ss_msg x i)]\<rparr>)"
    (is "lin_inv e ?y")
proof -
  have ok: "thread_ok x j" for j using assms(1) by (simp add: lin_inv_def)
  then have nb: "not_begun x i" "calls_of i (ss_calls x) = calls_of i (ss_effects x) @ [ss_msg x i]"
    using assms(2,3) ok [of i] by (simp_all add: thread_ok_def)
  then have m: "well_typed (ss_msg x i)" "callback_ops (ss_msg x i) = Lock # ops" using assms(2) by (simp_all add: not_begun_def)
  have ne: "callback_ops (ss_msg x i) \<noteq> []" using m(2) by simp
  obtain body where body: "ops = body @ [Unlock]" "list_all plain_op body"
    by (rule callback_shape [OF m(1) ne]) (use m(2) in simp_all)
  have e: "stats_run (map snd (ss_effects x)) (PacketStats_new, e) = Inr (ss_state x)"
    using assms(1,3) by (auto simp: lin_inv_def settled_def)
  have "stats_handle (ss_msg x i) (ss_state x) = Inr (run_ops ops (ss_state x))"
    using callback_handles [OF m(1), of "ss_state x"] m(2) by (cases "ss_state x") simp
  then have "stats_run (map snd (ss_effects ?y)) (PacketStats_new, e) = Inr (settled ?y)"
    by (simp add: stats_run_append [OF e] settled_def)
  moreover have "thread_ok ?y j" for j
    using ok [of j] body nb(2) assms(3) by (auto simp: thread_ok_def not_begun_def)
  ultimately show ?thesis by (simp add: lin_inv_def)
qed

lemma release_inv:
  assumes "lin_inv e x" and "ss_ops x i = Unlock # ops"
  shows "lin_inv e (x\<lparr>ss_mutex := None, ss_ops := (ss_ops x)(i := ops)\<rparr>)" and "ss_mutex x = Some (Callback i)" and "ops = []"
proof -
  have ok: "thread_ok x j" for j using assms(1) by (simp add: lin_inv_def)
  show held: "ss_mutex x = Some (Callback i)"
  proof (rule ccontr)
    assume "ss_mutex x \<noteq> Some (Callback i)"
    then have m: "callback_ops (ss_msg x i) = Unlock # ops" "well_typed (ss_msg x i)"
      using ok [of i] assms(2) by (auto simp: thread_ok_def not_begun_def)
    then have "callback_ops (ss_msg x i) \<noteq> []" by simp
    from callback_shape [OF m(2) this] show False by cases (use m(1) in simp_all)
  qed
  then obtain body where "Unlock # ops = body @ [Unlock]" "list_all plain_op body"
    using ok [of i] assms(2) by (auto simp: thread_ok_def)
  then show ops: "ops = []" by (cases body) auto
  let ?y = "x\<lparr>ss_mutex := None, ss_ops := (ss_ops x)(i := ops)\<rparr>"
  have "settled ?y = settled x" using assms(2) held by (cases "ss_state x") (simp add: settled_def ops)
  moreover have "thread_ok ?y j" for j
    using ok [of j] held by (cases "j = i") (simp_all add: thread_ok_def not_begun_def ops)
  ultimately show "lin_inv e ?y" using assms(1) by (simp add: lin_inv_def)
qed

text \<open>An operation under the mutex is part of the callback's effect; one outside it takes effect at once.\<close>

lemma held_operate_inv:
  assumes "lin_inv e x" and "ss_ops x i = a # ops" and "a \<noteq> Unlock" and "do_op a (ss_state x) = (se, first)"
    and "ss_mutex x = Some (Callback i)"
  shows "lin_inv e (x\<lparr>ss_state := se, ss_ops := (ss_ops x)(i := first @ ops)\<rparr>)" (is "lin_inv e ?y")
proof -
  have ok: "thread_ok x j" for j using assms(1) by (simp add: lin_inv_def)
  obtain body where "a # ops = body @ [Unlock]" "list_all plain_op body"
    using ok [of i] assms(2,5) by (auto simp: thread_ok_def)
  then obtain body' where body: "ops = body' @ [Unlock]" "plain_op a" "list_all plain_op body'"
    using assms(3) by (cases body) auto
  have "first @ ops = (first @ body') @ [Unlock]" "list_all plain_op (first @ body')"
    using body do_op_plain [OF body(2) assms(4)] by simp_all
  then have crit: "\<exists>body. first @ ops = body @ [Unlock] \<and> list_all plain_op body" by blast
  have "settled ?y = settled x" using assms(2,4,5) by (simp add: settled_def)
  moreover have "thread_ok ?y j" for j
    using ok [of j] assms(5) crit by (cases "j = i") (simp_all add: thread_ok_def not_begun_def)
  ultimately show ?thesis using assms(1) by (simp add: lin_inv_def)
qed

lemma free_operation:
  assumes "lin_inv e x" and "ss_ops x i = a # ops" and "a \<noteq> Lock" and "ss_mutex x \<noteq> Some (Callback i)"
  obtains c where "a = FetchAdd c 1" "ops = []" "free_counter c" "not_begun x i" "callback_ops (ss_msg x i) = [FetchAdd c 1]"
proof -
  have nb: "not_begun x i" using assms by (auto simp: lin_inv_def thread_ok_def dest!: spec [of _ i])
  then have m: "callback_ops (ss_msg x i) = a # ops" "well_typed (ss_msg x i)" using assms(2) by (simp_all add: not_begun_def)
  then have ne: "callback_ops (ss_msg x i) \<noteq> []" by simp
  show thesis
    by (rule callback_shape [OF m(2) ne]) (use m(1) assms(3) that nb in auto)
qed

lemma free_operate_inv:
  assumes "lin_inv e x" and "ss_ops x i = a # ops" and "a \<noteq> Lock" and "do_op a (ss_state x) = (se, first)"
    and "ss_mutex x \<noteq> Some (Callback i)"
  shows "lin_inv e (x\<lparr>ss_state := se, ss_ops := (ss_ops x)(i := first @ ops), ss_effects := ss_effects x @ [(i, ss_msg x i)]\<rparr>)"
    (is "lin_inv e ?y")
proof -
  have ok: "thread_ok x j" for j using assms(1) by (simp add: lin_inv_def)
  obtain c where c: "a = FetchAdd c 1" "ops = []" "free_counter c" "not_begun x i" "callback_ops (ss_msg x i) = [FetchAdd c 1]"
    by (rule free_operation [OF assms(1-3,5)])
  obtain s e0 where st: "ss_state x = (s, e0)" by (cases "ss_state x")
  then have se: "se = (fetch_add c 1 s, e0)" "first = []" using assms(4) c(1) by auto
  have e: "stats_run (map snd (ss_effects x)) (PacketStats_new, e) = Inr (settled x)"
    using assms(1) by (auto simp: lin_inv_def)
  have "stats_handle (ss_msg x i) (settled x) = Inr (apfst (fetch_add c 1) (settled x))"
    using callback_handles [of "ss_msg x i" "settled x"] c(4,5) by (cases "settled x") (simp add: not_begun_def)
  moreover have "settled ?y = apfst (fetch_add c 1) (settled x)"
    using assms(5) run_ops_free [OF c(3)] by (auto simp: settled_def st se(1) split: option.split mutex_holder.split)
  ultimately have "stats_run (map snd (ss_effects ?y)) (PacketStats_new, e) = Inr (settled ?y)"
    by (simp add: stats_run_append [OF e])
  moreover have "calls_of i (ss_calls x) = calls_of i (ss_effects x) @ [ss_msg x i]"
    using ok [of i] assms(2,5) by (simp add: thread_ok_def)
  then have "thread_ok ?y j" for j
    using ok [of j] assms(5) by (cases "j = i") (auto simp: thread_ok_def not_begun_def se(2) c(2) split: if_splits)
  ultimately show ?thesis by (simp add: lin_inv_def)
qed

lemma begin_inv:
  assumes "lin_inv e x" and "ss_ops x i = []" and "well_typed m" and "callback_ops m \<noteq> []"
  shows "lin_inv e (begin_call i m x)"
proof -
  have ok: "thread_ok x j" for j using assms(1) by (simp add: lin_inv_def)
  have held: "ss_mutex x \<noteq> Some (Callback i)" using ok [of i] assms(2) by (auto simp: thread_ok_def)
  have "settled (begin_call i m x) = settled x"
    using held by (auto simp: settled_def begin_call_def split: option.split mutex_holder.split)
  moreover have "thread_ok (begin_call i m x) j" for j
    using ok [of j] held assms(2-4) by (cases "j = i") (auto simp: thread_ok_def not_begun_def begin_call_def split: if_splits)
  ultimately show ?thesis using assms(1) by (simp add: lin_inv_def begin_call_def)
qed

text \<open>What only the holder of the mutex changes.\<close>

definition locked_part :: "PacketStats \<Rightarrow> u64 \<times> u64 \<times> u64 \<times> (PacketDropReason, u64) hmap" where
  "locked_part s = (ps_processed_packets s, ps_terminal_events s, ps_duplicate_events s, ps_drop_counters s)"

abbreviation counters :: "stats_system \<Rightarrow> PacketStats" where
  "counters x \<equiv> fst (ss_state x)"

lemma do_op_rx:
  assumes "do_op a (s, e) = ((s', e'), first)" and "plain_op a"
  shows "ps_rx_packets s' = ps_rx_packets s \<or> ps_rx_packets s' = ps_rx_packets s + 1"
proof (cases a)
  case (FetchAdd c n)
  then show ?thesis using assms by (cases c) auto
qed (use assms in \<open>auto simp: Let_def split_beta split: if_splits\<close>)

lemma free_add_parts:
  "free_counter c \<Longrightarrow> locked_part (fetch_add c n s) = locked_part s \<and> ps_rx_packets (fetch_add c n s) = ps_rx_packets s"
  by (auto simp: free_counter_def locked_part_def)

lemma callback_effect:
  assumes "lin_inv e x" and "callback_move i x = Some y"
  shows "lin_inv e y" and "ss_loads y = ss_loads x \<and> ss_seen y = ss_seen x \<and> ss_cut y = ss_cut x"
    and "\<exists>zs. ss_effects y = ss_effects x @ zs" and "ss_mutex y = Some Snapshot \<longleftrightarrow> ss_mutex x = Some Snapshot"
    and "ss_mutex x = Some Snapshot \<Longrightarrow> locked_part (counters y) = locked_part (counters x)"
    and "ps_rx_packets (counters y) = ps_rx_packets (counters x) \<or> ps_rx_packets (counters y) = ps_rx_packets (counters x) + 1"
proof -
  have "lin_inv e y \<and> (ss_loads y = ss_loads x \<and> ss_seen y = ss_seen x \<and> ss_cut y = ss_cut x) \<and>
    (\<exists>zs. ss_effects y = ss_effects x @ zs) \<and> (ss_mutex y = Some Snapshot \<longleftrightarrow> ss_mutex x = Some Snapshot) \<and>
    (ss_mutex x = Some Snapshot \<longrightarrow> locked_part (counters y) = locked_part (counters x)) \<and>
    (ps_rx_packets (counters y) = ps_rx_packets (counters x) \<or> ps_rx_packets (counters y) = ps_rx_packets (counters x) + 1)"
    using assms(2)
  proof (cases rule: callback_moveE)
    case (acquire ops)
    then show ?thesis using acquire_inv [OF assms(1) acquire(1,2)] by auto
  next
    case (release ops)
    then show ?thesis using release_inv [OF assms(1) release(1)] by auto
  next
    case (operate a ops se first)
    show ?thesis
    proof (cases "ss_mutex x = Some (Callback i)")
      case True
      have "thread_ok x i" using assms(1) by (simp add: lin_inv_def)
      then obtain body where "a # ops = body @ [Unlock]" "list_all plain_op body"
        using True operate(1) by (auto simp: thread_ok_def)
      then have "plain_op a" using operate(3) by (cases body) auto
      then show ?thesis
        using held_operate_inv [OF assms(1) operate(1,3,4) True] operate(4,5) True do_op_rx [of a "counters x" "snd (ss_state x)" "fst se" "snd se" first]
        by simp
    next
      case False
      obtain c where c: "a = FetchAdd c 1" "free_counter c" using free_operation [OF assms(1) operate(1,2) False] by metis
      then have "fst se = fetch_add c 1 (counters x)" using operate(4) by (cases "ss_state x") auto
      then show ?thesis
        using free_operate_inv [OF assms(1) operate(1,2,4) False] operate(5) False free_add_parts [OF c(2)] by simp
    qed
  qed
  then show "lin_inv e y" and "ss_loads y = ss_loads x \<and> ss_seen y = ss_seen x \<and> ss_cut y = ss_cut x"
    and "\<exists>zs. ss_effects y = ss_effects x @ zs" and "ss_mutex y = Some Snapshot \<longleftrightarrow> ss_mutex x = Some Snapshot"
    and "ss_mutex x = Some Snapshot \<Longrightarrow> locked_part (counters y) = locked_part (counters x)"
    and "ps_rx_packets (counters y) = ps_rx_packets (counters x) \<or> ps_rx_packets (counters y) = ps_rx_packets (counters x) + 1"
    by blast+
qed

section \<open>The snapshot\<close>

lemma snapshot_loads_at:
  assumes "ss_loads x = drop k snapshot_loads" and "ss_loads x = l # ls"
  shows "k < 13" and "ls = drop (Suc k) snapshot_loads" and "l = snapshot_loads ! k"
proof -
  have len: "length snapshot_loads = 13" by (simp add: snapshot_loads_def)
  show k: "k < 13" using assms len by (metis drop_eq_Nil leI list.distinct(1))
  have "drop k snapshot_loads = snapshot_loads ! k # drop (Suc k) snapshot_loads"
    using k by (simp add: Cons_nth_drop_Suc len)
  with assms show "ls = drop (Suc k) snapshot_loads" "l = snapshot_loads ! k" by simp_all
qed

lemma load_position:
  assumes "k < 13"
  shows "snapshot_loads ! k = LoadRx \<longleftrightarrow> k = 0" "snapshot_loads ! k = LockSnapshot \<longleftrightarrow> k = 3"
    "snapshot_loads ! k = LoadProcessed \<longleftrightarrow> k = 4" "snapshot_loads ! k = LoadTerminal \<longleftrightarrow> k = 5"
    "snapshot_loads ! k = LoadDuplicate \<longleftrightarrow> k = 6" "snapshot_loads ! k = LoadDrops \<longleftrightarrow> k = 7"
    "snapshot_loads ! k = UnlockSnapshot \<longleftrightarrow> k = 8"
proof -
  have "k \<in> {0, 1, 2, 3, 4, 5, 6, 7, 8, 9, 10, 11, 12}" using assms by (simp, arith)
  then show "snapshot_loads ! k = LoadRx \<longleftrightarrow> k = 0" "snapshot_loads ! k = LockSnapshot \<longleftrightarrow> k = 3"
    "snapshot_loads ! k = LoadProcessed \<longleftrightarrow> k = 4" "snapshot_loads ! k = LoadTerminal \<longleftrightarrow> k = 5"
    "snapshot_loads ! k = LoadDuplicate \<longleftrightarrow> k = 6" "snapshot_loads ! k = LoadDrops \<longleftrightarrow> k = 7"
    "snapshot_loads ! k = UnlockSnapshot \<longleftrightarrow> k = 8"
    by (auto simp: snapshot_loads_def)
qed

text \<open>The loads done under the mutex agree with the counters after the calls of the cut.\<close>

definition seen_agrees :: "nat \<Rightarrow> PacketStats \<Rightarrow> PacketStats \<Rightarrow> bool" where
  "seen_agrees k v s \<longleftrightarrow>
     (5 \<le> k \<longrightarrow> ps_processed_packets v = ps_processed_packets s) \<and> (6 \<le> k \<longrightarrow> ps_terminal_events v = ps_terminal_events s) \<and>
     (7 \<le> k \<longrightarrow> ps_duplicate_events v = ps_duplicate_events s) \<and> (8 \<le> k \<longrightarrow> ps_drop_counters v = ps_drop_counters s)"

definition at_cut :: "env \<Rightarrow> stats_system \<Rightarrow> PacketStats \<Rightarrow> bool" where
  "at_cut e x s \<longleftrightarrow> (\<exists>e'. stats_run (map snd (take (ss_cut x) (ss_effects x))) (PacketStats_new, e) = Inr (s, e'))"

definition reader_at :: "env \<Rightarrow> nat \<Rightarrow> stats_system \<Rightarrow> bool" where
  "reader_at e k x \<longleftrightarrow> k \<le> 13 \<and> ss_loads x = drop k snapshot_loads \<and> (ss_mutex x = Some Snapshot \<longleftrightarrow> 4 \<le> k \<and> k \<le> 8) \<and>
     ss_cut x \<le> length (ss_effects x) \<and>
     (4 \<le> k \<longrightarrow> (\<exists>s. at_cut e x s \<and> (k \<le> 8 \<longrightarrow> locked_part (counters x) = locked_part s) \<and> seen_agrees k (ss_seen x) s))"

lemma at_cut_extends:
  "ss_cut y = ss_cut x \<Longrightarrow> ss_effects y = ss_effects x @ zs \<Longrightarrow> ss_cut x \<le> length (ss_effects x) \<Longrightarrow> at_cut e y s \<longleftrightarrow> at_cut e x s"
  by (simp add: at_cut_def)

lemma free_mutex_settled:
  assumes "lin_inv e x" and "ss_mutex x = None"
  shows "stats_run (map snd (ss_effects x)) (PacketStats_new, e) = Inr (ss_state x)" and "stats_inv (counters x)"
proof -
  show run: "stats_run (map snd (ss_effects x)) (PacketStats_new, e) = Inr (ss_state x)"
    using assms by (simp add: lin_inv_def settled_def)
  show "stats_inv (counters x)" using stats_inv_run [OF _ stats_inv_new] run by (metis prod.collapse)
qed

lemma callback_reader:
  assumes "lin_inv e x" and "reader_at e k x" and "callback_move i x = Some y"
  shows "reader_at e k y"
proof -
  note eff = callback_effect [OF assms(1,3)]
  obtain zs where zs: "ss_effects y = ss_effects x @ zs" using eff(3) by blast
  have cut: "at_cut e y s \<longleftrightarrow> at_cut e x s" for s
    using at_cut_extends [OF _ zs] eff(2) assms(2) by (simp add: reader_at_def)
  have same: "locked_part (counters y) = locked_part (counters x)" if "4 \<le> k" "k \<le> 8"
    using eff(5) assms(2) that by (simp add: reader_at_def)
  show ?thesis using assms(2) eff(2,4) zs cut same unfolding reader_at_def by auto
qed

lemma begin_reader:
  assumes "reader_at e k x"
  shows "reader_at e k (begin_call i m x)"
  using assms by (simp add: reader_at_def begin_call_def at_cut_def)

lemma load_agrees:
  assumes "k < 13" and "l = snapshot_loads ! k" and "seen_agrees k v s"
    and "4 \<le> k \<and> k \<le> 8 \<longrightarrow> locked_part c = locked_part s"
  shows "seen_agrees (Suc k) (do_load l c v) s"
proof (cases "4 \<le> k \<and> k \<le> 7")
  case True
  then have "k \<in> {4, 5, 6, 7}" by (simp, arith)
  then show ?thesis
    using assms True by (auto simp: seen_agrees_def locked_part_def snapshot_loads_def)
next
  case False
  then have "l \<notin> {LoadProcessed, LoadTerminal, LoadDuplicate, LoadDrops}" using load_position [OF assms(1)] assms(2) by auto
  then show ?thesis using assms(3) False by (cases l) (auto simp: seen_agrees_def)
qed

text \<open>What the reader does leaves the callbacks and their effects alone.\<close>

lemma lin_inv_reader:
  assumes "lin_inv e x" and "ss_state y = ss_state x \<and> ss_msg y = ss_msg x \<and> ss_ops y = ss_ops x \<and> ss_calls y = ss_calls x \<and> ss_effects y = ss_effects x"
    and "\<forall>i. ss_mutex y = Some (Callback i) \<longleftrightarrow> ss_mutex x = Some (Callback i)"
  shows "lin_inv e y"
proof -
  have "settled y = settled x"
  proof (cases "\<exists>i. ss_mutex x = Some (Callback i)")
    case True
    then obtain i where "ss_mutex x = Some (Callback i)" by blast
    moreover from this have "ss_mutex y = Some (Callback i)" using assms(3) by blast
    ultimately show ?thesis using assms(2) by (simp add: settled_def)
  next
    case False
    then have "settled z = ss_state z" if "\<forall>i. ss_mutex z \<noteq> Some (Callback i)" for z
      using that by (simp add: settled_def split: option.split mutex_holder.split)
    then show ?thesis using False assms(2,3) by simp
  qed
  moreover have "thread_ok y i \<longleftrightarrow> thread_ok x i" for i using assms(2,3) by (simp add: thread_ok_def not_begun_def)
  ultimately show ?thesis using assms(1,2) by (simp add: lin_inv_def)
qed

lemma reader_reader:
  assumes "lin_inv e x" and "reader_at e k x" and "reader_move x = Some y"
  shows "lin_inv e y \<and> reader_at e (if k = 13 then 0 else Suc k) y"
  using assms(3)
proof (cases rule: reader_moveE)
  case restart
  have k: "k = 13" using assms(2) restart(1) by (auto simp: reader_at_def snapshot_loads_def)
  have "lin_inv e y" by (rule lin_inv_reader [OF assms(1)]) (simp_all add: restart(2))
  then show ?thesis using assms(2) k by (simp add: restart(2) reader_at_def)
next
  case (acquire ls)
  have loads: "ss_loads x = drop k snapshot_loads" using assms(2) by (simp add: reader_at_def)
  note pos = snapshot_loads_at [OF loads acquire(1)]
  have k: "k = 3" using load_position(2) [OF pos(1)] pos(3) by metis
  have lin: "lin_inv e y" by (rule lin_inv_reader [OF assms(1)]) (simp_all add: acquire(2,3))
  have "at_cut e y (counters x)"
    using free_mutex_settled(1) [OF assms(1) acquire(2)] by (simp add: acquire(3) at_cut_def) (metis prod.collapse)
  then show ?thesis
    using lin assms(2) pos(2) k by (simp add: acquire(3) reader_at_def seen_agrees_def) blast
next
  case (release ls)
  have loads: "ss_loads x = drop k snapshot_loads" using assms(2) by (simp add: reader_at_def)
  note pos = snapshot_loads_at [OF loads release(1)]
  have k: "k = 8" using load_position(7) [OF pos(1)] pos(3) by metis
  have m: "ss_mutex x = Some Snapshot" using assms(2) k by (simp add: reader_at_def)
  have "lin_inv e y" by (rule lin_inv_reader [OF assms(1)]) (simp_all add: release(2) m)
  moreover have "at_cut e y s = at_cut e x s" for s by (simp add: release(2) at_cut_def)
  ultimately show ?thesis using assms(2) pos(2) k by (auto simp: release(2) reader_at_def seen_agrees_def)
next
  case (load l ls)
  have loads: "ss_loads x = drop k snapshot_loads" using assms(2) by (simp add: reader_at_def)
  note k = snapshot_loads_at(1,3,2) [OF loads load(1)]
  have ne: "k \<noteq> 3" "k \<noteq> 8" using load_position(2,7) [OF k(1)] load(2,3) k(2) by auto
  have lin: "lin_inv e y" by (rule lin_inv_reader [OF assms(1)]) (simp_all add: load(4))
  have "at_cut e y s = at_cut e x s" for s by (simp add: load(4) at_cut_def)
  then show ?thesis
    using lin assms(2) k ne load_agrees [OF k(1,2), of "ss_seen x" _ "counters x"]
    by (auto simp: load(4) reader_at_def)
qed

lemma stats_step_inv:
  assumes "stats_step x y" and "lin_inv e x" and "reader_at e k x"
  shows "lin_inv e y" and "\<exists>k'. reader_at e k' y"
proof -
  from assms(1) consider (call) i m where "ss_ops x i = []" "well_typed m" "callback_ops m \<noteq> []" "y = begin_call i m x"
    | (move) i where "callback_move i x = Some y" | (reader) "reader_move x = Some y"
    unfolding stats_step_def by blast
  then have "lin_inv e y \<and> (\<exists>k'. reader_at e k' y)"
  proof cases
    case call
    then show ?thesis using begin_inv [OF assms(2) call(1-3)] begin_reader [OF assms(3)] by blast
  next
    case move
    then show ?thesis using callback_effect(1) [OF assms(2)] callback_reader [OF assms(2,3)] by blast
  next
    case reader
    then show ?thesis using reader_reader [OF assms(2,3)] by blast
  qed
  then show "lin_inv e y" and "\<exists>k'. reader_at e k' y" by blast+
qed

lemma stats_start_inv:
  assumes "stats_start x" and "snd (ss_state x) = e"
  shows "lin_inv e x" and "reader_at e 13 x"
proof -
  have st: "ss_state x = (PacketStats_new, e)" using assms by (simp add: stats_start_def prod_eq_iff)
  show "lin_inv e x" using assms(1) by (simp add: lin_inv_def stats_start_def settled_def st thread_ok_def)
  show "reader_at e 13 x"
    using assms(1) by (simp add: reader_at_def stats_start_def st at_cut_def seen_agrees_def snapshot_loads_def)
qed

interpretation counting: transition_system "\<lambda>x. stats_start x \<and> snd (ss_state x) = e" stats_step
    "\<lambda>x. lin_inv e x \<and> (\<exists>k. reader_at e k x)" for e
  by unfold_locales (blast dest: stats_start_inv stats_step_inv)+

text \<open>As long as fewer than \<open>2 ^ 64\<close> steps were made the packet counter has not wrapped and only grows.\<close>

definition rx_at :: "env \<Rightarrow> nat \<Rightarrow> nat \<Rightarrow> stats_system \<Rightarrow> bool" where
  "rx_at e n k x \<longleftrightarrow> lin_inv e x \<and> reader_at e k x \<and> unat (ps_rx_packets (counters x)) \<le> n \<and>
     (1 \<le> k \<and> k \<le> 3 \<longrightarrow> ps_rx_packets (ss_seen x) \<le> ps_rx_packets (counters x)) \<and>
     (4 \<le> k \<longrightarrow> (\<forall>s. at_cut e x s \<longrightarrow> ps_rx_packets (ss_seen x) \<le> ps_processed_packets s))"

lemma rx_grows:
  assumes "r' = r \<or> r' = r + 1" and "unat r \<le> n" and "Suc n < 2 ^ 64"
  shows "unat r' \<le> Suc n" and "r \<le> (r' :: u64)"
proof -
  have "unat (r + 1) = Suc (unat r)" using assms(2,3) by (simp add: unat_word_ariths)
  then show "unat r' \<le> Suc n" "r \<le> r'" using assms(1,2) by (auto simp: word_le_nat_alt)
qed

lemma rx_reader:
  assumes "reader_move x = Some y" and "rx_at e n k x"
  shows "rx_at e (Suc n) (if k = 13 then 0 else Suc k) y"
proof -
  have inv: "lin_inv e x" "reader_at e k x" using assms(2) by (simp_all add: rx_at_def)
  note new = reader_reader [OF inv assms(1)]
  have loads: "ss_loads x = drop k snapshot_loads" and k: "k \<le> 13" using inv(2) by (simp_all add: reader_at_def)
  from assms(1) show ?thesis
  proof (cases rule: reader_moveE)
    case restart
    have "k = 13" using loads restart(1) k by (auto simp: snapshot_loads_def)
    then show ?thesis using new assms(2) by (simp add: rx_at_def restart(2))
  next
    case (acquire ls)
    have k3: "k = 3" using snapshot_loads_at(1,3) [OF loads acquire(1)] load_position(2) by metis
    have "ps_rx_packets (counters x) = ps_processed_packets (counters x)"
      using free_mutex_settled(2) [OF inv(1) acquire(2)] by (simp add: stats_inv_def)
    moreover have "at_cut e y s \<Longrightarrow> s = counters x" for s
      using free_mutex_settled(1) [OF inv(1) acquire(2)] by (simp add: at_cut_def acquire(3)) (metis fst_conv)
    ultimately show ?thesis using new assms(2) k3 by (auto simp: rx_at_def acquire(3))
  next
    case (release ls)
    have "k = 8" using snapshot_loads_at(1,3) [OF loads release(1)] load_position(7) by metis
    then show ?thesis using new assms(2) by (simp add: rx_at_def release(2) at_cut_def)
  next
    case (load l ls)
    note pos = snapshot_loads_at(1,3) [OF loads load(1)]
    have ne: "k \<noteq> 3" "k \<noteq> 13" using load_position(2) [OF pos(1)] pos load(2) by auto
    have rx: "ps_rx_packets (do_load l c v) = (if k = 0 then ps_rx_packets c else ps_rx_packets v)" for c v
      using load_position(1) [OF pos(1)] pos(2) by (cases l) auto
    show ?thesis using new assms(2) ne by (auto simp: rx_at_def load(4) rx at_cut_def)
  qed
qed

lemma rx_step:
  assumes "stats_step x y" and "rx_at e n k x" and "Suc n < 2 ^ 64"
  shows "\<exists>k'. rx_at e (Suc n) k' y"
proof -
  have inv: "lin_inv e x" "reader_at e k x" using assms(2) by (simp_all add: rx_at_def)
  from assms(1) consider (call) i m where "ss_ops x i = []" "well_typed m" "callback_ops m \<noteq> []" "y = begin_call i m x"
    | (move) i where "callback_move i x = Some y" | (reader) "reader_move x = Some y"
    unfolding stats_step_def by blast
  then show ?thesis
  proof cases
    case call
    then show ?thesis using begin_inv [OF inv(1) call(1-3)] begin_reader [OF inv(2)] assms(2)
      by (intro exI [of _ k]) (simp add: rx_at_def begin_call_def at_cut_def)
  next
    case move
    note eff = callback_effect [OF inv(1) move]
    obtain zs where zs: "ss_effects y = ss_effects x @ zs" using eff(3) by blast
    have cut: "at_cut e y s \<longleftrightarrow> at_cut e x s" for s
      using at_cut_extends [OF _ zs] eff(2) inv(2) by (simp add: reader_at_def)
    have le: "unat (ps_rx_packets (counters x)) \<le> n" using assms(2) by (simp add: rx_at_def)
    note g = rx_grows [OF eff(6) le assms(3)]
    show ?thesis
      using eff(1,2) callback_reader [OF inv move] assms(2) g cut
      by (intro exI [of _ k]) (auto simp: rx_at_def intro: order.trans)
  next
    case reader
    then show ?thesis using rx_reader [OF reader] assms(2) by blast
  qed
qed

lemma rx_steps:
  assumes "(stats_step ^^ n) x y" and "stats_start x" and "n < 2 ^ 64"
  shows "\<exists>k. rx_at (snd (ss_state x)) n k y"
  using assms(1,3)
proof (induction n arbitrary: y)
  case 0
  note start = stats_start_inv [OF assms(2) refl]
  have "PacketStats_new = s" if "at_cut (snd (ss_state x)) x s" for s
    using that assms(2) by (simp add: at_cut_def stats_start_def)
  moreover have "ps_rx_packets PacketStats_new = 0" "y = x" using 0 by (simp_all add: PacketStats_new_def)
  ultimately show ?case
    using start assms(2) by (intro exI [of _ 13]) (auto simp: rx_at_def stats_start_def)
next
  case (Suc n)
  then obtain z k where "rx_at (snd (ss_state x)) n k z" "stats_step z y" by fastforce
  then show ?case using rx_step Suc.prems(2) by blast
qed

text \<open>Who can move.\<close>

lemma callback_can_move:
  assumes "thread_ok y i" and "ss_ops y i \<noteq> []" and "ss_mutex y = None"
  shows "\<exists>z. callback_move i y = Some z"
  using assms by (auto simp: callback_move_def neq_Nil_conv split: stats_op.splits prod.splits)

lemma holder_can_move:
  assumes "thread_ok y i" and "ss_mutex y = Some (Callback i)"
  shows "\<exists>z. callback_move i y = Some z"
proof -
  obtain body where body: "ss_ops y i = body @ [Unlock]" "list_all plain_op body" using assms by (auto simp: thread_ok_def)
  then show ?thesis
    by (cases body) (auto simp: callback_move_def split: stats_op.splits prod.splits)
qed

lemma reader_can_move:
  assumes "reader_at e k y" and "ss_mutex y = Some Snapshot"
  shows "\<exists>z. reader_move y = Some z"
proof (cases "ss_loads y")
  case (Cons l ls)
  have loads: "ss_loads y = drop k snapshot_loads" "4 \<le> k" using assms by (simp_all add: reader_at_def)
  have "l \<noteq> LockSnapshot" using snapshot_loads_at(1,3) [OF loads(1) Cons] load_position(2) [of k] loads(2) by auto
  then show ?thesis using Cons by (cases l) (simp_all add: reader_move_def)
qed (simp add: reader_move_def)

section \<open>Properties\<close>

text \<open>
  \<^bold>\<open>C7\<close> The callbacks of the statistics are atomic. However the atomic operations of any number of concurrent
  callbacks and of the snapshots are interleaved, when no callback is under way the counters are those
  that the callbacks, run one after the other, leave: in the order in which they took the mutex (or made
  their one addition), which respects the order of calls in each thread, whose every call has taken effect once. And the threads
  never block each other for good: while a callback is under way, one can move or the reader, who holds the mutex, can.
\<close>

theorem stats_callbacks_atomic:
  assumes "stats_start x" and "stats_step\<^sup>*\<^sup>* x y"
  shows "((\<forall>i. ss_ops y i = []) \<longrightarrow>
      stats_run (map snd (ss_effects y)) (ss_state x) = Inr (ss_state y) \<and>
      (\<forall>i. calls_of i (ss_effects y) = calls_of i (ss_calls y))) \<and>
    ((\<exists>i. ss_ops y i \<noteq> []) \<longrightarrow>
      (\<exists>i z. callback_move i y = Some z) \<or> ss_mutex y = Some Snapshot \<and> (\<exists>z. reader_move y = Some z))"
proof -
  let ?e = "snd (ss_state x)"
  have st: "ss_state x = (PacketStats_new, ?e)" using assms(1) by (simp add: stats_start_def prod_eq_iff)
  obtain k where inv: "lin_inv ?e y" "reader_at ?e k y" using counting.reachable_invariant [OF _ assms(2)] assms(1) by blast
  have ok: "thread_ok y i" for i using inv(1) by (simp add: lin_inv_def)
  have "stats_run (map snd (ss_effects y)) (ss_state x) = Inr (ss_state y) \<and> calls_of i (ss_effects y) = calls_of i (ss_calls y)"
    if idle: "\<forall>i. ss_ops y i = []" for i
  proof -
    have no: "ss_mutex y \<noteq> Some (Callback j)" for j using ok [of j] idle by (auto simp: thread_ok_def)
    then have "settled y = ss_state y" by (simp add: settled_def split: option.split mutex_holder.split)
    then show ?thesis using inv(1) ok [of i] idle no [of i] st by (simp add: lin_inv_def thread_ok_def not_begun_def)
  qed
  moreover have "(\<exists>i z. callback_move i y = Some z) \<or> ss_mutex y = Some Snapshot \<and> (\<exists>z. reader_move y = Some z)"
    if "ss_ops y i \<noteq> []" for i
    using callback_can_move [OF ok that] holder_can_move [OF ok] reader_can_move [OF inv(2)] by (metis mutex_holder.exhaust not_None_eq)
  ultimately show ?thesis by blast
qed

text \<open>
  \<^bold>\<open>C8\<close> A snapshot of the statistics is a consistent cut. Taken while callbacks run in other threads, in
  any interleaving of fewer than \<open>2 ^ 64\<close> steps, its processed packets, terminal events, duplicates and drops are those of one
  moment: the counters after the first \<open>k\<close> callbacks in the order of their effects. So it is balanced, terminal
  events being processed packets plus drops; and its packet count, loaded before that moment, is never
  ahead of its processed packets.
\<close>

theorem snapshot_is_consistent_cut:
  assumes "stats_start x" and "(stats_step ^^ n) x y" and "n < 2 ^ 64" and "ss_loads y = []" and "hash_order order"
  shows "\<exists>k s e m. m = snapshotAt order (ss_seen y) \<and> k \<le> length (ss_effects y) \<and>
    stats_run (map snd (take k (ss_effects y))) (ss_state x) = Inr (s, e) \<and>
    pm_processed_packets m = ps_processed_packets s \<and> pm_terminal_events m = ps_terminal_events s \<and>
    pm_duplicate_events m = ps_duplicate_events s \<and> map_of (pm_drops_by_reason m) = map_of (ps_drop_counters s) \<and>
    pm_terminal_events m = pm_processed_packets m + drops order (ss_seen y) \<and>
    pm_rx_packets m \<le> pm_processed_packets m"
proof -
  let ?e = "snd (ss_state x)"
  have st: "ss_state x = (PacketStats_new, ?e)" using assms(1) by (simp add: stats_start_def prod_eq_iff)
  obtain k where k: "rx_at ?e n k y" using rx_steps [OF assms(2,1,3)] by blast
  then have "k = 13" using assms(4) by (auto simp: rx_at_def reader_at_def snapshot_loads_def)
  then obtain s where s: "at_cut ?e y s" "seen_agrees 13 (ss_seen y) s" "ss_cut y \<le> length (ss_effects y)"
    "ps_rx_packets (ss_seen y) \<le> ps_processed_packets s"
    using k by (auto simp: rx_at_def reader_at_def)
  obtain e' where run: "stats_run (map snd (take (ss_cut y) (ss_effects y))) (ss_state x) = Inr (s, e')"
    using s(1) st by (auto simp: at_cut_def)
  have inv: "stats_inv s" using stats_inv_run [OF _ stats_inv_new] run st by metis
  have same: "pm_drops_by_reason (snapshotAt order (ss_seen y)) = pm_drops_by_reason (snapshotAt order s)"
    "drops order (ss_seen y) = drops order s"
    using s(2) by (simp_all add: seen_agrees_def snapshotAt_def drops_def Let_def)
  have "ps_terminal_events s = ps_processed_packets s + drop_total s" using inv unfolding stats_inv_def by blast
  then show ?thesis
    using run s same snapshot_drops [OF assms(5) inv] drops_eq_total [OF assms(5), of s]
    by (intro exI [of _ "ss_cut y"] exI [of _ s] exI [of _ e'] exI [of _ "snapshotAt order (ss_seen y)"])
      (simp add: seen_agrees_def snapshotAt_def Let_def)
qed

section \<open>Examples\<close>

text \<open>A schedule: which thread moves, \<open>None\<close> being the reader; a blocked one is passed over.\<close>

definition stats_schedule :: "nat option list \<Rightarrow> stats_system \<Rightarrow> stats_system" where
  "stats_schedule ts x =
     fold (\<lambda>t x. case (case t of Some i \<Rightarrow> callback_move i x | None \<Rightarrow> reader_move x) of None \<Rightarrow> x | Some y \<Rightarrow> y) ts x"

lemma stats_schedule_simps:
  "stats_schedule [] x = x"
  "stats_schedule (Some i # ts) x = stats_schedule ts (case callback_move i x of None \<Rightarrow> x | Some y \<Rightarrow> y)"
  "stats_schedule (None # ts) x = stats_schedule ts (case reader_move x of None \<Rightarrow> x | Some y \<Rightarrow> y)"
  by (simp_all add: stats_schedule_def)

lemma schedule_steps: "\<exists>n \<le> length ts. (stats_step ^^ n) x (stats_schedule ts x)"
proof (induction ts arbitrary: x)
  case (Cons t ts)
  show ?case
  proof (cases "case t of Some i \<Rightarrow> callback_move i x | None \<Rightarrow> reader_move x")
    case None
    then show ?thesis using Cons.IH [of x] by (auto simp: stats_schedule_def intro: le_SucI)
  next
    case (Some y)
    then have "stats_step x y" by (auto simp: stats_step_def split: option.splits)
    moreover obtain n where "n \<le> length ts" "(stats_step ^^ n) y (stats_schedule ts y)" using Cons.IH by blast
    ultimately have "(stats_step ^^ Suc n) x (stats_schedule ts y)" by (meson relpowp_Suc_I2)
    then show ?thesis using Some \<open>n \<le> length ts\<close> by (intro exI [of _ "Suc n"]) (simp add: stats_schedule_def)
  qed
qed (auto simp: stats_schedule_def)

definition stats_idle :: "env \<Rightarrow> stats_system" where
  "stats_idle e = \<lparr>ss_state = (PacketStats_new, e), ss_mutex = None, ss_msg = (\<lambda>_. drop_message ParseError 0 0 0), ss_ops = (\<lambda>_. []),
     ss_loads = [], ss_seen = PacketStats_new, ss_calls = [], ss_effects = [], ss_cut = 0\<rparr>"

definition processed_at :: "u64 \<Rightarrow> u64 \<Rightarrow> Message" where
  "processed_at lifecycle_id ingress_ns = \<lparr>m_type = T_PacketProcessed, m_timestamp_ms = 0,
     m_payload = P_Packet (Packet_default\<lparr>pk_lifecycle_id := lifecycle_id, pk_ingress_timestamp_ns := ingress_ns\<rparr>)\<rparr>"

lemma stats_idle_start: "stats_start (stats_idle e)"
  by (simp add: stats_start_def stats_idle_def)

lemma begin_step: "ss_ops x i = [] \<Longrightarrow> stats_step x (begin_call i (processed_at l t) x)"
  unfolding stats_step_def
  by (intro disjI1 exI [of _ i] exI [of _ "processed_at l t"]) (simp add: processed_at_def well_typed_def callback_ops_def)

lemmas stats_eval = stats_schedule_simps callback_move_def reader_move_def begin_call_def stats_idle_def processed_at_def
  callback_ops_def snapshot_loads_def PacketStats_new_def nowNs_def Packet_default_def

text \<open>Two threads complete the same identity at once, the second one waits for the mutex and counts a duplicate.\<close>

definition two_calls :: stats_system where
  "two_calls = stats_schedule [Some 0, Some 1, Some 0, Some 0, Some 0, Some 0, Some 0, Some 0, Some 0, Some 1, Some 1, Some 1, Some 1]
     (begin_call 1 (processed_at 8 0) (begin_call 0 (processed_at 8 0) (stats_idle env_demo)))"

lemma two_calls_result:
  "(\<forall>i. ss_ops two_calls i = []) \<and> ps_terminal_events (counters two_calls) = 1 \<and> ps_duplicate_events (counters two_calls) = 1"
  by (simp add: two_calls_def stats_eval)

lemma two_calls_reached: "stats_step\<^sup>*\<^sup>* (stats_idle env_demo) two_calls"
proof -
  let ?x = "begin_call 0 (processed_at 8 0) (stats_idle env_demo)"
  have "stats_step (stats_idle env_demo) ?x" by (rule begin_step) (simp add: stats_idle_def)
  moreover have "stats_step ?x (begin_call 1 (processed_at 8 0) ?x)"
    by (rule begin_step) (simp add: begin_call_def stats_idle_def)
  moreover have "stats_step\<^sup>*\<^sup>* (begin_call 1 (processed_at 8 0) ?x) two_calls"
    unfolding two_calls_def using schedule_steps by (blast intro: relpowp_imp_rtranclp)
  ultimately show ?thesis by (meson converse_rtranclp_into_rtranclp)
qed

theorem stats_callbacks_atomic_witness:
  "stats_run (map snd (ss_effects two_calls)) (PacketStats_new, env_demo) = Inr (ss_state two_calls) \<and>
   ps_duplicate_events (counters two_calls) = 1"
proof -
  have "ss_state (stats_idle env_demo) = (PacketStats_new, env_demo)" by (simp add: stats_idle_def)
  then show ?thesis
    using stats_callbacks_atomic [OF stats_idle_start two_calls_reached] two_calls_result by auto
qed

text \<open>A snapshot that loads the packet count before a callback and the rest after it.\<close>

definition late_moves :: "nat option list" where
  "late_moves = [None, None, Some 0, Some 0, Some 0, Some 0, Some 0, Some 0, Some 0, Some 0, None, None, None, None, None, None, None, None, None, None, None, None]"

definition late_snapshot :: stats_system where
  "late_snapshot = stats_schedule late_moves
     (begin_call 0 (processed_at 8 0) (stats_idle env_demo))"

lemma late_snapshot_result:
  "ss_loads late_snapshot = [] \<and> pm_rx_packets (snapshotAt rev (ss_seen late_snapshot)) = 0 \<and>
   pm_processed_packets (snapshotAt rev (ss_seen late_snapshot)) = 1"
  by (simp add: late_snapshot_def late_moves_def stats_eval snapshotAt_def)

theorem snapshot_is_consistent_cut_witness:
  "pm_rx_packets (snapshotAt rev (ss_seen late_snapshot)) < pm_processed_packets (snapshotAt rev (ss_seen late_snapshot)) \<and>
   (\<exists>k s e. stats_run (map snd (take k (ss_effects late_snapshot))) (PacketStats_new, env_demo) = Inr (s, e) \<and>
     ps_terminal_events s = pm_terminal_events (snapshotAt rev (ss_seen late_snapshot)))"
proof -
  let ?x = "begin_call 0 (processed_at 8 0) (stats_idle env_demo)"
  have b: "stats_step (stats_idle env_demo) ?x" by (rule begin_step) (simp add: stats_idle_def)
  obtain n where n: "n \<le> length late_moves" "(stats_step ^^ n) ?x late_snapshot"
    unfolding late_snapshot_def using schedule_steps by blast
  have r: "(stats_step ^^ Suc n) (stats_idle env_demo) late_snapshot" by (rule relpowp_Suc_I2 [OF b n(2)])
  have st: "ss_state (stats_idle env_demo) = (PacketStats_new, env_demo)" by (simp add: stats_idle_def)
  have "Suc n < 2 ^ 64" "hash_order rev" using n(1) by (simp_all add: hash_order_def late_moves_def)
  from snapshot_is_consistent_cut [OF stats_idle_start r this(1) conjunct1 [OF late_snapshot_result] this(2)]
  show ?thesis using late_snapshot_result st by (auto intro: sym)
qed

text \<open>
  The latency counters are loaded outside the mutex: a snapshot between the two additions of a callback divides the
  sum of two latencies by one, and shows an average latency above the maximum.
\<close>

definition torn_snapshot :: stats_system where
  "torn_snapshot = stats_schedule [Some 0, Some 0, Some 0, Some 0, Some 0, Some 0, Some 0, Some 0, None, None, None, None]
     (begin_call 0 (processed_at 2 1) (stats_schedule [Some 0, Some 0, Some 0, Some 0, Some 0, Some 0, Some 0, Some 0, Some 0, Some 0, Some 0, Some 0, None, None, None, None, None, None, None, None, None, None]
       (begin_call 0 (processed_at 1 1) (stats_idle (env_demo\<lparr>ns_clock := (\<lambda>_. 11)\<rparr>)))))"

lemma average_above_maximum:
  "ss_loads torn_snapshot = [] \<and> pm_max_processing_latency_ns (snapshotAt rev (ss_seen torn_snapshot)) = 10 \<and>
   pm_average_processing_latency_ns (snapshotAt rev (ss_seen torn_snapshot)) = 20"
  by (simp add: torn_snapshot_def stats_eval snapshotAt_def env_demo_def)

end
