(* ===== verification/Spec2Isabelle.thy ===== *)
theory Spec2Isabelle
  imports Packet_Injection Replay_Determinism Ingress_Accounting Epoll_Thread Signals Process_Exit Worker_Wakeup Stats_Concurrency
begin

text \<open>
  \<^bold>\<open>A verification development of EdgeNetSwitch\<close>

  EdgeNetSwitch is a software Ethernet switch that runs as a daemon. Datagrams arrive on a UDP socket, become
  packets with a lifecycle identity and are published on a message bus; a processor queues them, a worker
  thread runs the learning switch on them and hands them to the transport backends of the egress ports; a
  statistics component accounts for every packet; a control socket answers requests and injects test packets; the
  main thread ticks telemetry and health and publishes status snapshots. Four kinds of threads share
  this state: the event loop (UDP and control sockets), the worker, the telemetry exporter and the main thread.

  \<^bold>\<open>Theories and sources\<close> (paths under \<^verbatim>\<open>src/\<close> and \<^verbatim>\<open>include/edgenetswitch/\<close> of the repository). Each theory
  holds the records, datatypes and operations of its sources under the names of the source, then lemmas, then
  its properties.

  \<^item> \<open>Ens_Prelude\<close>, \<open>Text_Utils\<close>: machine words, ordered and hashed maps, the locale \<open>transition_system\<close> (invariants of
    reachable states) and \<open>bounded_fifo\<close> (queues of bounded capacity); characters, decimal printing and parsing.
  \<^item> \<open>Mac_Address\<close>, \<open>Mac_Table\<close>, \<open>Interface_Registry\<close>, \<open>Forwarding_Engine\<close>: \<^verbatim>\<open>switching/\<close>. The engine refines an
    abstract learning switch; the address table refines a map with eviction of the oldest entry.
  \<^item> \<open>Packet_Types\<close>, \<open>Packet_Parser\<close>, \<open>Packet_Stats\<close>, \<open>Packet_Processor\<close>: \<^verbatim>\<open>packet/\<close>. \<open>Failure_Injector\<close>: \<^verbatim>\<open>failure/\<close>.
    \<open>Worker_Wakeup\<close>: the mutex and condition variable of \<^verbatim>\<open>PacketProcessor\<close> and \<^verbatim>\<open>TelemetryExportManager\<close>, with the
    locale \<open>waiting_worker\<close>; \<open>Stats_Concurrency\<close>: \<^verbatim>\<open>PacketStats\<close> one atomic operation at a time.
  \<^item> \<open>Messaging_Bus\<close>: \<^verbatim>\<open>messaging/\<close>, with the locale \<open>reliable_bus\<close>.
  \<^item> \<open>Runtime_Env\<close>: \<^verbatim>\<open>core/Logger\<close>, \<^verbatim>\<open>core/TimeUtils\<close> and the operating system's clocks, \<^verbatim>\<open>sendto\<close> and sleeping.
  \<^item> \<open>Fd_Registry\<close>, \<open>Event_Loop\<close>: \<^verbatim>\<open>system/\<close>. \<open>Transport\<close>: \<^verbatim>\<open>transport/\<close>, with the locale \<open>port_backend\<close>.
  \<^item> \<open>Telemetry_Export\<close>, \<open>Rate_Smoother\<close>: \<^verbatim>\<open>telemetry/\<close>. \<open>Runtime_Health\<close>, \<open>Runtime_Status\<close>: \<^verbatim>\<open>runtime/\<close>.
  \<^item> \<open>Replay\<close>: \<^verbatim>\<open>replay/\<close>; \<open>Replay_Runtime\<close>, \<open>Replay_Determinism\<close>: a runtime that records and one that replays, wired as in
    \<^verbatim>\<open>tests/replay_outcome_equivalence_tests.cpp\<close>, their threads interleaved at the collector's lock.
  \<^item> \<open>Config_Loader\<close>: \<^verbatim>\<open>core/Config\<close>. \<open>Udp_Ingress\<close>: \<^verbatim>\<open>network/\<close>.
  \<^item> \<open>Runtime_Pipeline\<close>: the subscribers and the wired bus of \<^verbatim>\<open>daemon/main.cpp\<close>; \<open>Concurrent_Runtime\<close>: its
    threads interleaved; \<open>Ingress_Accounting\<close>: the same with the reads of the UDP socket and the injections of
    \<^verbatim>\<open>send-packet\<close>; \<open>Epoll_Thread\<close>: the event-loop thread with its three handlers beside the other threads.
  \<^item> \<open>Control_Protocol\<close>, \<open>Control_Dispatch\<close>, \<open>Control_Server\<close>: \<^verbatim>\<open>control/\<close> and the command-line client of
    \<^verbatim>\<open>daemon/main.cpp\<close>; \<open>Packet_Injection\<close>: what an injected packet causes down the pipeline.
  \<^item> \<open>Daemon_Boot\<close>, \<open>Daemon_Main\<close>: \<^verbatim>\<open>daemon/main.cpp\<close>: start, main loop, shutdown, destructors, \<open>main\<close>;
    \<open>Signals\<close>: the signal handler and the optional debug reader; \<open>Process_Exit\<close>: every way out of \<open>main\<close>.

  \<^bold>\<open>State and effects\<close>. A class is a record, an operation a function from the old state to the new one; the
  shared runtime is the record \<open>node\<close>. The subscribers of the bus are those of the finished start (\<open>daemon_bus\<close>); the callbacks
  that \<^verbatim>\<open>main\<close> adds after the event-loop thread has begun only log packet messages and serve those that \<^verbatim>\<open>main\<close> itself publishes. A \<^verbatim>\<open>std::map\<close> is a sorted association list, a \<^verbatim>\<open>std::unordered_map\<close> an
  association list without duplicates whose iteration order is a parameter (\<open>hash_order\<close> says it lists the
  same entries). Unsigned integers are words and wrap around; doubles are rationals rounded to nearest even at 53
  bits. An exception is a value of \<open>exn\<close>; \<open>delivery\<close> adds the outcome of running out of fuel. What the operating
  system answers is a function or a list of answers; what the program sends is recorded. Descriptors live in
  \<open>fd_world\<close>, where closing what is not open is counted. Threads are inductive step relations; their invariants
  are proved by rule induction through interpretations of \<open>transition_system\<close>.

  \<^bold>\<open>What is shown\<close>.
  \<^item> Packets: under every interleaving no packet is lost or counted twice, and every one gets an outcome unless it is
    queued after the worker has ended (\<open>Concurrent_Runtime\<close>, where the worker ends at an empty queue once the
    processor is stopped); one terminal event per packet, bounded queue, one datagram per egress port with a backend
    (\<open>Packet_Processor\<close>); exactly-once accounting and balanced snapshots (\<open>Packet_Stats\<close>); parsing, validation and a
    bounded wake-up (\<open>Packet_Parser\<close>, \<open>Udp_Ingress\<close>); from the socket down, exactly the identities of the datagrams
    are completed, and duplicates come only from injected identities (\<open>Ingress_Accounting\<close>).
  \<^item> Threads: concurrent statistics callbacks are equivalent to callbacks run in turn, and a snapshot among them is a
    consistent cut (\<open>Stats_Concurrency\<close>); no packet waits while the worker sleeps, and a stopped worker ends by its own
    steps, whatever else happens, if and only if it was not just falling asleep when it was notified; otherwise only a spurious
    wake-up or a producer's notification ends it (\<open>Worker_Wakeup\<close>). The theories that interleave
    whole callbacks and passes of the worker (\<open>Concurrent_Runtime\<close> and those on top of it) rest on this granularity.
  \<^item> Replay, for at most 1024 received packets: under all schedules original run and replay have the same outcomes, each thread's in the same order;
    without faults, or when both runs are paced, in the same total order; every run ends.
  \<^item> Switching: refinement of the abstract learning switch and table, reverse path, aging.
  \<^item> Bus: every well-typed message reaches every subscriber without an exception.
  \<^item> Descriptors and loop: single ownership, no double close, exact leak report; a stopped loop ends within 68 steps, woken by
    the eventfd even when \<^verbatim>\<open>epoll_wait\<close> never times out, and no handler raises out of its thread.
  \<^item> Observability: telemetry queue contract and draining, health edges, correctly rounded rates, bounded smoothing,
    snapshots that never go back, nearest configuration.
  \<^item> Control: every client whose first 127 bytes, all that the server reads, are UTF-8 is served and closed, requests
    of up to 123 characters round trip, an injected
    learning sequence is learned and forwarded; a command that is not UTF-8 within these 127 bytes raises.
  \<^item> Transport: the counters account for every transmission.
  \<^item> Daemon: a start is complete or fails, and a failed one terminates the process, because it leaves the export thread
    joinable; a signal ends the daemon after the right number of ticks, with all descriptors released, if the event loop has
    begun and neither the export thread nor the worker loses its notification; signals at any times stop it in a bounded number of ticks; the exit status tells which way \<open>main\<close> was left.

  \<^bold>\<open>Bounds and fuel\<close>. Publication has fuel 4: a message has at most three subscribers, and only one of them publishes,
  one message with one subscriber. The read loop has the budget of 256 of the source. \<open>drain_loop\<close> gets one more than the
  length of the queue, which suffices as nothing is added after the producers have stopped. A stopped event loop makes at
  most 68 steps (a wait, 64 events, and the tests), so joining has fuel 69. A run of \<open>n\<close> replayed packets has at most \<open>9 n\<close>
  moves; replay is stated for at most 1024 packets, so that the queue never refuses one. \<open>main_loop\<close> has fuel \<open>k + 1\<close> when iteration
  \<open>k\<close> sees the signal. In each case the property shows that the fuel suffices.

  \<^bold>\<open>Not modelled\<close>: the inside of the JSON library (parameters \<open>json_api\<close>, \<open>cp_dump\<close> with their documented
  behaviour as hypotheses): it is third-party code. The memory model: atomic operations are interleaved in one
  order although the source asks for relaxed ones, and the control thread's reads of the MAC table and of the transport
  counters beside the worker are data races, to which the language gives no meaning (the findings name them). The file
  system beyond which files open and what they hold. The tests, except for the wiring of the replay tests. The lines of the sources that no
  definition models are includes, namespaces and closing braces, declarations in headers whose definitions are
  modelled, and deleted or defaulted members.
\<close>

end
